(* ===== verification/Prelude.thy ===== *)
theory Prelude
  imports Main "HOL-Library.Word" "HOL-Library.AList" "HOL-Library.Multiset"
begin

text \<open>
  Shared vocabulary of the development: the Rust integer types and the checked, saturating and
  slicing operations of the standard library that the sources use; byte strings and their
  little- and big-endian values; \<open>HashMap\<close> as an interface (locale \<open>hash_map\<close>) with an
  association-list implementation; byte accounting over a map (locale \<open>weighted_map\<close>); and
  transition systems with reachability (locale \<open>transition_system\<close>).

  The width of \<open>usize\<close> is 64 bits, the width of the targets the crate is built for. A
  \<open>usize\<close> is a natural number and every place where the sources guard against
  overflow goes through \<open>checked_add_usize\<close> and its companions, which know \<open>usize_max\<close>.
\<close>

section \<open>Integers, results and slices\<close>

unbundle bit_operations_syntax

type_synonym u8 = "8 word"
type_synonym u16 = "16 word"
type_synonym u32 = "32 word"
type_synonym u64 = "64 word"
type_synonym usize = nat
type_synonym bytes = "u8 list"

text \<open>Clock readings (\<open>Instant\<close>) and durations, both in the clock's smallest unit.\<close>

type_synonym instant = nat
type_synonym duration = nat

named_theorems usize_simps \<open>arithmetic of the checked and saturating operations\<close>
named_theorems byte_simps \<open>encoding and decoding of integers as byte strings\<close>

definition usize_max :: usize where
  "usize_max = 18446744073709551615"

definition checked_add_usize :: "usize \<Rightarrow> usize \<Rightarrow> usize option" where
  "checked_add_usize a b = (if a + b \<le> usize_max then Some (a + b) else None)"

definition saturating_add_usize :: "usize \<Rightarrow> usize \<Rightarrow> usize" where
  "saturating_add_usize a b = min (a + b) usize_max"

definition saturating_sub_usize :: "usize \<Rightarrow> usize \<Rightarrow> usize" where
  "saturating_sub_usize a b = a - b"

definition saturating_mul_usize :: "usize \<Rightarrow> usize \<Rightarrow> usize" where
  "saturating_mul_usize a b = min (a * b) usize_max"

text \<open>\<open>u32::checked_add(1)\<close>.\<close>

definition checked_inc_u32 :: "u32 \<Rightarrow> u32 option" where
  "checked_inc_u32 v = (if v = -1 then None else Some (v + 1))"

text \<open>\<open>now.saturating_duration_since(then)\<close>.\<close>

definition saturating_duration_since :: "instant \<Rightarrow> instant \<Rightarrow> duration" where
  "saturating_duration_since now earlier = now - earlier"

text \<open>\<open>slice.get(a..b)\<close>: \<open>None\<close> when the range is reversed or runs past the end.\<close>

definition slice_get :: "'a list \<Rightarrow> nat \<Rightarrow> nat \<Rightarrow> 'a list option" where
  "slice_get xs a b =
     (if a \<le> b \<and> b \<le> length xs then Some (take (b - a) (drop a xs)) else None)"

lemma checked_add_usize_Some [usize_simps]:
  "checked_add_usize a b = Some c \<longleftrightarrow> c = a + b \<and> a + b \<le> usize_max"
  by (auto simp: checked_add_usize_def)

lemma checked_add_usize_None [usize_simps]:
  "checked_add_usize a b = None \<longleftrightarrow> usize_max < a + b"
  by (auto simp: checked_add_usize_def)

lemma saturating_add_usize_le:
  "n \<le> usize_max \<Longrightarrow> n < saturating_add_usize a b \<longleftrightarrow> n < a + b \<and> n < usize_max"
  by (auto simp: saturating_add_usize_def)

lemma saturating_add_usize_exact [usize_simps]:
  "a + b \<le> usize_max \<Longrightarrow> saturating_add_usize a b = a + b"
  by (simp add: saturating_add_usize_def)

lemma saturating_add_usize_bounded:
  "limit < usize_max \<Longrightarrow> \<not> limit < saturating_add_usize a b \<Longrightarrow> a + b \<le> limit"
  by (auto simp: saturating_add_usize_def min_def split: if_splits)

lemma unat_checked_inc_u32:
  assumes "checked_inc_u32 v = Some w"
  shows "unat w = Suc (unat v)"
proof -
  from assms have v: "v \<noteq> -1" and w: "w = v + 1"
    by (auto simp: checked_inc_u32_def split: if_splits)
  from v have "1 + v \<noteq> 0"
    by (metis add.commute add_eq_0_iff)
  then have "unat (1 + v) = Suc (unat v)"
    by (rule unatSuc)
  then show ?thesis using w by (simp add: add.commute)
qed

lemma checked_inc_u32_None: "checked_inc_u32 v = None \<longleftrightarrow> unat v = 4294967295"
proof -
  have m1: "unat (-1 :: u32) = 4294967295"
    by (simp add: unsigned_minus_1_eq_mask mask_eq_exp_minus_1)
  have "v = -1 \<longleftrightarrow> unat v = unat (-1 :: u32)"
    by (simp only: word_unat_eq_iff)
  then show ?thesis unfolding m1 by (simp add: checked_inc_u32_def)
qed

lemma unat_bounds:
  "unat (a :: u8) < 256" "unat (b :: u16) < 65536" "unat (c :: u32) < 4294967296"
  "unat (d :: u64) < 18446744073709551616"
proof -
  have "unat w < 2 ^ LENGTH('w)" for w :: "'w :: len word"
    by (rule unsigned_less)
  from this [of a] this [of b] this [of c] this [of d]
  show "unat a < 256" "unat b < 65536" "unat c < 4294967296" "unat d < 18446744073709551616"
    by simp_all
qed

text \<open>\<open>(x & 0xff) as u8\<close> and \<open>x >> (8 * i)\<close>.\<close>

lemma unat_low_byte_u64: "unat (ucast ((x :: u64) AND 0xff) :: u8) = unat x mod 256"
proof -
  have "x AND 0xff = take_bit 8 x"
    by (simp add: take_bit_eq_mask mask_eq_exp_minus_1)
  then have "unat (ucast (x AND 0xff) :: u8) = take_bit 8 (unat x)"
    by (simp add: unsigned_ucast_eq unsigned_take_bit_eq)
  then show ?thesis by (simp add: take_bit_eq_mod)
qed

lemma unat_low_byte_u32: "unat (ucast ((x :: u32) AND 0xff) :: u8) = unat x mod 256"
proof -
  have "x AND 0xff = take_bit 8 x"
    by (simp add: take_bit_eq_mask mask_eq_exp_minus_1)
  then have "unat (ucast (x AND 0xff) :: u8) = take_bit 8 (unat x)"
    by (simp add: unsigned_ucast_eq unsigned_take_bit_eq)
  then show ?thesis by (simp add: take_bit_eq_mod)
qed

lemma unat_shift_bytes: "unat (drop_bit (8 * i) (x :: 'w :: len word)) = unat x div 256 ^ i"
proof -
  have "(256 :: nat) ^ i = 2 ^ (8 * i)"
    by (simp add: power_mult)
  then show ?thesis by (simp only: unat_drop_bit_eq) (simp add: drop_bit_eq_div)
qed

lemma slice_get_Some:
  "slice_get xs a b = Some ys \<longleftrightarrow> a \<le> b \<and> b \<le> length xs \<and> ys = take (b - a) (drop a xs)"
  by (auto simp: slice_get_def)

lemma slice_get_append [simp]:
  "slice_get (xs @ ys @ zs) (length xs) (length xs + length ys) = Some ys"
  by (simp add: slice_get_def)

section \<open>Byte strings as numbers\<close>

text \<open>
  The value of a byte string read least significant byte first, and the \<open>n\<close> low bytes of a
  number in that order; the big-endian forms are their mirror images.
\<close>

fun le_val :: "bytes \<Rightarrow> nat" where
  "le_val [] = 0"
| "le_val (b # bs) = unat b + 256 * le_val bs"

fun le_bytes :: "nat \<Rightarrow> nat \<Rightarrow> bytes" where
  "le_bytes 0 v = []"
| "le_bytes (Suc n) v = word_of_nat v # le_bytes n (v div 256)"

definition be_val :: "bytes \<Rightarrow> nat" where
  "be_val bs = le_val (rev bs)"

definition be_bytes :: "nat \<Rightarrow> nat \<Rightarrow> bytes" where
  "be_bytes n v = rev (le_bytes n v)"

lemma length_le_bytes [simp]: "length (le_bytes n v) = n"
  by (induction n v rule: le_bytes.induct) auto

lemma length_be_bytes [simp]: "length (be_bytes n v) = n"
  by (simp add: be_bytes_def)

lemma le_val_le_bytes [byte_simps]: "le_val (le_bytes n v) = v mod 256 ^ n"
proof (induction n v rule: le_bytes.induct)
  case (1 v)
  show ?case by simp
next
  case (2 n v)
  have "le_val (le_bytes (Suc n) v) = v mod 256 + 256 * (v div 256 mod 256 ^ n)"
    using 2 by (simp add: unat_of_nat)
  also have "\<dots> = v mod 256 ^ Suc n"
    by (simp add: mod_mult2_eq)
  finally show ?case .
qed

lemma be_val_be_bytes [byte_simps]: "be_val (be_bytes n v) = v mod 256 ^ n"
  by (simp add: be_val_def be_bytes_def le_val_le_bytes)

lemma le_val_bound: "le_val bs < 256 ^ length bs"
proof (induction bs)
  case Nil
  show ?case by simp
next
  case (Cons b bs)
  have "unat b < 256" by (rule unat_bounds)
  moreover have "256 * Suc (le_val bs) \<le> 256 * 256 ^ length bs"
    using Cons by (intro mult_left_mono) auto
  ultimately show ?case by simp
qed

lemma be_val_bound: "be_val bs < 256 ^ length bs"
  using le_val_bound [of "rev bs"] by (simp add: be_val_def)

lemma le_bytes_le_val [byte_simps]: "length bs = n \<Longrightarrow> le_bytes n (le_val bs) = bs"
proof (induction bs arbitrary: n)
  case Nil
  then show ?case by simp
next
  case (Cons b bs)
  have "unat b < 256" by (rule unat_bounds)
  then have "(unat b + 256 * le_val bs) div 256 = le_val bs"
    by simp
  moreover have "(word_of_nat (unat b + 256 * le_val bs) :: u8) = b"
  proof -
    have z: "(256 :: u8) = 0" by simp
    show ?thesis by (simp add: z)
  qed
  ultimately show ?case using Cons by auto
qed

lemma be_bytes_be_val [byte_simps]: "length bs = n \<Longrightarrow> be_bytes n (be_val bs) = bs"
  by (simp add: be_bytes_def be_val_def le_bytes_le_val)

lemma le_val_append: "le_val (xs @ ys) = le_val xs + 256 ^ length xs * le_val ys"
  by (induction xs) (simp_all add: algebra_simps)

lemma le_val_replicate_zero [simp]: "le_val (replicate n 0) = 0"
  by (induction n) simp_all

lemma be_val_zero_append: "be_val (replicate n 0 @ bs) = be_val bs"
  by (simp add: be_val_def le_val_append)

lemma le_val_append_zero: "le_val (bs @ replicate n 0) = le_val bs"
  by (simp add: le_val_append)

lemma le_bytes_nth:
  "i < n \<Longrightarrow> le_bytes n v ! i = word_of_nat (v div 256 ^ i)"
proof (induction n v arbitrary: i rule: le_bytes.induct)
  case (1 v)
  then show ?case by simp
next
  case (2 n v)
  show ?case
  proof (cases i)
    case 0
    then show ?thesis by simp
  next
    case (Suc j)
    with 2 show ?thesis by (simp add: div_mult2_eq)
  qed
qed

lemma take_le_bytes: "m \<le> n \<Longrightarrow> take m (le_bytes n v) = le_bytes m v"
  by (rule nth_equalityI) (simp_all add: le_bytes_nth)

lemma drop_be_bytes: "m \<le> n \<Longrightarrow> drop (n - m) (be_bytes n v) = be_bytes m v"
  by (simp add: be_bytes_def drop_rev take_le_bytes)

section \<open>Hash maps\<close>

text \<open>
  What the sources rely on of \<open>std::collections::HashMap\<close>: lookup, insertion (which replaces),
  removal, \<open>retain\<close> and iteration over the entries in an unspecified order. The laws speak of
  the multiset of entries, so nothing proved from them depends on the iteration order.
\<close>

locale hash_map =
  fixes lookup :: "'m \<Rightarrow> 'k \<Rightarrow> 'v option"
    and insert :: "'k \<Rightarrow> 'v \<Rightarrow> 'm \<Rightarrow> 'm"
    and remove :: "'k \<Rightarrow> 'm \<Rightarrow> 'm"
    and retain :: "('k \<Rightarrow> 'v \<Rightarrow> bool) \<Rightarrow> 'm \<Rightarrow> 'm"
    and entries :: "'m \<Rightarrow> ('k \<times> 'v) list"
    and invar :: "'m \<Rightarrow> bool"
  assumes lookup_insert: "lookup (insert k v m) k' = (if k' = k then Some v else lookup m k')"
    and lookup_remove: "lookup (remove k m) k' = (if k' = k then None else lookup m k')"
    and lookup_retain: "invar m \<Longrightarrow> lookup (retain p m) k =
      (case lookup m k of None \<Rightarrow> None | Some v \<Rightarrow> if p k v then Some v else None)"
    and lookup_entries: "invar m \<Longrightarrow> lookup m k = Some v \<longleftrightarrow> (k, v) \<in> set (entries m)"
    and entries_insert: "invar m \<Longrightarrow>
      mset (entries (insert k v m)) = add_mset (k, v) (mset (entries (remove k m)))"
    and entries_remove: "invar m \<Longrightarrow> lookup m k = Some v \<Longrightarrow>
      mset (entries m) = add_mset (k, v) (mset (entries (remove k m)))"
    and entries_remove_absent: "lookup m k = None \<Longrightarrow> entries (remove k m) = entries m"
    and entries_retain: "entries (retain p m) = filter (\<lambda>(k, v). p k v) (entries m)"
    and invar_insert: "invar m \<Longrightarrow> invar (insert k v m)"
    and invar_remove: "invar m \<Longrightarrow> invar (remove k m)"
    and invar_retain: "invar m \<Longrightarrow> invar (retain p m)"
begin

lemma size_insert_fresh:
  "invar m \<Longrightarrow> lookup m k = None \<Longrightarrow> length (entries (insert k v m)) = Suc (length (entries m))"
  by (metis entries_insert entries_remove_absent size_add_mset size_mset)

lemma size_remove:
  "invar m \<Longrightarrow> lookup m k = Some v \<Longrightarrow> length (entries m) = Suc (length (entries (remove k m)))"
  by (metis entries_remove size_add_mset size_mset)

lemma size_replace:
  "invar m \<Longrightarrow> lookup m k = Some v \<Longrightarrow> length (entries (insert k v' m)) = length (entries m)"
  by (metis entries_insert entries_remove size_add_mset size_mset)

lemma size_retain: "length (entries (retain p m)) \<le> length (entries m)"
  by (simp add: entries_retain)

lemma remove_insert_entries:
  "invar m \<Longrightarrow> mset (entries (remove k (insert k v m))) = mset (entries (remove k m))"
proof -
  assume m: "invar m"
  have "mset (entries (insert k v m)) = add_mset (k, v) (mset (entries (remove k (insert k v m))))"
    by (rule entries_remove) (simp_all add: m invar_insert lookup_insert)
  with entries_insert [OF m, of k v] show ?thesis by simp
qed

end

text \<open>A quantity summed over the values of a map, such as the bytes its buffers retain.\<close>

definition entries_weight :: "('v \<Rightarrow> nat) \<Rightarrow> ('k \<times> 'v) list \<Rightarrow> nat" where
  "entries_weight w es = sum_list (map (\<lambda>(k, v). w v) es)"

lemma entries_weight_simps [simp]:
  "entries_weight w [] = 0"
  "entries_weight w ((k, v) # es) = w v + entries_weight w es"
  by (simp_all add: entries_weight_def)

lemma entries_weight_mset: "entries_weight w es = (\<Sum>(k, v) \<in># mset es. w v)"
  by (induction es) auto

lemma entries_weight_filter_le: "entries_weight w (filter p es) \<le> entries_weight w es"
  by (induction es) auto

lemma entries_weight_partition:
  "entries_weight w es = entries_weight w (filter p es) + entries_weight w (filter (\<lambda>e. \<not> p e) es)"
  by (induction es) auto

lemma entries_weight_member: "(k, v) \<in> set es \<Longrightarrow> w v \<le> entries_weight w es"
  by (induction es) auto

locale weighted_map = hash_map lookup insert remove retain entries invar
  for lookup :: "'m \<Rightarrow> 'k \<Rightarrow> 'v option"
    and insert :: "'k \<Rightarrow> 'v \<Rightarrow> 'm \<Rightarrow> 'm"
    and remove :: "'k \<Rightarrow> 'm \<Rightarrow> 'm"
    and retain :: "('k \<Rightarrow> 'v \<Rightarrow> bool) \<Rightarrow> 'm \<Rightarrow> 'm"
    and entries :: "'m \<Rightarrow> ('k \<times> 'v) list"
    and invar :: "'m \<Rightarrow> bool" +
  fixes weight :: "'v \<Rightarrow> nat"
begin

lemma weight_insert_fresh:
  "invar m \<Longrightarrow> lookup m k = None \<Longrightarrow>
   entries_weight weight (entries (insert k v m)) = entries_weight weight (entries m) + weight v"
  by (simp add: entries_weight_mset entries_insert entries_remove_absent)

lemma weight_remove:
  "invar m \<Longrightarrow> lookup m k = Some v \<Longrightarrow>
   entries_weight weight (entries m) = entries_weight weight (entries (remove k m)) + weight v"
  by (simp add: entries_weight_mset entries_remove)

lemma weight_replace:
  "invar m \<Longrightarrow> lookup m k = Some v \<Longrightarrow>
   entries_weight weight (entries (insert k v' m)) + weight v =
   entries_weight weight (entries m) + weight v'"
  by (simp add: entries_weight_mset entries_insert entries_remove)

lemma weight_retain:
  "entries_weight weight (entries (retain p m)) \<le> entries_weight weight (entries m)"
  by (simp add: entries_retain entries_weight_filter_le)

lemma weight_lookup:
  "invar m \<Longrightarrow> lookup m k = Some v \<Longrightarrow> weight v \<le> entries_weight weight (entries m)"
  by (metis lookup_entries entries_weight_member)

end

text \<open>The implementation used by the models: an association list with distinct keys.\<close>

type_synonym ('k, 'v) hm = "('k \<times> 'v) list"

abbreviation hm_lookup :: "('k, 'v) hm \<Rightarrow> 'k \<Rightarrow> 'v option" where
  "hm_lookup \<equiv> map_of"

definition hm_insert :: "'k \<Rightarrow> 'v \<Rightarrow> ('k, 'v) hm \<Rightarrow> ('k, 'v) hm" where
  "hm_insert k v m = AList.update k v m"

definition hm_remove :: "'k \<Rightarrow> ('k, 'v) hm \<Rightarrow> ('k, 'v) hm" where
  "hm_remove k m = AList.delete k m"

definition hm_retain :: "('k \<Rightarrow> 'v \<Rightarrow> bool) \<Rightarrow> ('k, 'v) hm \<Rightarrow> ('k, 'v) hm" where
  "hm_retain p m = filter (\<lambda>(k, v). p k v) m"

definition hm_invar :: "('k, 'v) hm \<Rightarrow> bool" where
  "hm_invar m = distinct (map fst m)"

lemma hm_invar_Nil [simp]: "hm_invar []"
  by (simp add: hm_invar_def)

lemma map_of_filter_distinct:
  "distinct (map fst m) \<Longrightarrow> map_of (filter (\<lambda>(k, v). p k v) m) k =
   (case map_of m k of None \<Rightarrow> None | Some v \<Rightarrow> if p k v then Some v else None)"
proof (induction m)
  case Nil
  show ?case by simp
next
  case (Cons e m)
  obtain a b where e: "e = (a, b)" by (cases e)
  from Cons.prems have "a \<notin> fst ` set m" by (simp add: e)
  then have "map_of m a = None"
    by (simp add: map_of_eq_None_iff)
  with Cons show ?case by (auto simp: e split: option.splits)
qed

lemma mset_update_delete:
  "distinct (map fst m) \<Longrightarrow> mset (AList.update k v m) = add_mset (k, v) (mset (AList.delete k m))"
proof (induction m)
  case Nil
  show ?case by (simp add: AList.delete_eq)
next
  case (Cons e m)
  obtain a b where e: "e = (a, b)" by (cases e)
  show ?case
  proof (cases "a = k")
    case True
    with Cons.prems have "k \<notin> fst ` set m" by (simp add: e)
    then have "AList.delete k m = m"
      by (simp add: delete_idem)
    with True show ?thesis by (simp add: e delete_simps)
  next
    case False
    with Cons show ?thesis by (simp add: e delete_simps)
  qed
qed

lemma mset_delete_lookup:
  "distinct (map fst m) \<Longrightarrow> map_of m k = Some v \<Longrightarrow>
   mset m = add_mset (k, v) (mset (AList.delete k m))"
proof -
  assume d: "distinct (map fst m)" and l: "map_of m k = Some v"
  have "AList.update k v m = m"
    using d l by (induction m) (auto split: if_splits)
  with mset_update_delete [OF d, of k v] show ?thesis by simp
qed

interpretation hm: hash_map hm_lookup hm_insert hm_remove hm_retain "\<lambda>m. m" hm_invar
proof unfold_locales
  fix k :: 'a and v :: 'b and m :: "('a \<times> 'b) list" and k' p
  show "hm_lookup (hm_insert k v m) k' = (if k' = k then Some v else hm_lookup m k')"
    by (simp add: hm_insert_def update_conv')
  show "hm_lookup (hm_remove k m) k' = (if k' = k then None else hm_lookup m k')"
    by (simp add: hm_remove_def delete_conv')
  show "hm_invar m \<Longrightarrow> hm_lookup (hm_retain p m) k =
      (case hm_lookup m k of None \<Rightarrow> None | Some v \<Rightarrow> if p k v then Some v else None)"
    by (simp add: hm_retain_def hm_invar_def map_of_filter_distinct)
  show "hm_invar m \<Longrightarrow> hm_lookup m k = Some v \<longleftrightarrow> (k, v) \<in> set m"
    by (simp add: hm_invar_def map_of_eq_Some_iff)
  show "hm_invar m \<Longrightarrow> mset (hm_insert k v m) = add_mset (k, v) (mset (hm_remove k m))"
    by (simp add: hm_invar_def hm_insert_def hm_remove_def mset_update_delete)
  show "hm_invar m \<Longrightarrow> hm_lookup m k = Some v \<Longrightarrow> mset m = add_mset (k, v) (mset (hm_remove k m))"
    by (simp add: hm_invar_def hm_remove_def mset_delete_lookup)
  show "hm_lookup m k = None \<Longrightarrow> hm_remove k m = m"
    by (simp add: hm_remove_def delete_idem map_of_eq_None_iff)
  show "hm_retain p m = filter (\<lambda>(k, v). p k v) m"
    by (simp add: hm_retain_def)
  show "hm_invar m \<Longrightarrow> hm_invar (hm_insert k v m)"
    by (simp add: hm_invar_def hm_insert_def distinct_update)
  show "hm_invar m \<Longrightarrow> hm_invar (hm_remove k m)"
    by (simp add: hm_invar_def hm_remove_def distinct_delete)
  show "hm_invar m \<Longrightarrow> hm_invar (hm_retain p m)"
    by (simp add: hm_invar_def hm_retain_def distinct_map_filter)
qed

lemmas hm_invar_intros [intro, simp] = hm.invar_insert hm.invar_remove hm.invar_retain

section \<open>Transition systems\<close>

text \<open>
  A component with internal state is a set of initial states and a labelled step relation. An
  inductive invariant holds in every reachable state; a component theory interprets the locale
  with its own step relation and discharges the two proof obligations once.
\<close>

inductive reachable :: "('s \<Rightarrow> bool) \<Rightarrow> ('s \<Rightarrow> 'e \<Rightarrow> 's \<Rightarrow> bool) \<Rightarrow> 's \<Rightarrow> bool"
  for init step where
  start: "init s \<Longrightarrow> reachable init step s"
| move: "reachable init step s \<Longrightarrow> step s e t \<Longrightarrow> reachable init step t"

locale transition_system =
  fixes init :: "'s \<Rightarrow> bool"
    and step :: "'s \<Rightarrow> 'e \<Rightarrow> 's \<Rightarrow> bool"
    and inv :: "'s \<Rightarrow> bool"
  assumes inv_init: "init s \<Longrightarrow> inv s"
    and inv_step: "inv s \<Longrightarrow> step s e t \<Longrightarrow> inv t"
begin

lemma inv_reachable: "reachable init step s \<Longrightarrow> inv s"
  by (induction rule: reachable.induct) (blast intro: inv_init inv_step)+

lemma reachable_trans:
  assumes "reachable init step s" and "reachable (\<lambda>x. x = s) step t"
  shows "reachable init step t"
  using assms(2,1)
  by (induction rule: reachable.induct) (blast intro: reachable.move)+

end

end
