(* ===== verification/Codec_Error.thy ===== *)
theory Codec_Error
  imports Prelude
begin

text \<open>
  The codec layer's error taxonomy and recovery policies: \<open>src/codec/error.rs\<close> and
  \<open>src/codec/recovery/\<close>. \<open>io::Error\<close> of the standard library is a kind together with a payload,
  either a message or a boxed \<open>CodecError\<close>; the two types refer to each other because
  \<open>CodecError::Io\<close> wraps an \<open>io::Error\<close>.
\<close>

datatype framing_error =
    OversizedFrame (frame_size: usize) (frame_max: usize)
  | InvalidLengthEncoding
  | IncompleteHeader (header_have: usize) (header_need: usize)
  | ChecksumMismatch (checksum_expected: u32) (checksum_actual: u32)
  | EmptyFrame

datatype protocol_error =
    MissingHeader (missing_field: string)
  | UnsupportedVersion (version: u32)
  | UnknownMessageType (type_id: u32)
  | SequenceViolation (seq_expected: u64) (seq_actual: u64)
  | InvalidStateTransition (from_state: string) (to_state: string)

datatype eof_error =
    CleanClose
  | MidFrame (frame_bytes_received: usize) (frame_expected: usize)
  | MidHeader (header_bytes_received: usize) (header_size: usize)

datatype io_error_kind = InvalidInput | InvalidData | UnexpectedEof | OtherKind

datatype io_error = IoError (io_kind: io_error_kind) (io_payload: io_error_payload)
and io_error_payload = IoMessage string | IoCodec codec_error
and codec_error =
    Framing framing_error
  | Protocol protocol_error
  | Io io_error
  | Eof eof_error

datatype recovery_policy = Drop | Quarantine | Disconnect

text \<open>\<open>RecoveryPolicy::as_str\<close> and the \<open>#[default]\<close> variant.\<close>

fun recovery_policy_as_str :: "recovery_policy \<Rightarrow> string" where
  "recovery_policy_as_str Drop = ''drop''"
| "recovery_policy_as_str Quarantine = ''quarantine''"
| "recovery_policy_as_str Disconnect = ''disconnect''"

text \<open>\<open>impl CodecError\<close>.\<close>

fun default_recovery_policy :: "codec_error \<Rightarrow> recovery_policy" where
  "default_recovery_policy (Framing (OversizedFrame _ _)) = Drop"
| "default_recovery_policy (Framing EmptyFrame) = Drop"
| "default_recovery_policy (Protocol _) = Drop"
| "default_recovery_policy (Framing _) = Disconnect"
| "default_recovery_policy (Io _) = Disconnect"
| "default_recovery_policy (Eof _) = Disconnect"

definition is_clean_close :: "codec_error \<Rightarrow> bool" where
  "is_clean_close e = (case e of Eof CleanClose \<Rightarrow> True | _ \<Rightarrow> False)"

definition should_disconnect :: "codec_error \<Rightarrow> bool" where
  "should_disconnect e = (default_recovery_policy e = Disconnect)"

fun error_type :: "codec_error \<Rightarrow> string" where
  "error_type (Framing _) = ''framing''"
| "error_type (Protocol _) = ''protocol''"
| "error_type (Io _) = ''io''"
| "error_type (Eof _) = ''eof''"

fun into_io_error :: "codec_error \<Rightarrow> io_error" where
  "into_io_error (Io e) = e"
| "into_io_error (Framing e) = IoError InvalidData (IoCodec (Framing e))"
| "into_io_error (Protocol e) = IoError InvalidData (IoCodec (Protocol e))"
| "into_io_error (Eof e) = IoError UnexpectedEof (IoCodec (Eof e))"

text \<open>\<open>RecoveryConfig\<close> and its builder methods; durations are in milliseconds.\<close>

record recovery_config =
  max_consecutive_drops :: u32
  quarantine_duration :: duration
  log_dropped_frames :: bool

definition default_recovery_config :: recovery_config where
  "default_recovery_config =
     \<lparr>max_consecutive_drops = 10, quarantine_duration = 30000, log_dropped_frames = True\<rparr>"

definition set_max_consecutive_drops :: "u32 \<Rightarrow> recovery_config \<Rightarrow> recovery_config" where
  "set_max_consecutive_drops n c = c\<lparr>max_consecutive_drops := n\<rparr>"

definition set_quarantine_duration :: "duration \<Rightarrow> recovery_config \<Rightarrow> recovery_config" where
  "set_quarantine_duration d c = c\<lparr>quarantine_duration := d\<rparr>"

definition set_log_dropped_frames :: "bool \<Rightarrow> recovery_config \<Rightarrow> recovery_config" where
  "set_log_dropped_frames enabled c = c\<lparr>log_dropped_frames := enabled\<rparr>"

text \<open>\<open>CodecErrorContext\<close>; a socket address is its octets and port.\<close>

datatype socket_addr = SocketAddr (octets: bytes) (port: u16)

record codec_error_context =
  ctx_connection_id :: "u64 option"
  ctx_peer_address :: "socket_addr option"
  ctx_correlation_id :: "u64 option"
  ctx_codec_state :: "string option"

definition new_codec_error_context :: codec_error_context where
  "new_codec_error_context =
     \<lparr>ctx_connection_id = None, ctx_peer_address = None, ctx_correlation_id = None,
      ctx_codec_state = None\<rparr>"

definition with_connection_id :: "u64 \<Rightarrow> codec_error_context \<Rightarrow> codec_error_context" where
  "with_connection_id i c = c\<lparr>ctx_connection_id := Some i\<rparr>"

definition with_peer_address :: "socket_addr \<Rightarrow> codec_error_context \<Rightarrow> codec_error_context" where
  "with_peer_address a c = c\<lparr>ctx_peer_address := Some a\<rparr>"

definition with_correlation_id :: "u64 \<Rightarrow> codec_error_context \<Rightarrow> codec_error_context" where
  "with_correlation_id i c = c\<lparr>ctx_correlation_id := Some i\<rparr>"

definition with_codec_state :: "string \<Rightarrow> codec_error_context \<Rightarrow> codec_error_context" where
  "with_codec_state s c = c\<lparr>ctx_codec_state := Some s\<rparr>"

text \<open>
  The trait \<open>RecoveryPolicyHook\<close> as a record of its three methods, and \<open>DefaultRecoveryPolicy\<close>,
  which takes every default body. \<open>on_error\<close> returns nothing and its default does nothing.
\<close>

record recovery_policy_hook =
  hook_recovery_policy :: "codec_error \<Rightarrow> codec_error_context \<Rightarrow> recovery_policy"
  hook_quarantine_duration :: "codec_error \<Rightarrow> codec_error_context \<Rightarrow> duration"
  hook_on_error :: "codec_error \<Rightarrow> codec_error_context \<Rightarrow> recovery_policy \<Rightarrow> unit"

definition default_recovery_policy_hook :: recovery_policy_hook where
  "default_recovery_policy_hook =
     \<lparr>hook_recovery_policy = (\<lambda>e _. default_recovery_policy e),
      hook_quarantine_duration = (\<lambda>_ _. 30000),
      hook_on_error = (\<lambda>_ _ _. ())\<rparr>"

lemma should_disconnect_iff:
  "should_disconnect e \<longleftrightarrow>
     (case e of Framing f \<Rightarrow> f \<noteq> EmptyFrame \<and> (\<forall>s m. f \<noteq> OversizedFrame s m)
      | Protocol _ \<Rightarrow> False | Io _ \<Rightarrow> True | Eof _ \<Rightarrow> True)"
  by (cases e rule: default_recovery_policy.cases) (auto simp: should_disconnect_def)

lemma into_io_error_kind:
  "(\<forall>i. e \<noteq> Io i) \<Longrightarrow>
     io_payload (into_io_error e) = IoCodec e \<and>
     io_kind (into_io_error e) = (if error_type e = ''eof'' then UnexpectedEof else InvalidData)"
  by (cases e) auto

text \<open>
  A codec error that crossed the \<open>io::Error\<close> boundary keeps its recovery class in its kind: a
  recoverable error always arrives as \<open>InvalidData\<close>.
\<close>

lemma droppable_is_invalid_data:
  "default_recovery_policy e = Drop \<Longrightarrow> io_kind (into_io_error e) = InvalidData"
  by (cases e rule: default_recovery_policy.cases) auto

end
