(* ===== verification/Byte_Order.thy ===== *)
theory Byte_Order
  imports Prelude
begin

text \<open>
  Network byte order: \<open>src/byte_order.rs\<close>. Each function there delegates to one \<open>Buf\<close> or
  \<open>BufMut\<close> method of the \<open>bytes\<close> crate, which is not part of the repository. The crate is
  the argument \<open>api\<close> of every model that uses it; \<open>bytes_documented\<close> is what its documentation
  promises of the methods used (big-endian unless the name ends in \<open>_le\<close>), and \<open>reference_bytes\<close>
  is one implementation of the promise, so the hypothesis can be met.
\<close>

record bytes_api =
  put_u16 :: "u16 \<Rightarrow> bytes"
  get_u16 :: "bytes \<Rightarrow> u16"
  put_u32 :: "u32 \<Rightarrow> bytes"
  get_u32 :: "bytes \<Rightarrow> u32"
  put_u64 :: "u64 \<Rightarrow> bytes"
  get_u64 :: "bytes \<Rightarrow> u64"
  get_u64_le :: "bytes \<Rightarrow> u64"

definition bytes_documented :: "bytes_api \<Rightarrow> bool" where
  "bytes_documented api \<longleftrightarrow>
     (\<forall>v. put_u16 api v = be_bytes 2 (unat v)) \<and>
     (\<forall>v. put_u32 api v = be_bytes 4 (unat v)) \<and>
     (\<forall>v. put_u64 api v = be_bytes 8 (unat v)) \<and>
     (\<forall>bs. length bs = 2 \<longrightarrow> unat (get_u16 api bs) = be_val bs) \<and>
     (\<forall>bs. length bs = 4 \<longrightarrow> unat (get_u32 api bs) = be_val bs) \<and>
     (\<forall>bs. length bs = 8 \<longrightarrow> unat (get_u64 api bs) = be_val bs) \<and>
     (\<forall>bs. length bs = 8 \<longrightarrow> unat (get_u64_le api bs) = le_val bs)"

lemma bytes_documentedD:
  assumes "bytes_documented api"
  shows "put_u16 api v2 = be_bytes 2 (unat v2)"
    and "put_u32 api v4 = be_bytes 4 (unat v4)"
    and "put_u64 api v8 = be_bytes 8 (unat v8)"
    and "length bs = 2 \<Longrightarrow> unat (get_u16 api bs) = be_val bs"
    and "length bs = 4 \<Longrightarrow> unat (get_u32 api bs) = be_val bs"
    and "length bs = 8 \<Longrightarrow> unat (get_u64 api bs) = be_val bs"
    and "length bs = 8 \<Longrightarrow> unat (get_u64_le api bs) = le_val bs"
  using assms by (simp_all add: bytes_documented_def)

definition write_network_u16 :: "bytes_api \<Rightarrow> u16 \<Rightarrow> bytes" where
  "write_network_u16 api value = put_u16 api value"

definition read_network_u16 :: "bytes_api \<Rightarrow> bytes \<Rightarrow> u16" where
  "read_network_u16 api wire = get_u16 api wire"

definition write_network_u32 :: "bytes_api \<Rightarrow> u32 \<Rightarrow> bytes" where
  "write_network_u32 api value = put_u32 api value"

definition read_network_u32 :: "bytes_api \<Rightarrow> bytes \<Rightarrow> u32" where
  "read_network_u32 api wire = get_u32 api wire"

definition write_network_u64 :: "bytes_api \<Rightarrow> u64 \<Rightarrow> bytes" where
  "write_network_u64 api value = put_u64 api value"

definition read_network_u64 :: "bytes_api \<Rightarrow> bytes \<Rightarrow> u64" where
  "read_network_u64 api wire = get_u64 api wire"

lemmas network_defs =
  write_network_u16_def read_network_u16_def write_network_u32_def read_network_u32_def
  write_network_u64_def read_network_u64_def

text \<open>An implementation of the promise, used only to evaluate the models on concrete inputs.\<close>

definition reference_bytes :: bytes_api where
  "reference_bytes =
     \<lparr>put_u16 = (\<lambda>v. be_bytes 2 (unat v)), get_u16 = (\<lambda>bs. word_of_nat (be_val bs)),
      put_u32 = (\<lambda>v. be_bytes 4 (unat v)), get_u32 = (\<lambda>bs. word_of_nat (be_val bs)),
      put_u64 = (\<lambda>v. be_bytes 8 (unat v)), get_u64 = (\<lambda>bs. word_of_nat (be_val bs)),
      get_u64_le = (\<lambda>bs. word_of_nat (le_val bs))\<rparr>"

lemma reference_bytes_documented: "bytes_documented reference_bytes"
proof -
  have "length bs = n \<Longrightarrow> be_val bs < 256 ^ n" "length bs = n \<Longrightarrow> le_val bs < 256 ^ n" for bs n
    using be_val_bound [of bs] le_val_bound [of bs] by auto
  from this(1) [of _ 2] this(1) [of _ 4] this(1) [of _ 8] this(2) [of _ 8]
  show ?thesis
    by (simp add: bytes_documented_def reference_bytes_def unat_of_nat)
qed

lemma be_val_unat_u16: "be_val (be_bytes 2 (unat (v :: u16))) = unat v"
  by (simp add: be_val_be_bytes unat_bounds)

lemma be_val_unat_u32: "be_val (be_bytes 4 (unat (v :: u32))) = unat v"
  by (simp add: be_val_be_bytes unat_bounds)

lemma be_val_unat_u64: "be_val (be_bytes 8 (unat (v :: u64))) = unat v"
  by (simp add: be_val_be_bytes unat_bounds)

lemma read_write_network_u16:
  "bytes_documented api \<Longrightarrow> read_network_u16 api (write_network_u16 api v) = v"
  by (simp add: network_defs word_unat_eq_iff bytes_documentedD be_val_unat_u16)

lemma read_write_network_u32:
  "bytes_documented api \<Longrightarrow> read_network_u32 api (write_network_u32 api v) = v"
  by (simp add: network_defs word_unat_eq_iff bytes_documentedD be_val_unat_u32)

end
