(* ===== verification/Frame_Prefix.thy ===== *)
theory Frame_Prefix
  imports Codec_Error Byte_Order
begin

text \<open>
  Length prefixes: \<open>src/frame/conversion.rs\<close> and \<open>src/frame/format.rs\<close>. The functions keep the
  fallible shape of the source, including the branches that a caller's checks make unreachable.
  An array \<open>[u8; 8]\<close> is a byte string of length 8; the mutable buffer arguments are passed in
  and returned.
\<close>

datatype endianness = Big | Little

definition err_unsupported_prefix :: io_error where
  "err_unsupported_prefix = IoError InvalidInput (IoMessage ''unsupported length prefix size'')"

definition err_frame_too_large :: io_error where
  "err_frame_too_large = IoError InvalidInput (IoMessage ''frame too large'')"

definition err_incomplete_prefix :: io_error where
  "err_incomplete_prefix = IoError UnexpectedEof (IoMessage ''incomplete length prefix'')"

text \<open>\<open>matches!(sz, 1 | 2 | 4 | 8)\<close>.\<close>

definition supported_size :: "usize \<Rightarrow> bool" where
  "supported_size sz \<longleftrightarrow> sz = 1 \<or> sz = 2 \<or> sz = 4 \<or> sz = 8"

definition u64_from_le_bytes :: "bytes_api \<Rightarrow> bytes \<Rightarrow> u64" where
  "u64_from_le_bytes api bs = get_u64_le api bs"

text \<open>\<open>checked_prefix_cast::<T>\<close>, with \<open>T\<close> given by its width in bits.\<close>

definition checked_prefix_cast :: "nat \<Rightarrow> usize \<Rightarrow> io_error + nat" where
  "checked_prefix_cast bits len = (if len < 2 ^ bits then Inr len else Inl err_frame_too_large)"

definition fill_buf_with_prefix :: "bytes \<Rightarrow> bytes \<Rightarrow> endianness \<Rightarrow> io_error + bytes" where
  "fill_buf_with_prefix buf prefix endianness =
     (let sz = length prefix in
      if \<not> supported_size sz then Inl err_unsupported_prefix
      else case endianness of
        Big \<Rightarrow>
          (let start = 8 - sz; finish = start + sz in
           if 8 < sz \<or> length buf < finish then Inl err_unsupported_prefix
           else Inr (take start buf @ prefix @ drop finish buf))
      | Little \<Rightarrow>
          (if length buf < sz then Inl err_unsupported_prefix
           else Inr (prefix @ drop sz buf)))"

definition bytes_to_u64 :: "bytes_api \<Rightarrow> bytes \<Rightarrow> usize \<Rightarrow> endianness \<Rightarrow> io_error + u64" where
  "bytes_to_u64 api bs sz endianness =
     (if \<not> supported_size sz then Inl err_unsupported_prefix
      else if length bs < sz then Inl err_incomplete_prefix
      else case slice_get bs 0 sz of
        None \<Rightarrow> Inl err_incomplete_prefix
      | Some prefix \<Rightarrow>
          (case fill_buf_with_prefix (replicate 8 0) prefix endianness of
             Inl e \<Rightarrow> Inl e
           | Inr buf \<Rightarrow>
               (case endianness of
                  Big \<Rightarrow> Inr (read_network_u64 api buf)
                | Little \<Rightarrow> Inr (u64_from_le_bytes api buf))))"

definition convert_len_to_value :: "usize \<Rightarrow> usize \<Rightarrow> io_error + u64" where
  "convert_len_to_value len sz =
     (if sz = 1 then map_sum id word_of_nat (checked_prefix_cast 8 len)
      else if sz = 2 then map_sum id word_of_nat (checked_prefix_cast 16 len)
      else if sz = 4 then map_sum id word_of_nat (checked_prefix_cast 32 len)
      else if sz = 8 then map_sum id word_of_nat (checked_prefix_cast 64 len)
      else Inl err_unsupported_prefix)"

definition value_fits_prefix :: "u64 \<Rightarrow> usize \<Rightarrow> bool" where
  "value_fits_prefix value sz =
     (if sz = 1 then unat value < 2 ^ 8
      else if sz = 2 then unat value < 2 ^ 16
      else if sz = 4 then unat value < 2 ^ 32
      else sz = 8)"

definition ensure_fits_prefix :: "u64 \<Rightarrow> usize \<Rightarrow> io_error + unit" where
  "ensure_fits_prefix value sz =
     (if \<not> supported_size sz then Inl err_unsupported_prefix
      else if value_fits_prefix value sz then Inr ()
      else Inl err_frame_too_large)"

definition write_big_endian_prefix :: "bytes_api \<Rightarrow> u64 \<Rightarrow> usize \<Rightarrow> bytes \<Rightarrow> io_error + bytes" where
  "write_big_endian_prefix api value sz prefix =
     (case ensure_fits_prefix value sz of
        Inl e \<Rightarrow> Inl e
      | Inr _ \<Rightarrow>
          (let encoded = write_network_u64 api value in
           if 8 < sz then Inl err_unsupported_prefix
           else case slice_get encoded (8 - sz) (length encoded) of
             None \<Rightarrow> Inl err_unsupported_prefix
           | Some trailing \<Rightarrow> Inr trailing))"

definition write_little_endian_prefix :: "u64 \<Rightarrow> bytes \<Rightarrow> bytes" where
  "write_little_endian_prefix value prefix =
     map (\<lambda>i. ucast (drop_bit (8 * i) value AND 0xff)) [0 ..< length prefix]"

definition write_bytes_with_endianness ::
    "bytes_api \<Rightarrow> u64 \<Rightarrow> endianness \<Rightarrow> bytes \<Rightarrow> io_error + bytes" where
  "write_bytes_with_endianness api value endianness prefix =
     (case endianness of
        Big \<Rightarrow> write_big_endian_prefix api value (length prefix) prefix
      | Little \<Rightarrow> Inr (write_little_endian_prefix value prefix))"

text \<open>The number of prefix bytes and the new contents of \<open>out\<close>, whose tail is zeroed.\<close>

definition u64_to_bytes ::
    "bytes_api \<Rightarrow> usize \<Rightarrow> usize \<Rightarrow> endianness \<Rightarrow> bytes \<Rightarrow> io_error + usize \<times> bytes" where
  "u64_to_bytes api len sz endianness out =
     (if \<not> supported_size sz then Inl err_unsupported_prefix
      else case convert_len_to_value len sz of
        Inl e \<Rightarrow> Inl e
      | Inr value \<Rightarrow>
          (case slice_get out 0 sz of
             None \<Rightarrow> Inl err_unsupported_prefix
           | Some prefix \<Rightarrow>
               (case write_bytes_with_endianness api value endianness prefix of
                  Inl e \<Rightarrow> Inl e
                | Inr prefix' \<Rightarrow> Inr (sz, prefix' @ replicate (length out - sz) 0))))"

subsection \<open>LengthFormat\<close>

record length_format =
  fmt_bytes :: usize
  fmt_endianness :: endianness

text \<open>\<open>LengthFormat::new\<close> panics outside \<open>1..=8\<close>: \<open>None\<close>.\<close>

definition length_format_new :: "usize \<Rightarrow> endianness \<Rightarrow> length_format option" where
  "length_format_new n e =
     (if 1 \<le> n \<and> n \<le> 8 then Some \<lparr>fmt_bytes = n, fmt_endianness = e\<rparr> else None)"

definition length_format_try_new :: "usize \<Rightarrow> endianness \<Rightarrow> io_error + length_format" where
  "length_format_try_new n e =
     (if \<not> (1 \<le> n \<and> n \<le> 8)
      then Inl (IoError InvalidInput (IoMessage ''invalid length-prefix width''))
      else Inr \<lparr>fmt_bytes = n, fmt_endianness = e\<rparr>)"

definition u16_be :: length_format where "u16_be = \<lparr>fmt_bytes = 2, fmt_endianness = Big\<rparr>"
definition u16_le :: length_format where "u16_le = \<lparr>fmt_bytes = 2, fmt_endianness = Little\<rparr>"
definition u32_be :: length_format where "u32_be = \<lparr>fmt_bytes = 4, fmt_endianness = Big\<rparr>"
definition u32_le :: length_format where "u32_le = \<lparr>fmt_bytes = 4, fmt_endianness = Little\<rparr>"

definition length_format_default :: length_format where
  "length_format_default = u32_be"

text \<open>\<open>usize::try_from(u64)\<close> on a 64-bit target never fails, but the branch is kept.\<close>

definition read_len :: "bytes_api \<Rightarrow> length_format \<Rightarrow> bytes \<Rightarrow> io_error + usize" where
  "read_len api fmt bs =
     (case bytes_to_u64 api bs (fmt_bytes fmt) (fmt_endianness fmt) of
        Inl e \<Rightarrow> Inl e
      | Inr len \<Rightarrow> if unat len \<le> usize_max then Inr (unat len) else Inl err_frame_too_large)"

definition write_len :: "bytes_api \<Rightarrow> length_format \<Rightarrow> usize \<Rightarrow> bytes \<Rightarrow> io_error + bytes" where
  "write_len api fmt len dst =
     (case u64_to_bytes api len (fmt_bytes fmt) (fmt_endianness fmt) (replicate 8 0) of
        Inl e \<Rightarrow> Inl e
      | Inr (written, buf) \<Rightarrow>
          (case slice_get buf 0 written of
             None \<Rightarrow> Inl (IoError InvalidInput (IoMessage ''internal: prefix slice exceeds buffer''))
           | Some prefix \<Rightarrow> Inr (dst @ prefix)))"

section \<open>Prefix bytes\<close>

lemma supported_sizeE:
  assumes "supported_size n" "n = 1 \<Longrightarrow> P" "n = 2 \<Longrightarrow> P" "n = 4 \<Longrightarrow> P" "n = 8 \<Longrightarrow> P"
  shows P
  using assms by (auto simp: supported_size_def)

lemma supported_size_le8: "supported_size n \<Longrightarrow> n \<le> 8 \<and> 1 \<le> n"
  by (auto simp: supported_size_def)

text \<open>What a length of that width looks like on the wire.\<close>

definition prefix_bytes :: "endianness \<Rightarrow> usize \<Rightarrow> nat \<Rightarrow> bytes" where
  "prefix_bytes e sz v = (case e of Big \<Rightarrow> be_bytes sz v | Little \<Rightarrow> le_bytes sz v)"

lemma length_prefix_bytes [simp]: "length (prefix_bytes e sz v) = sz"
  by (cases e) (simp_all add: prefix_bytes_def)

lemma write_little_endian_prefix_eq:
  assumes "length prefix \<le> 8"
  shows "write_little_endian_prefix value prefix = le_bytes (length prefix) (unat value)"
proof (rule nth_equalityI)
  show "length (write_little_endian_prefix value prefix) = length (le_bytes (length prefix) (unat value))"
    by (simp add: write_little_endian_prefix_def)
next
  fix i assume "i < length (write_little_endian_prefix value prefix)"
  then have i: "i < length prefix" by (simp add: write_little_endian_prefix_def)
  have "ucast (drop_bit (8 * i) value AND 0xff) = (word_of_nat (unat value div 256 ^ i) :: u8)"
    by (simp add: word_unat_eq_iff unat_low_byte_u64 unat_shift_bytes unat_of_nat)
  then show "write_little_endian_prefix value prefix ! i = le_bytes (length prefix) (unat value) ! i"
    using i by (simp add: write_little_endian_prefix_def le_bytes_nth)
qed

lemma checked_prefix_cast_bytes:
  "checked_prefix_cast (8 * n) len = (if len < 256 ^ n then Inr len else Inl err_frame_too_large)"
  by (simp add: checked_prefix_cast_def power_mult)

lemma convert_len_to_value_eq:
  assumes "supported_size n"
  shows "convert_len_to_value len n =
    (if len < 256 ^ n then Inr (word_of_nat len) else Inl err_frame_too_large)"
  using assms checked_prefix_cast_bytes [of 1 len] checked_prefix_cast_bytes [of 2 len]
    checked_prefix_cast_bytes [of 4 len] checked_prefix_cast_bytes [of 8 len]
  by (auto simp: convert_len_to_value_def elim!: supported_sizeE)

lemma unat_len_value:
  assumes "supported_size n" "len < 256 ^ n"
  shows "unat (word_of_nat len :: u64) = len"
proof -
  have "(256 :: nat) ^ n \<le> 256 ^ 8"
    using supported_size_le8 [OF assms(1)] by (intro power_increasing) auto
  with assms(2) have "len < 2 ^ 64" by simp
  then show ?thesis by (simp add: unat_of_nat)
qed

lemma value_fits_prefix_iff:
  "supported_size n \<Longrightarrow> value_fits_prefix value n \<longleftrightarrow> unat value < 256 ^ n"
  using unat_bounds(4) [of "value"]
  by (elim supported_sizeE) (simp_all add: value_fits_prefix_def)

lemma write_bytes_with_endianness_eq:
  assumes api: "bytes_documented api" and n: "supported_size (length prefix)"
    and fits: "unat value < 256 ^ length prefix"
  shows "write_bytes_with_endianness api value e prefix =
    Inr (prefix_bytes e (length prefix) (unat value))"
proof (cases e)
  case Little
  with supported_size_le8 [OF n] show ?thesis
    by (simp add: write_bytes_with_endianness_def prefix_bytes_def write_little_endian_prefix_eq)
next
  case Big
  have "drop (8 - length prefix) (be_bytes 8 (unat value)) = be_bytes (length prefix) (unat value)"
    using supported_size_le8 [OF n] by (intro drop_be_bytes) simp
  with Big n fits supported_size_le8 [OF n] show ?thesis
    by (simp add: write_bytes_with_endianness_def write_big_endian_prefix_def ensure_fits_prefix_def
        value_fits_prefix_iff network_defs bytes_documentedD [OF api] slice_get_def prefix_bytes_def)
qed

text \<open>The whole behaviour of \<open>write_len\<close>, errors included.\<close>

lemma write_len_eq:
  assumes "bytes_documented api"
  shows "write_len api fmt len dst =
    (if \<not> supported_size (fmt_bytes fmt) then Inl err_unsupported_prefix
     else if len < 256 ^ fmt_bytes fmt
       then Inr (dst @ prefix_bytes (fmt_endianness fmt) (fmt_bytes fmt) len)
       else Inl err_frame_too_large)"
proof (cases "supported_size (fmt_bytes fmt) \<and> len < 256 ^ fmt_bytes fmt")
  case True
  then have n: "supported_size (fmt_bytes fmt)" and len: "len < 256 ^ fmt_bytes fmt" by auto
  let ?n = "fmt_bytes fmt"
  have s: "slice_get (replicate 8 0) 0 ?n = Some (replicate ?n (0 :: u8))"
    using supported_size_le8 [OF n] by (simp add: slice_get_def min_def)
  have w: "write_bytes_with_endianness api (word_of_nat len) (fmt_endianness fmt) (replicate ?n 0) =
      Inr (prefix_bytes (fmt_endianness fmt) ?n len)"
    using write_bytes_with_endianness_eq [OF assms, of "replicate ?n 0" "word_of_nat len"] n len
    by (simp add: unat_len_value)
  show ?thesis
    using n len supported_size_le8 [OF n]
    by (simp add: write_len_def u64_to_bytes_def convert_len_to_value_eq s w slice_get_def)
next
  case False
  then show ?thesis
    by (auto simp: write_len_def u64_to_bytes_def convert_len_to_value_eq)
qed

lemma fill_buf_with_prefix_eq:
  assumes "supported_size (length prefix)"
  shows "fill_buf_with_prefix (replicate 8 0) prefix e =
    Inr (case e of Big \<Rightarrow> replicate (8 - length prefix) 0 @ prefix
         | Little \<Rightarrow> prefix @ replicate (8 - length prefix) 0)"
  using supported_size_le8 [OF assms] assms
  by (cases e) (simp_all add: fill_buf_with_prefix_def Let_def min_def)

text \<open>The value that \<open>read_len\<close> assigns to a prefix.\<close>

definition prefix_val :: "endianness \<Rightarrow> bytes \<Rightarrow> nat" where
  "prefix_val e bs = (case e of Big \<Rightarrow> be_val bs | Little \<Rightarrow> le_val bs)"

lemma prefix_val_prefix_bytes: "v < 256 ^ n \<Longrightarrow> prefix_val e (prefix_bytes e n v) = v"
  by (cases e) (simp_all add: prefix_val_def prefix_bytes_def byte_simps)

lemma bytes_to_u64_eq:
  assumes api: "bytes_documented api" and n: "supported_size n" and len: "n \<le> length bs"
  shows "\<exists>v. bytes_to_u64 api bs n e = Inr v \<and> unat v = prefix_val e (take n bs)"
proof -
  have l: "length (take n bs) = n" and s: "slice_get bs 0 n = Some (take n bs)"
    using len by (simp_all add: slice_get_def)
  have f: "fill_buf_with_prefix (replicate 8 0) (take n bs) e =
    Inr (case e of Big \<Rightarrow> replicate (8 - n) 0 @ take n bs | Little \<Rightarrow> take n bs @ replicate (8 - n) 0)"
    using fill_buf_with_prefix_eq [of "take n bs" e] n by (simp only: l)
  have n8: "n \<le> 8" using supported_size_le8 [OF n] by simp
  show ?thesis
  proof (cases e)
    case Big
    with n len s f l n8 show ?thesis
      by (simp add: bytes_to_u64_def prefix_val_def network_defs bytes_documentedD [OF api]
          be_val_zero_append)
  next
    case Little
    with n len s f l n8 show ?thesis
      by (simp add: bytes_to_u64_def prefix_val_def u64_from_le_bytes_def bytes_documentedD [OF api]
          le_val_append_zero)
  qed
qed

lemma read_len_eq:
  assumes "bytes_documented api"
  shows "read_len api fmt bs =
    (if \<not> supported_size (fmt_bytes fmt) then Inl err_unsupported_prefix
     else if length bs < fmt_bytes fmt then Inl err_incomplete_prefix
     else Inr (prefix_val (fmt_endianness fmt) (take (fmt_bytes fmt) bs)))"
proof (cases "supported_size (fmt_bytes fmt) \<and> fmt_bytes fmt \<le> length bs")
  case True
  then obtain v where v: "bytes_to_u64 api bs (fmt_bytes fmt) (fmt_endianness fmt) = Inr v"
    "unat v = prefix_val (fmt_endianness fmt) (take (fmt_bytes fmt) bs)"
    using bytes_to_u64_eq [OF assms] by blast
  have "unat v \<le> usize_max"
    using unat_bounds(4) [of v] by (simp add: usize_max_def)
  with v True show ?thesis by (auto simp: read_len_def)
next
  case False
  then show ?thesis by (auto simp: read_len_def bytes_to_u64_def)
qed

section \<open>Properties\<close>

text \<open>
  A length written by \<open>write_len\<close> appends exactly the format's number of bytes to the
  destination, and \<open>read_len\<close> reads the same length back from them whatever bytes follow, for
  both byte orders and every supported prefix width.
\<close>

lemma write_read_len_roundtrip:
  assumes "bytes_documented api" and "write_len api fmt len dst = Inr out"
  shows "\<exists>p. out = dst @ p \<and> length p = fmt_bytes fmt \<and>
    (\<forall>rest. read_len api fmt (p @ rest) = Inr len)"
  using assms(2)
  by (auto simp: write_len_eq [OF assms(1)] read_len_eq [OF assms(1)] prefix_val_prefix_bytes
      split: if_splits)

text \<open>
  The constructor \<open>try_new\<close> accepts every width from one to eight bytes, but the format it
  returns can be used only when the width is 1, 2, 4 or 8: for the other widths reading and
  writing always report an unsupported prefix size, for the supported ones never, and writing
  then fails only on a length the width cannot represent.
\<close>

lemma length_format_usable_iff:
  assumes "bytes_documented api" and "length_format_try_new n e = Inr fmt"
  shows "(read_len api fmt bs = Inl err_unsupported_prefix \<longleftrightarrow> n \<in> {3, 5, 6, 7}) \<and>
    (write_len api fmt len dst = Inl err_unsupported_prefix \<longleftrightarrow> n \<in> {3, 5, 6, 7}) \<and>
    (write_len api fmt len dst = Inl err_frame_too_large \<longleftrightarrow> n \<in> {1, 2, 4, 8} \<and> 256 ^ n \<le> len)"
proof -
  from assms(2) have n: "1 \<le> n" "n \<le> 8" and fmt: "fmt = \<lparr>fmt_bytes = n, fmt_endianness = e\<rparr>"
    by (auto simp: length_format_try_new_def split: if_splits)
  have "n \<in> {1, 2, 3, 4, 5, 6, 7, 8}" using n by auto
  then have sup: "supported_size n \<longleftrightarrow> n \<notin> {3, 5, 6, 7}"
    by (auto simp: supported_size_def)
  have "err_unsupported_prefix \<noteq> err_frame_too_large" "err_unsupported_prefix \<noteq> err_incomplete_prefix"
    by (simp_all add: err_unsupported_prefix_def err_frame_too_large_def err_incomplete_prefix_def)
  with sup \<open>n \<in> {1, 2, 3, 4, 5, 6, 7, 8}\<close> show ?thesis
    by (auto simp: fmt read_len_eq [OF assms(1)] write_len_eq [OF assms(1)])
qed

end
