(* ===== verification/Codec.thy ===== *)
theory Codec
  imports Frame_Prefix
begin

text \<open>
  The default frame codec: \<open>src/codec/mod.rs\<close>. It wraps \<open>LengthDelimitedCodec\<close> of
  \<open>tokio_util\<close>, which is not part of the repository and therefore the argument \<open>lib\<close>: its
  constructor and its \<open>decode\<close>, \<open>decode_eof\<close> and \<open>encode\<close> methods over an internal state of any
  type. A decoder call takes the codec state and the receive buffer and gives the new state, the
  new buffer and the result.
\<close>

definition MIN_FRAME_LENGTH :: usize where "MIN_FRAME_LENGTH = 64"
definition MAX_FRAME_LENGTH :: usize where "MAX_FRAME_LENGTH = 16 * 1024 * 1024"
definition LENGTH_HEADER_SIZE :: usize where "LENGTH_HEADER_SIZE = 4"

text \<open>\<open>value.clamp(MIN_FRAME_LENGTH, MAX_FRAME_LENGTH)\<close>.\<close>

definition clamp_frame_length :: "usize \<Rightarrow> usize" where
  "clamp_frame_length value =
     (if value < MIN_FRAME_LENGTH then MIN_FRAME_LENGTH
      else if MAX_FRAME_LENGTH < value then MAX_FRAME_LENGTH
      else value)"

type_synonym 's decode_result = "'s \<times> bytes \<times> (io_error + bytes option)"

record 's length_delimited_lib =
  lib_new_codec :: "usize \<Rightarrow> 's"
  lib_decode :: "'s \<Rightarrow> bytes \<Rightarrow> 's decode_result"
  lib_decode_eof :: "'s \<Rightarrow> bytes \<Rightarrow> 's decode_result"
  lib_encode :: "'s \<Rightarrow> bytes \<Rightarrow> bytes \<Rightarrow> 's \<times> (io_error + bytes)"

record length_delimited_frame_codec =
  codec_max_frame_length :: usize

record 's length_delimited_decoder =
  dec_inner :: 's

record 's length_delimited_encoder =
  enc_inner :: 's
  enc_max_frame_length :: usize

definition length_delimited_new :: "usize \<Rightarrow> length_delimited_frame_codec" where
  "length_delimited_new n = \<lparr>codec_max_frame_length = clamp_frame_length n\<rparr>"

definition length_delimited_default :: length_delimited_frame_codec where
  "length_delimited_default = \<lparr>codec_max_frame_length = 1024\<rparr>"

definition new_inner_codec :: "'s length_delimited_lib \<Rightarrow> length_delimited_frame_codec \<Rightarrow> 's" where
  "new_inner_codec lib c = lib_new_codec lib (codec_max_frame_length c)"

text \<open>\<open>EofContext::from_buffer\<close> and \<open>build_eof_error\<close>.\<close>

record eof_context =
  eof_bytes_received :: usize
  eof_expected :: "usize option"

definition eof_context_from_buffer :: "bytes_api \<Rightarrow> bytes \<Rightarrow> eof_context" where
  "eof_context_from_buffer api src =
     \<lparr>eof_bytes_received = length src,
      eof_expected =
        (case slice_get src 0 LENGTH_HEADER_SIZE of
           None \<Rightarrow> None
         | Some hdr \<Rightarrow> Some (unat (read_network_u32 api hdr)))\<rparr>"

definition build_eof_error :: "eof_context \<Rightarrow> io_error" where
  "build_eof_error ctx =
     (case eof_expected ctx of
        None \<Rightarrow> into_io_error (Eof (MidHeader (eof_bytes_received ctx) LENGTH_HEADER_SIZE))
      | Some expected \<Rightarrow>
          into_io_error (Eof (MidFrame
            (saturating_sub_usize (eof_bytes_received ctx) LENGTH_HEADER_SIZE) expected)))"

text \<open>\<open>impl Decoder for LengthDelimitedDecoder\<close>.\<close>

definition length_delimited_decode ::
    "'s length_delimited_lib \<Rightarrow> 's length_delimited_decoder \<Rightarrow> bytes \<Rightarrow>
     's length_delimited_decoder \<times> bytes \<times> (io_error + bytes option)" where
  "length_delimited_decode lib d src =
     (let (s, src', r) = lib_decode lib (dec_inner d) src
      in (d\<lparr>dec_inner := s\<rparr>, src', r))"

definition length_delimited_decode_eof ::
    "bytes_api \<Rightarrow> 's length_delimited_lib \<Rightarrow> 's length_delimited_decoder \<Rightarrow> bytes \<Rightarrow>
     's length_delimited_decoder \<times> bytes \<times> (io_error + bytes option)" where
  "length_delimited_decode_eof api lib d src =
     (if src = [] then (d, src, Inr None)
      else
        let eof_context = eof_context_from_buffer api src;
            (s, src', r) = lib_decode_eof lib (dec_inner d) src
        in (d\<lparr>dec_inner := s\<rparr>, src',
            case r of
              Inr (Some frame) \<Rightarrow> Inr (Some frame)
            | Inr None \<Rightarrow> Inl (build_eof_error eof_context)
            | Inl e \<Rightarrow> if io_kind e = InvalidData then Inl e
                        else Inl (build_eof_error eof_context)))"

text \<open>\<open>impl Encoder<Bytes> for LengthDelimitedEncoder\<close>: \<open>dst\<close> is the buffer appended to.\<close>

definition length_delimited_encode ::
    "'s length_delimited_lib \<Rightarrow> 's length_delimited_encoder \<Rightarrow> bytes \<Rightarrow> bytes \<Rightarrow>
     's length_delimited_encoder \<times> (io_error + bytes)" where
  "length_delimited_encode lib e item dst =
     (if enc_max_frame_length e < length item
      then (e, Inl (into_io_error (Framing (OversizedFrame (length item) (enc_max_frame_length e)))))
      else
        let (s, r) = lib_encode lib (enc_inner e) item dst
        in (e\<lparr>enc_inner := s\<rparr>, r))"

text \<open>\<open>impl FrameCodec for LengthDelimitedFrameCodec\<close>: frames are payloads.\<close>

definition length_delimited_decoder_of ::
    "'s length_delimited_lib \<Rightarrow> length_delimited_frame_codec \<Rightarrow> 's length_delimited_decoder" where
  "length_delimited_decoder_of lib c = \<lparr>dec_inner = new_inner_codec lib c\<rparr>"

definition length_delimited_encoder_of ::
    "'s length_delimited_lib \<Rightarrow> length_delimited_frame_codec \<Rightarrow> 's length_delimited_encoder" where
  "length_delimited_encoder_of lib c =
     \<lparr>enc_inner = new_inner_codec lib c, enc_max_frame_length = codec_max_frame_length c\<rparr>"

definition length_delimited_frame_payload :: "bytes \<Rightarrow> bytes" where
  "length_delimited_frame_payload frame = frame"

definition length_delimited_wrap_payload :: "bytes \<Rightarrow> bytes" where
  "length_delimited_wrap_payload payload = payload"

section \<open>Properties\<close>

lemma clamp_frame_length_range:
  "MIN_FRAME_LENGTH \<le> clamp_frame_length n \<and> clamp_frame_length n \<le> MAX_FRAME_LENGTH"
  by (auto simp: clamp_frame_length_def MIN_FRAME_LENGTH_def MAX_FRAME_LENGTH_def)

lemma build_eof_error_kind: "io_kind (build_eof_error ctx) = UnexpectedEof"
  by (simp add: build_eof_error_def split: option.split)

lemma eof_expected_none: "eof_expected (eof_context_from_buffer api src) = None \<longleftrightarrow> length src < 4"
  by (auto simp: eof_context_from_buffer_def slice_get_def LENGTH_HEADER_SIZE_def)



text \<open>
  Whatever maximum the application asks for, the codec's limit lies between 64 bytes and
  16 MiB, the encoder built from it refuses longer frames with an oversized-frame error before
  touching the wrapped codec, and the length of every frame it hands on fits the four-byte header.
\<close>

lemma encoder_length_bounds:
  fixes lib :: "'s length_delimited_lib"
  defines "enc n \<equiv> length_delimited_encoder_of lib (length_delimited_new n)"
  shows "64 \<le> enc_max_frame_length (enc n) \<and> enc_max_frame_length (enc n) \<le> 16777216 \<and>
    (if length item \<le> enc_max_frame_length (enc n)
     then length_delimited_encode lib (enc n) item dst =
            (let (s, r) = lib_encode lib (enc_inner (enc n)) item dst
             in ((enc n)\<lparr>enc_inner := s\<rparr>, r)) \<and> length item < 2 ^ 32
     else length_delimited_encode lib (enc n) item dst =
            (enc n, Inl (IoError InvalidData (IoCodec (Framing
               (OversizedFrame (length item) (enc_max_frame_length (enc n))))))))"
  using clamp_frame_length_range [of n]
  by (auto simp: enc_def length_delimited_encoder_of_def length_delimited_new_def
      length_delimited_encode_def MIN_FRAME_LENGTH_def MAX_FRAME_LENGTH_def)

end
