(* ===== verification/Frame_Codec.thy ===== *)
theory Frame_Codec
  imports Codec_Error "HOL-Library.Sublist"
begin

text \<open>
  The contract of a framing codec (trait \<open>FrameCodec\<close> of \<open>src/codec/mod.rs\<close>, whose associated
  \<open>Decoder\<close> and \<open>Encoder\<close> a codec provides) as a locale, and what follows from it for a stream:
  the frames obtained do not depend on how the bytes were cut into reads. \<open>drain\<close> and \<open>feed\<close>
  specify the reader's use of a decoder: call it until it asks for more bytes, then append the
  next read to what is left. \<open>encode_all\<close> is the writer's.
\<close>

type_synonym 'f decoder = "bytes \<Rightarrow> bytes \<times> (io_error + 'f option)"
type_synonym 'f encoder = "'f \<Rightarrow> bytes \<Rightarrow> io_error + bytes"

primrec drain :: "nat \<Rightarrow> 'f decoder \<Rightarrow> bytes \<Rightarrow> 'f list \<times> bytes \<times> io_error option" where
  "drain 0 decode buf = ([], buf, None)"
| "drain (Suc n) decode buf =
     (case decode buf of
        (rest, Inr None) \<Rightarrow> ([], rest, None)
      | (rest, Inl e) \<Rightarrow> ([], rest, Some e)
      | (rest, Inr (Some f)) \<Rightarrow> (let (fs, r) = drain n decode rest in (f # fs, r)))"

text \<open>A call that yields a frame removes at least one byte, so \<open>Suc (length buf)\<close> calls suffice.\<close>

fun feed :: "'f decoder \<Rightarrow> bytes \<Rightarrow> bytes list \<Rightarrow> 'f list \<times> bytes \<times> io_error option" where
  "feed decode buf [] = ([], buf, None)"
| "feed decode buf (c # cs) =
     (case drain (Suc (length (buf @ c))) decode (buf @ c) of
        (fs, rest, Some e) \<Rightarrow> (fs, rest, Some e)
      | (fs, rest, None) \<Rightarrow> (let (gs, r) = feed decode rest cs in (fs @ gs, r)))"

fun encode_all :: "'f encoder \<Rightarrow> 'f list \<Rightarrow> bytes \<Rightarrow> io_error + bytes" where
  "encode_all encode [] dst = Inr dst"
| "encode_all encode (f # fs) dst =
     (case encode f dst of Inl e \<Rightarrow> Inl e | Inr dst' \<Rightarrow> encode_all encode fs dst')"

text \<open>A prefix of a concatenation is some whole blocks and an incomplete one.\<close>

lemma prefix_concat_split:
  assumes "prefix p (concat ws)" and "\<forall>w\<in>set ws. w \<noteq> []"
  obtains n q where "p = concat (take n ws) @ q" "n \<le> length ws"
    "q = [] \<or> n < length ws \<and> strict_prefix q (ws ! n)"
  using assms
proof (induction ws arbitrary: p thesis)
  case Nil
  then show ?case by simp
next
  case (Cons w ws)
  show ?case
  proof (cases "length w \<le> length p")
    case True
    with Cons.prems(2) obtain p' where p: "p = w @ p'" "prefix p' (concat ws)"
      by (metis append_eq_append_conv2 append_prefixD concat.simps(2) prefix_length_prefix
          prefix_def same_prefix_prefix)
    then obtain n q where "p' = concat (take n ws) @ q" "n \<le> length ws"
      "q = [] \<or> n < length ws \<and> strict_prefix q (ws ! n)"
      using Cons.IH Cons.prems(3) by (metis list.set_intros(2))
    with p(1) show ?thesis by (intro Cons.prems(1) [of "Suc n" q]) auto
  next
    case False
    then have "strict_prefix p w"
      using Cons.prems(2) by (metis concat.simps(2) nat_le_linear order_refl prefixI
          prefix_length_prefix strict_prefixI)
    then show ?thesis by (intro Cons.prems(1) [of 0 p]) auto
  qed
qed

text \<open>
  \<open>fits\<close> says which buffers can exist, for codecs that depend on a bound on their length. A codec
  whose encoder is more permissive than its decoder satisfies \<open>stream_codec\<close> with the frames that
  both handle; \<open>frame_codec\<close> adds that the encoder refuses all others.
\<close>

locale stream_codec =
  fixes decode :: "'f decoder"
    and encode :: "'f encoder"
    and wire :: "'f \<Rightarrow> bytes"
    and accepts :: "'f \<Rightarrow> bool"
    and fits :: "bytes \<Rightarrow> bool"
  assumes encode_accepts: "accepts f \<Longrightarrow> encode f dst = Inr (dst @ wire f)"
    and wire_nonempty: "wire f \<noteq> []"
    and fits_append: "fits (xs @ ys) \<Longrightarrow> fits xs \<and> fits ys"
    and decode_wire: "accepts f \<Longrightarrow> fits (wire f @ rest) \<Longrightarrow> decode (wire f @ rest) = (rest, Inr (Some f))"
    and decode_partial: "accepts f \<Longrightarrow> strict_prefix p (wire f) \<Longrightarrow> fits p \<Longrightarrow> decode p = (p, Inr None)"
    and decode_empty: "decode [] = ([], Inr None)"
begin

lemma encode_all_wire:
  "list_all accepts fs \<Longrightarrow> encode_all encode fs dst = Inr (dst @ concat (map wire fs))"
  by (induction fs arbitrary: dst) (simp_all add: encode_accepts)

lemma drain_frames:
  assumes "list_all accepts fs" and "q = [] \<or> (\<exists>g. accepts g \<and> strict_prefix q (wire g))"
    and "length fs < n" and "fits (concat (map wire fs) @ q)"
  shows "drain n decode (concat (map wire fs) @ q) = (fs, q, None)"
  using assms
proof (induction fs arbitrary: n)
  case Nil
  then obtain m where "n = Suc m" by (cases n) auto
  moreover have "decode q = (q, Inr None)"
    using Nil.prems(2,4) decode_empty decode_partial by auto
  ultimately show ?case by simp
next
  case (Cons f fs)
  then obtain m where "n = Suc m" by (cases n) auto
  moreover have "fits (concat (map wire fs) @ q)"
    using Cons.prems(4) fits_append [of "wire f" "concat (map wire fs) @ q"] by simp
  ultimately show ?case using Cons by (simp add: decode_wire)
qed

lemma length_le_wire: "length fs \<le> length (concat (map wire fs))"
proof (induction fs)
  case (Cons f fs)
  have "0 < length (wire f)" using wire_nonempty by simp
  with Cons show ?case by (simp del: length_greater_0_conv)
qed simp

lemma feed_frames_from:
  assumes "list_all accepts fs" and "buf @ concat chunks = concat (map wire fs)"
    and "buf = [] \<or> fs \<noteq> [] \<and> strict_prefix buf (wire (hd fs))" and "fits (buf @ concat chunks)"
  shows "feed decode buf chunks = (fs, [], None)"
  using assms
proof (induction chunks arbitrary: buf fs)
  case Nil
  then have "fs = []"
    by (cases fs) (auto simp: wire_nonempty strict_prefix_def prefix_def)
  with Nil show ?case by simp
next
  case (Cons c cs)
  have "prefix (buf @ c) (concat (map wire fs))"
    using Cons.prems(2) by (metis append.assoc concat.simps(2) prefixI)
  then obtain n q where split: "buf @ c = concat (take n (map wire fs)) @ q" "n \<le> length fs"
    and q: "q = [] \<or> n < length fs \<and> strict_prefix q (wire (fs ! n))"
    using wire_nonempty by (elim prefix_concat_split) auto
  have acc: "list_all accepts (take n fs)" "list_all accepts (drop n fs)"
    using Cons.prems(1) by (metis append_take_drop_id list_all_append)+
  have fits: "fits (buf @ c)" using Cons.prems(4) fits_append [of "buf @ c" "concat cs"] by simp
  have whole: "buf @ concat (c # cs) = concat (map wire (take n fs)) @ q @ concat cs"
    using split(1) by (simp add: take_map)
  have "drain (Suc (length (buf @ c))) decode (concat (map wire (take n fs)) @ q) = (take n fs, q, None)"
  proof (rule drain_frames)
    show "length (take n fs) < Suc (length (buf @ c))"
      using split(1) length_le_wire [of "take n fs"] by (simp add: take_map)
    show "q = [] \<or> (\<exists>g. accepts g \<and> strict_prefix q (wire g))"
      using q Cons.prems(1) by (auto simp: list_all_length)
    show "fits (concat (map wire (take n fs)) @ q)" using fits split(1) by (simp add: take_map)
  qed (rule acc)
  moreover have "feed decode q cs = (drop n fs, [], None)"
  proof (rule Cons.IH [OF acc(2)])
    have "concat (map wire fs) = concat (map wire (take n fs)) @ concat (map wire (drop n fs))"
      by (metis append_take_drop_id concat_append map_append)
    then show "q @ concat cs = concat (map wire (drop n fs))"
      using Cons.prems(2) split(1) by (simp add: take_map) (metis append.assoc same_append_eq)
    show "q = [] \<or> drop n fs \<noteq> [] \<and> strict_prefix q (wire (hd (drop n fs)))"
      using q by (auto simp: hd_drop_conv_nth)
    show "fits (q @ concat cs)" using Cons.prems(4) unfolding whole by (rule fits_append [THEN conjunct2])
  qed
  ultimately show ?case using split(1) by (simp add: take_map)
qed

lemma feed_wire:
  assumes "list_all accepts fs" and "concat chunks = concat (map wire fs)" and "fits (concat chunks)"
  shows "feed decode [] chunks = (fs, [], None)"
  using assms by (intro feed_frames_from) simp_all

end

locale frame_codec = stream_codec +
  assumes encode_rejects: "\<not> accepts f \<Longrightarrow> \<exists>e. encode f dst = Inl e"
begin

lemma encode_all_ok_iff: "(\<exists>out. encode_all encode fs dst = Inr out) \<longleftrightarrow> list_all accepts fs"
proof (induction fs arbitrary: dst)
  case Nil
  show ?case by simp
next
  case (Cons f fs)
  then show ?case
    using encode_rejects [of f dst] by (cases "accepts f") (auto simp: encode_accepts)
qed

lemma feed_frames:
  assumes "encode_all encode fs [] = Inr out" and "concat chunks = out" and "fits out"
  shows "feed decode [] chunks = (fs, [], None)"
proof -
  have "list_all accepts fs" using assms(1) encode_all_ok_iff by blast
  with assms show ?thesis by (intro feed_wire) (simp_all add: encode_all_wire)
qed

end

end
