(* ===== verification/Example_Codecs.thy ===== *)
theory Example_Codecs
  imports Frame_Codec Byte_Order
begin

text \<open>
  The two codecs of \<open>src/codec/examples.rs\<close>: Hotline (a 20-byte big-endian header) and MySQL
  (a 3-byte little-endian length and a sequence byte). \<open>Bytes\<close> and \<open>BytesMut\<close> are byte strings;
  the multi-byte accessors of the \<open>bytes\<close> crate are those of \<open>api\<close>. A decoder gives the bytes
  left in \<open>src\<close> and its result; an encoder gives the extended \<open>dst\<close> or the error, which leaves
  \<open>dst\<close> as it was. The copied-byte counter of the benchmarks is not modelled.
\<close>

definition u32_try_from :: "usize \<Rightarrow> u32 option" where
  "u32_try_from n = (if n < 4294967296 then Some (word_of_nat n) else None)"

section \<open>Hotline\<close>

record hotline_frame =
  transaction_id :: u32
  hotline_payload :: bytes

record hotline_adapter =
  hotline_max :: usize

definition hotline_new :: "usize \<Rightarrow> hotline_adapter" where
  "hotline_new max_frame_length = \<lparr>hotline_max = max_frame_length\<rparr>"

definition hotline_decode :: "bytes_api \<Rightarrow> hotline_adapter \<Rightarrow> hotline_frame decoder" where
  "hotline_decode api a src =
     (if length src < 20 then (src, Inr None)
      else
        let data_size = unat (get_u32 api (take 4 src));
            total_size = unat (get_u32 api (take 4 (drop 4 src)));
            txid = get_u32 api (take 4 (drop 8 src))
        in if hotline_max a < data_size
           then (src, Inl (IoError InvalidData (IoMessage ''payload too large'')))
           else if total_size \<noteq> data_size + 20
           then (src, Inl (IoError InvalidData (IoMessage ''invalid total size'')))
           else if length src < total_size then (src, Inr None)
           else (drop total_size src,
                 Inr (Some \<lparr>transaction_id = txid,
                            hotline_payload = drop 20 (take total_size src)\<rparr>)))"

definition hotline_encode :: "bytes_api \<Rightarrow> hotline_adapter \<Rightarrow> hotline_frame encoder" where
  "hotline_encode api a item dst =
     (let payload_size = length (hotline_payload item)
      in if hotline_max a < payload_size
         then Inl (IoError InvalidInput (IoMessage ''payload too large''))
         else case u32_try_from payload_size of
           None \<Rightarrow> Inl (IoError InvalidInput (IoMessage ''payload too large''))
         | Some wire_payload_size \<Rightarrow>
             (case u32_try_from (payload_size + 20) of
                None \<Rightarrow> Inl (IoError InvalidInput (IoMessage ''payload too large''))
              | Some wire_frame_size \<Rightarrow>
                  Inr (dst @ put_u32 api wire_payload_size @ put_u32 api wire_frame_size @
                       put_u32 api (transaction_id item) @ replicate 8 0 @ hotline_payload item)))"

definition hotline_frame_payload :: "hotline_frame \<Rightarrow> bytes" where
  "hotline_frame_payload frame = hotline_payload frame"

definition hotline_wrap_payload :: "bytes \<Rightarrow> hotline_frame" where
  "hotline_wrap_payload payload = \<lparr>transaction_id = 0, hotline_payload = payload\<rparr>"

definition hotline_correlation_id :: "hotline_frame \<Rightarrow> u64 option" where
  "hotline_correlation_id frame = Some (ucast (transaction_id frame))"

section \<open>MySQL\<close>

record mysql_frame =
  sequence_id :: u8
  mysql_payload :: bytes

record mysql_adapter =
  mysql_max :: usize

definition mysql_new :: "usize \<Rightarrow> mysql_adapter" where
  "mysql_new max_frame_length = \<lparr>mysql_max = max_frame_length\<rparr>"

definition mysql_decode :: "mysql_adapter \<Rightarrow> mysql_frame decoder" where
  "mysql_decode a src =
     (if length src < 4 then (src, Inr None)
      else
        let len = (unat (src ! 0) OR push_bit 8 (unat (src ! 1))) OR push_bit 16 (unat (src ! 2));
            seq = src ! 3
        in if mysql_max a < len
           then (src, Inl (IoError InvalidData (IoMessage ''payload too large'')))
           else if length src < 4 + len then (src, Inr None)
           else (drop (4 + len) src,
                 Inr (Some \<lparr>sequence_id = seq, mysql_payload = drop 4 (take (4 + len) src)\<rparr>)))"

definition mysql_encode :: "mysql_adapter \<Rightarrow> mysql_frame encoder" where
  "mysql_encode a item dst =
     (let payload_len = length (mysql_payload item)
      in if mysql_max a < payload_len
         then Inl (IoError InvalidInput (IoMessage ''payload too large''))
         else if 0xffffff < payload_len
         then Inl (IoError InvalidInput (IoMessage ''payload too long''))
         else case u32_try_from payload_len of
           None \<Rightarrow> Inl (IoError InvalidInput (IoMessage ''payload too long''))
         | Some n \<Rightarrow>
             Inr (dst @ [ucast (n AND 0xff), ucast (drop_bit 8 n AND 0xff),
                         ucast (drop_bit 16 n AND 0xff), sequence_id item] @ mysql_payload item))"

definition mysql_frame_payload :: "mysql_frame \<Rightarrow> bytes" where
  "mysql_frame_payload frame = mysql_payload frame"

definition mysql_wrap_payload :: "bytes \<Rightarrow> mysql_frame" where
  "mysql_wrap_payload payload = \<lparr>sequence_id = 0, mysql_payload = payload\<rparr>"

definition mysql_correlation_id :: "mysql_frame \<Rightarrow> u64 option" where
  "mysql_correlation_id frame = Some (ucast (sequence_id frame))"

section \<open>The codec contract\<close>

text \<open>The bytes of a frame on the wire, and the frames the encoders accept.\<close>

definition hotline_wire :: "hotline_frame \<Rightarrow> bytes" where
  "hotline_wire f = be_bytes 4 (length (hotline_payload f)) @
     be_bytes 4 (length (hotline_payload f) + 20) @ be_bytes 4 (unat (transaction_id f)) @
     replicate 8 0 @ hotline_payload f"

definition hotline_accepts :: "hotline_adapter \<Rightarrow> hotline_frame \<Rightarrow> bool" where
  "hotline_accepts a f \<longleftrightarrow>
     length (hotline_payload f) \<le> hotline_max a \<and> length (hotline_payload f) + 20 < 2 ^ 32"

definition mysql_wire :: "mysql_frame \<Rightarrow> bytes" where
  "mysql_wire f = le_bytes 3 (length (mysql_payload f)) @ sequence_id f # mysql_payload f"

definition mysql_accepts :: "mysql_adapter \<Rightarrow> mysql_frame \<Rightarrow> bool" where
  "mysql_accepts a f \<longleftrightarrow> length (mysql_payload f) \<le> mysql_max a \<and> length (mysql_payload f) < 2 ^ 24"

lemma u32_try_from_Some: "u32_try_from n = Some w \<Longrightarrow> n < 2 ^ 32 \<and> unat w = n"
  by (auto simp: u32_try_from_def unat_of_nat split: if_splits)

lemma u32_try_from_None: "u32_try_from n = None \<longleftrightarrow> \<not> n < 2 ^ 32"
  by (simp add: u32_try_from_def)

lemma hotline_encode_eq:
  assumes "bytes_documented api"
  shows "hotline_encode api a f dst =
    (if hotline_accepts a f then Inr (dst @ hotline_wire f)
     else Inl (IoError InvalidInput (IoMessage ''payload too large'')))"
  using bytes_documentedD(2) [OF assms]
  by (auto simp: hotline_encode_def hotline_accepts_def hotline_wire_def u32_try_from_None Let_def
      split: option.splits dest!: u32_try_from_Some)

text \<open>Any buffer that begins with a frame's first twenty bytes is decoded by their fields.\<close>

lemma hotline_decode_header:
  assumes api: "bytes_documented api" and acc: "hotline_accepts a f"
    and src: "take 20 src = take 20 (hotline_wire f)" and len: "20 \<le> length src"
  defines "sz \<equiv> length (hotline_payload f) + 20"
  shows "hotline_decode api a src =
    (if length src < sz then (src, Inr None)
     else (drop sz src, Inr (Some \<lparr>transaction_id = transaction_id f,
                                       hotline_payload = drop 20 (take sz src)\<rparr>)))"
proof -
  have "take 4 src = take 4 (take 20 src)" "take 4 (drop 4 src) = take 4 (drop 4 (take 20 src))"
    "take 4 (drop 8 src) = take 4 (drop 8 (take 20 src))"
    by (simp_all add: drop_take min_def)
  then have fields: "take 4 src = be_bytes 4 (length (hotline_payload f))"
    "take 4 (drop 4 src) = be_bytes 4 sz"
    "take 4 (drop 8 src) = be_bytes 4 (unat (transaction_id f))"
    by (simp_all add: src hotline_wire_def sz_def)
  have size: "be_val (be_bytes 4 sz) = sz"
    "be_val (be_bytes 4 (length (hotline_payload f))) = length (hotline_payload f)"
    using acc by (simp_all add: hotline_accepts_def be_val_be_bytes sz_def)
  have tid: "get_u32 api (be_bytes 4 (unat (transaction_id f))) = transaction_id f"
    by (simp add: word_unat_eq_iff bytes_documentedD(5) [OF api] be_val_unat_u32)
  show ?thesis
    using acc len
    by (simp add: hotline_decode_def fields tid bytes_documentedD(5) [OF api] size hotline_accepts_def)
       (simp add: sz_def)
qed


lemma split_header: "xs = take k xs @ drop k (take (k + n) xs) @ drop (k + n) xs"
proof -
  have "drop (k + n) xs = drop n (drop k xs)" "drop k (take (k + n) xs) = take n (drop k xs)"
    by (simp_all add: drop_take add.commute)
  then show ?thesis by (simp only: append_take_drop_id)
qed

lemma hotline_frame_codec:
  assumes api: "bytes_documented api"
  shows "frame_codec (hotline_decode api a) (hotline_encode api a) hotline_wire (hotline_accepts a) (\<lambda>_. True)"
proof unfold_locales
  fix f dst rest p
  have hdr: "length (hotline_wire f) = length (hotline_payload f) + 20"
    "drop 20 (hotline_wire f) = hotline_payload f"
    by (simp_all add: hotline_wire_def)
  show "hotline_accepts a f \<Longrightarrow> hotline_encode api a f dst = Inr (dst @ hotline_wire f)"
    "\<not> hotline_accepts a f \<Longrightarrow> \<exists>e. hotline_encode api a f dst = Inl e"
    by (simp_all add: hotline_encode_eq [OF api])
  show "hotline_wire f \<noteq> []" using hdr(1) by auto
  show "hotline_decode api a [] = ([], Inr None)" by (simp add: hotline_decode_def)
  show "hotline_decode api a (hotline_wire f @ rest) = (rest, Inr (Some f))"
    if "hotline_accepts a f"
    using hotline_decode_header [OF api that, of "hotline_wire f @ rest"] by (simp add: hdr)
  show "hotline_decode api a p = (p, Inr None)"
    if "hotline_accepts a f" and p: "strict_prefix p (hotline_wire f)"
  proof (cases "length p < 20")
    case True
    then show ?thesis by (simp add: hotline_decode_def)
  next
    case False
    have "take 20 p = take 20 (hotline_wire f)"
      using False p by (auto simp: strict_prefix_def prefix_def)
    moreover have "length p < length (hotline_payload f) + 20"
      using prefix_length_less [OF p] hdr(1) by simp
    ultimately show ?thesis
      using hotline_decode_header [OF api that(1), of p] False by simp
  qed
qed simp

interpretation hotline: frame_codec
  "hotline_decode reference_bytes a" "hotline_encode reference_bytes a" hotline_wire "hotline_accepts a" "\<lambda>_. True"
  for a
  by (rule hotline_frame_codec) (rule reference_bytes_documented)

text \<open>The three length bytes, assembled with shifts and \<open>OR\<close>, are the little-endian value.\<close>

lemma or_shift_nat:
  assumes "(x :: nat) < 2 ^ n"
  shows "x OR push_bit n y = x + 2 ^ n * y"
proof -
  have "bit x k \<Longrightarrow> k < n" for k
    using assms by (metis bit_take_bit_iff take_bit_nat_eq_self_iff)
  then have "x AND push_bit n y = 0"
    by (intro bit_eqI) (auto simp: bit_simps dest: leD)
  then show ?thesis
    by (simp add: disjunctive_add_eq_or push_bit_eq_mult mult.commute)
qed

lemma or_three_bytes:
  "(unat (a :: u8) OR push_bit 8 (unat (b :: u8))) OR push_bit 16 (unat (c :: u8)) = le_val [a, b, c]"
proof -
  have "unat a OR push_bit 8 (unat b) = unat a + 256 * unat b"
    using or_shift_nat [of "unat a" 8] unat_bounds(1) [of a] by simp
  moreover have "unat a + 256 * unat b < 2 ^ 16"
    using unat_bounds(1) [of a] unat_bounds(1) [of b] by simp
  ultimately show ?thesis
    using or_shift_nat [of "unat a + 256 * unat b" 16 "unat c"] by simp
qed

lemma length_bytes_u32:
  assumes "n < 2 ^ 24"
  shows "[ucast ((word_of_nat n :: u32) AND 0xff), ucast (drop_bit 8 (word_of_nat n :: u32) AND 0xff),
          ucast (drop_bit 16 (word_of_nat n :: u32) AND 0xff)] = le_bytes 3 n"
proof -
  let ?w = "word_of_nat n :: u32"
  have w: "unat ?w = n" using assms by (simp add: unat_of_nat)
  have shift: "unat (drop_bit 8 ?w) = n div 256" "unat (drop_bit 16 ?w) = n div 65536"
    using unat_shift_bytes [of 1 ?w] unat_shift_bytes [of 2 ?w] w by simp_all
  have byte: "(ucast (v AND 0xff) :: u8) = word_of_nat (unat v)" for v :: u32
    by (simp only: word_unat_eq_iff unat_low_byte_u32) (simp only: unat_of_nat, simp)
  show ?thesis
    by (simp only: byte w shift) (simp add: numeral_3_eq_3 div_mult2_eq [symmetric])
qed

lemma mysql_encode_eq:
  "mysql_encode a f dst =
    (if mysql_accepts a f then Inr (dst @ mysql_wire f)
     else Inl (IoError InvalidInput (IoMessage
       (if mysql_max a < length (mysql_payload f) then ''payload too large'' else ''payload too long''))))"
proof -
  have "length (mysql_payload f) < 2 ^ 24 \<Longrightarrow>
      [ucast ((word_of_nat (length (mysql_payload f)) :: u32) AND 0xff),
       ucast (drop_bit 8 (word_of_nat (length (mysql_payload f)) :: u32) AND 0xff),
       ucast (drop_bit 16 (word_of_nat (length (mysql_payload f)) :: u32) AND 0xff), s] @ rest =
      le_bytes 3 (length (mysql_payload f)) @ s # rest" for s rest
    by (drule length_bytes_u32) (metis append_Cons append_Nil)
  then show ?thesis
    by (simp add: mysql_encode_def mysql_accepts_def mysql_wire_def u32_try_from_def Let_def)
qed

lemma take_four:
  assumes "4 \<le> length xs"
  shows "take 4 xs = [xs ! 0, xs ! 1, xs ! 2] @ [xs ! 3]"
  using assms by (simp add: list_eq_iff_nth_eq numeral_eq_Suc less_Suc_eq)

lemma mysql_decode_header:
  assumes acc: "mysql_accepts a f"
    and src: "take 4 src = take 4 (mysql_wire f)" and len: "4 \<le> length src"
  defines "n \<equiv> length (mysql_payload f)"
  shows "mysql_decode a src =
    (if length src < 4 + n then (src, Inr None)
     else (drop (4 + n) src,
           Inr (Some \<lparr>sequence_id = sequence_id f, mysql_payload = drop 4 (take (4 + n) src)\<rparr>)))"
proof -
  have "take 4 (mysql_wire f) = le_bytes 3 n @ [sequence_id f]"
    by (simp add: mysql_wire_def n_def)
  with src take_four [OF len] have "[src ! 0, src ! 1, src ! 2] @ [src ! 3] = le_bytes 3 n @ [sequence_id f]"
    by simp
  then have hdr: "[src ! 0, src ! 1, src ! 2] = le_bytes 3 n" "src ! 3 = sequence_id f"
    by (auto simp only: append1_eq_conv)
  have "le_val [src ! 0, src ! 1, src ! 2] = n"
    unfolding hdr(1) using acc by (simp add: le_val_le_bytes mysql_accepts_def n_def)
  then show ?thesis
    using len acc by (simp only: mysql_decode_def or_three_bytes hdr(2))
      (simp add: Let_def mysql_accepts_def n_def)
qed

interpretation mysql: frame_codec "mysql_decode a" "mysql_encode a" mysql_wire "mysql_accepts a" "\<lambda>_. True"
  for a
proof unfold_locales
  fix f dst rest p
  have hdr: "length (mysql_wire f) = 4 + length (mysql_payload f)"
    "drop 4 (mysql_wire f) = mysql_payload f"
    by (simp_all add: mysql_wire_def)
  show "mysql_accepts a f \<Longrightarrow> mysql_encode a f dst = Inr (dst @ mysql_wire f)"
    "\<not> mysql_accepts a f \<Longrightarrow> \<exists>e. mysql_encode a f dst = Inl e"
    by (simp_all add: mysql_encode_eq)
  show "mysql_wire f \<noteq> []" by (simp add: mysql_wire_def)
  show "mysql_decode a [] = ([], Inr None)" by (simp add: mysql_decode_def)
  show "mysql_decode a (mysql_wire f @ rest) = (rest, Inr (Some f))" if "mysql_accepts a f"
    using mysql_decode_header [OF that, of "mysql_wire f @ rest"] by (simp add: hdr)
  show "mysql_decode a p = (p, Inr None)"
    if "mysql_accepts a f" and p: "strict_prefix p (mysql_wire f)"
  proof (cases "length p < 4")
    case True
    then show ?thesis by (simp add: mysql_decode_def)
  next
    case False
    have "take 4 p = take 4 (mysql_wire f)"
      using False p by (auto simp: strict_prefix_def prefix_def)
    then show ?thesis
      using mysql_decode_header [OF that(1), of p] prefix_length_less [OF p] hdr(1) False by simp
  qed
qed simp


section \<open>Properties\<close>

text \<open>
  C25: Whatever sequence of Hotline frames the encoder writes, a reader that receives the bytes
  cut into reads at arbitrary places decodes exactly that sequence, with no error and nothing
  left over.
\<close>

theorem hotline_stream_roundtrip:
  assumes "bytes_documented api" and "encode_all (hotline_encode api a) fs [] = Inr out"
    and "concat chunks = out"
  shows "feed (hotline_decode api a) [] chunks = (fs, [], None)"
  using assms(2,3) by (rule frame_codec.feed_frames [OF hotline_frame_codec [OF assms(1)] _ _ TrueI])

theorem hotline_stream_roundtrip_witness:
  "let fs = [\<lparr>transaction_id = 7, hotline_payload = [1, 2, 3]\<rparr>, \<lparr>transaction_id = 8, hotline_payload = []\<rparr>]
   in \<exists>out. encode_all (hotline_encode reference_bytes (hotline_new 16)) fs [] = Inr out \<and>
        feed (hotline_decode reference_bytes (hotline_new 16)) [] [take 5 out, drop 5 (take (5 + 30) out), drop (5 + 30) out] =
          (fs, [], None)"
proof -
  let ?fs = "[\<lparr>transaction_id = 7, hotline_payload = [1, 2, 3]\<rparr>, \<lparr>transaction_id = 8, hotline_payload = []\<rparr>]"
  let ?out = "concat (map hotline_wire ?fs)"
  have enc: "encode_all (hotline_encode reference_bytes (hotline_new 16)) ?fs [] = Inr ?out"
    using hotline.encode_all_wire [of "hotline_new 16" ?fs "[]"]
    by (simp add: hotline_accepts_def hotline_new_def)
  have "concat [take 5 ?out, drop 5 (take (5 + 30) ?out), drop (5 + 30) ?out] = ?out"
    using split_header [of ?out 5 30] by (simp only: concat.simps append_Nil2)
  from hotline_stream_roundtrip [OF reference_bytes_documented enc this] enc
  show ?thesis unfolding Let_def by (intro exI [of _ ?out] conjI)
qed

text \<open>
  The MySQL decoder yields a frame exactly when the buffer begins with the wire form of an
  acceptable frame, and then it removes exactly those bytes; acceptable means a payload within
  the configured maximum and within the three-byte length field. The encoder produces the wire
  form of exactly the acceptable frames and rejects every other frame as invalid input.
\<close>

lemma mysql_decode_iff_wire:
  "(mysql_decode a src = (rest, Inr (Some f)) \<longleftrightarrow> mysql_accepts a f \<and> src = mysql_wire f @ rest) \<and>
   mysql_encode a f dst =
     (if mysql_accepts a f then Inr (dst @ mysql_wire f)
      else Inl (IoError InvalidInput (IoMessage
        (if mysql_max a < length (mysql_payload f) then ''payload too large'' else ''payload too long''))))"
proof
  let ?n = "le_val [src ! 0, src ! 1, src ! 2]"
  have "mysql_accepts a f \<and> src = mysql_wire f @ rest" if dec: "mysql_decode a src = (rest, Inr (Some f))"
  proof -
    from dec have len: "4 + ?n \<le> length src" and max: "?n \<le> mysql_max a"
      and rest: "rest = drop (4 + ?n) src" and seq: "sequence_id f = src ! 3"
      and pay: "mysql_payload f = drop 4 (take (4 + ?n) src)"
      by (auto simp: mysql_decode_def or_three_bytes Let_def simp del: le_val.simps split: if_splits)
    have n: "length (mysql_payload f) = ?n" using len by (simp add: pay)
    have small: "?n < 2 ^ 24" using le_val_bound [of "[src ! 0, src ! 1, src ! 2]"] by simp
    have "le_bytes 3 ?n = [src ! 0, src ! 1, src ! 2]"
      by (rule le_bytes_le_val) simp
    then have "take 4 src = le_bytes 3 ?n @ [sequence_id f]"
      using take_four [of src] len by (simp del: le_val.simps add: seq)
    moreover have "src = take 4 src @ mysql_payload f @ rest"
      unfolding pay rest by (rule split_header)
    ultimately have "src = mysql_wire f @ rest"
      unfolding mysql_wire_def n by simp
    then show ?thesis using max n small by (simp add: mysql_accepts_def del: le_val.simps)
  qed
  then show "mysql_decode a src = (rest, Inr (Some f)) \<longleftrightarrow> mysql_accepts a f \<and> src = mysql_wire f @ rest"
    using mysql.decode_wire by blast
qed (rule mysql_encode_eq)

end
