(* ===== verification/Fragment_Core.thy ===== *)
theory Fragment_Core
  imports Prelude
begin

text \<open>
  The vocabulary of transport fragmentation: message identifiers, fragment indices, headers and
  errors (\<open>src/fragment/{id,index,header,error}.rs\<close>) and the ordering tracker
  \<open>FragmentSeries\<close> (\<open>src/fragment/series.rs\<close>). A method that mutates \<open>self\<close> returns the new state
  next to its result. The accessors of the sources are the record selectors.
\<close>

type_synonym message_id = u64
type_synonym fragment_index = u32

definition fragment_index_zero :: fragment_index where
  "fragment_index_zero = 0"

definition checked_increment :: "fragment_index \<Rightarrow> fragment_index option" where
  "checked_increment i = checked_inc_u32 i"

definition fragment_index_try_from :: "usize \<Rightarrow> fragment_index option" where
  "fragment_index_try_from n = (if n < 4294967296 then Some (word_of_nat n) else None)"

record fragment_header =
  fh_message_id :: message_id
  fh_fragment_index :: fragment_index
  fh_is_last_fragment :: bool

definition fragment_header_new :: "message_id \<Rightarrow> fragment_index \<Rightarrow> bool \<Rightarrow> fragment_header" where
  "fragment_header_new mid i is_last =
     \<lparr>fh_message_id = mid, fh_fragment_index = i, fh_is_last_fragment = is_last\<rparr>"

datatype fragment_status = Incomplete | Duplicate | Complete

datatype fragment_error =
    MessageMismatch (mm_expected: message_id) (mm_found: message_id)
  | IndexMismatch (im_expected: fragment_index) (im_found: fragment_index)
  | SeriesComplete
  | IndexOverflow (io_last: fragment_index)

text \<open>
  Errors of the \<open>bincode\<close> crate: the variants the sources construct, and every other one by its
  rendered message.
\<close>

datatype encode_error = EncodeOther string | EncodeFailure string
datatype decode_error = UnexpectedEnd usize | OtherString string | DecodeFailure string

datatype fragmentation_error =
    FragmentationEncode encode_error
  | FragmentationIndexOverflow (fio_last: fragment_index)
  | SliceBounds (sb_offset: usize) (sb_end: usize) (sb_total: usize)

datatype reassembly_error =
    ReassemblyFragment fragment_error
  | MessageTooLarge (mtl_message_id: message_id) (mtl_attempted: usize) (mtl_limit: usize)
  | TooManyConcurrentPartials (tmp_attempted: usize) (tmp_limit: usize)
  | AggregateBufferCapExceeded (abc_attempted: usize) (abc_limit: usize)

section \<open>Fragment series\<close>

record fragment_series =
  fs_message_id :: message_id
  fs_next_index :: fragment_index
  fs_complete :: bool

definition fragment_series_new :: "message_id \<Rightarrow> fragment_series" where
  "fragment_series_new mid =
     \<lparr>fs_message_id = mid, fs_next_index = fragment_index_zero, fs_complete = False\<rparr>"

definition advance_accepted ::
    "fragment_series \<Rightarrow> fragment_header \<Rightarrow> fragment_series \<times> (fragment_error + bool)" where
  "advance_accepted s h =
     (let next_index = checked_increment (fh_fragment_index h)
      in if fh_is_last_fragment h
         then (case next_index of
                 None \<Rightarrow> s\<lparr>fs_complete := True\<rparr>
               | Some incremented \<Rightarrow> s\<lparr>fs_complete := True, fs_next_index := incremented\<rparr>,
               Inr True)
         else case next_index of
           None \<Rightarrow> (s, Inl (IndexOverflow (fh_fragment_index h)))
         | Some incremented \<Rightarrow> (s\<lparr>fs_next_index := incremented\<rparr>, Inr False))"

definition start_with_first ::
    "fragment_header \<Rightarrow> fragment_error + (fragment_series \<times> bool)" where
  "start_with_first h =
     (let series = fragment_series_new (fh_message_id h)
      in if fh_fragment_index h \<noteq> fragment_index_zero
         then Inl (IndexMismatch fragment_index_zero (fh_fragment_index h))
         else case advance_accepted series h of
           (_, Inl e) \<Rightarrow> Inl e
         | (series', Inr is_complete) \<Rightarrow> Inr (series', is_complete))"

definition series_accept ::
    "fragment_series \<Rightarrow> fragment_header \<Rightarrow> fragment_series \<times> (fragment_error + fragment_status)" where
  "series_accept s h =
     (if fh_message_id h \<noteq> fs_message_id s
      then (s, Inl (MessageMismatch (fs_message_id s) (fh_message_id h)))
      else if fh_fragment_index h < fs_next_index s then (s, Inr Duplicate)
      else if fs_complete s then (s, Inl SeriesComplete)
      else if fh_fragment_index h > fs_next_index s
      then (s, Inl (IndexMismatch (fs_next_index s) (fh_fragment_index h)))
      else case advance_accepted s h of
        (s', Inl e) \<Rightarrow> (s', Inl e)
      | (s', Inr done) \<Rightarrow> (s', Inr (if done then Complete else Incomplete)))"

text \<open>The results of offering a sequence of headers, each paired with its header.\<close>

fun series_run ::
    "fragment_series \<Rightarrow> fragment_header list \<Rightarrow>
     fragment_series \<times> (fragment_header \<times> (fragment_error + fragment_status)) list" where
  "series_run s [] = (s, [])"
| "series_run s (h # hs) =
     (let (s', r) = series_accept s h; (s'', rs) = series_run s' hs in (s'', (h, r) # rs))"

definition series_accepted ::
    "(fragment_header \<times> (fragment_error + fragment_status)) list \<Rightarrow> fragment_header list" where
  "series_accepted outs = map fst (filter (\<lambda>(h, r). r \<in> {Inr Incomplete, Inr Complete}) outs)"

section \<open>Lemmas\<close>

text \<open>Errors and duplicates leave the series as it was.\<close>

lemma series_accept_unchanged:
  "series_accept s h = (s', r) \<Longrightarrow> r \<notin> {Inr Incomplete, Inr Complete} \<Longrightarrow> s' = s"
  by (auto simp: series_accept_def advance_accepted_def Let_def split: if_splits option.splits)

lemma series_accept_status:
  assumes "series_accept s h = (s', Inr st)" and "st \<noteq> Duplicate"
  shows "fh_message_id h = fs_message_id s" "fh_fragment_index h = fs_next_index s" "\<not> fs_complete s"
    "fs_message_id s' = fs_message_id s" "fs_complete s' = fh_is_last_fragment h"
    "st = (if fh_is_last_fragment h then Complete else Incomplete)"
    "unat (fs_next_index s') = min (Suc (unat (fs_next_index s))) 4294967295"
    "fh_is_last_fragment h \<or> unat (fs_next_index s) < 4294967295"
proof -
  have "unat w = min (Suc (unat i)) 4294967295" "unat i < 4294967295" if "checked_increment i = Some w" for i w
    using that unat_checked_inc_u32 [of i w] unat_bounds(3) [of w]
    by (simp_all add: checked_increment_def min_def)
  moreover have "unat i = 4294967295" if "checked_increment i = None" for i
    using that by (simp add: checked_increment_def checked_inc_u32_None)
  ultimately show "fh_message_id h = fs_message_id s" "fh_fragment_index h = fs_next_index s" "\<not> fs_complete s"
    "fs_message_id s' = fs_message_id s" "fs_complete s' = fh_is_last_fragment h"
    "st = (if fh_is_last_fragment h then Complete else Incomplete)"
    "unat (fs_next_index s') = min (Suc (unat (fs_next_index s))) 4294967295"
    "fh_is_last_fragment h \<or> unat (fs_next_index s) < 4294967295"
    using assms
    by (auto simp: series_accept_def advance_accepted_def Let_def split: if_splits option.splits)
qed

text \<open>The series agrees with the list of headers accepted so far.\<close>

definition series_tracks :: "message_id \<Rightarrow> fragment_series \<Rightarrow> fragment_header list \<Rightarrow> bool" where
  "series_tracks mid s acc \<longleftrightarrow>
     fs_message_id s = mid \<and>
     map (unat \<circ> fh_fragment_index) acc = [0..<length acc] \<and>
     list_all (\<lambda>h. fh_message_id h = mid) acc \<and>
     (if fs_complete s then acc \<noteq> [] \<and> map fh_is_last_fragment acc = replicate (length acc - 1) False @ [True] \<and>
        unat (fs_next_index s) = min (length acc) 4294967295
      else unat (fs_next_index s) = length acc \<and> list_all (Not \<circ> fh_is_last_fragment) acc)"

lemma series_tracks_new: "series_tracks mid (fragment_series_new mid) []"
  by (simp add: series_tracks_def fragment_series_new_def fragment_index_zero_def)

lemma map_all_False: "list_all (Not \<circ> f) xs \<Longrightarrow> map f xs = replicate (length xs) False"
  by (induction xs) auto

lemma series_tracks_accept:
  assumes "series_tracks mid s acc" and "series_accept s h = (s', r)"
  shows "series_tracks mid s' (acc @ (if r \<in> {Inr Incomplete, Inr Complete} then [h] else []))"
proof (cases "r \<in> {Inr Incomplete, Inr Complete}")
  case False
  with assms series_accept_unchanged show ?thesis by auto
next
  case True
  then obtain st where "r = Inr st" "st \<noteq> Duplicate" by auto
  with assms(2) have "series_accept s h = (s', Inr st)" by simp
  note h = series_accept_status [OF this \<open>st \<noteq> Duplicate\<close>]
  from assms(1) h(3) have nl: "list_all (Not \<circ> fh_is_last_fragment) acc"
    and next_index: "unat (fs_next_index s) = length acc"
    by (simp_all add: series_tracks_def)
  from assms(1) True h map_all_False [OF nl] nl next_index show ?thesis
    by (auto simp: series_tracks_def)
qed

lemma series_tracks_run:
  assumes "series_tracks mid s acc" and "series_run s hs = (s', outs)"
  shows "series_tracks mid s' (acc @ series_accepted outs)"
  using assms
proof (induction hs arbitrary: s acc outs)
  case Nil
  then show ?case by (simp add: series_accepted_def)
next
  case (Cons h hs)
  obtain s1 r where h: "series_accept s h = (s1, r)" by (cases "series_accept s h")
  with Cons.prems(2) obtain outs' where run: "series_run s1 hs = (s', outs')" "outs = (h, r) # outs'"
    by (auto split: prod.splits)
  from Cons.IH [OF series_tracks_accept [OF Cons.prems(1) h] run(1)] show ?case
    by (auto simp: run(2) series_accepted_def)
qed


section \<open>Properties\<close>

text \<open>
  Whatever headers are offered to a fresh series, in whatever order and with whatever
  repetitions, the ones it accepts carry the series' message identifier and the indices
  0, 1, 2, ... without gap or repetition, and the series is complete exactly when the last of
  them is flagged as the final fragment; no earlier one is.
\<close>

lemma series_accepts_in_order:
  assumes "series_run (fragment_series_new mid) hs = (s, outs)"
  defines "acc \<equiv> series_accepted outs"
  shows "map (unat \<circ> fh_fragment_index) acc = [0..<length acc] \<and>
    list_all (\<lambda>h. fh_message_id h = mid) acc \<and>
    map fh_is_last_fragment acc =
      (if fs_complete s then replicate (length acc - 1) False @ [True] else replicate (length acc) False)"
  using series_tracks_run [OF series_tracks_new assms(1)] map_all_False [of fh_is_last_fragment acc]
  by (auto simp: series_tracks_def acc_def split: if_splits)



end
