(* ===== verification/Fragmenter.thy ===== *)
theory Fragmenter
  imports Fragment_Core
begin

text \<open>
  Outbound splitting: \<open>src/fragment/fragmenter.rs\<close>. The atomic counter is a field of the state and
  the operations that draw an identifier return the new state; running out of identifiers is a
  panic, the value \<open>None\<close>. \<open>NonZeroUsize\<close> is a natural number with the hypothesis that it is
  positive where that matters. \<open>build_loop\<close> is the \<open>while\<close> loop of \<open>build_fragments_from\<close>; it ends
  for every input because each round increments a 32-bit index that may not overflow.
\<close>

record fragmenter =
  max_fragment_size :: usize
  next_message_id_counter :: u64

record fragment_cursor =
  cursor_offset :: usize
  cursor_index :: fragment_index

record fragment_frame =
  ff_header :: fragment_header
  ff_payload :: bytes

record fragment_batch =
  fb_message_id :: message_id
  fb_fragments :: "fragment_frame list"

definition fragment_cursor_new :: "usize \<Rightarrow> fragment_index \<Rightarrow> fragment_cursor" where
  "fragment_cursor_new off i = \<lparr>cursor_offset = off, cursor_index = i\<rparr>"

definition fragment_frame_new :: "fragment_header \<Rightarrow> bytes \<Rightarrow> fragment_frame" where
  "fragment_frame_new h payload = \<lparr>ff_header = h, ff_payload = payload\<rparr>"

definition fragment_batch_new :: "message_id \<Rightarrow> fragment_frame list \<Rightarrow> fragment_batch" where
  "fragment_batch_new mid fragments = \<lparr>fb_message_id = mid, fb_fragments = fragments\<rparr>"

definition with_starting_id :: "usize \<Rightarrow> message_id \<Rightarrow> fragmenter" where
  "with_starting_id n start_at = \<lparr>max_fragment_size = n, next_message_id_counter = start_at\<rparr>"

definition fragmenter_new :: "usize \<Rightarrow> fragmenter" where
  "fragmenter_new n = with_starting_id n 0"

text \<open>\<open>next_message_id\<close>: \<open>current.checked_add(1)\<close> in an atomic update, panicking on overflow.\<close>

definition next_message_id :: "fragmenter \<Rightarrow> (fragmenter \<times> message_id) option" where
  "next_message_id f =
     (let current = next_message_id_counter f
      in if current = -1 then None
         else Some (f\<lparr>next_message_id_counter := current + 1\<rparr>, current))"

function build_loop ::
    "usize \<Rightarrow> message_id \<Rightarrow> bytes \<Rightarrow> fragment_cursor \<Rightarrow> fragment_frame list \<Rightarrow>
     fragmentation_error + fragment_frame list" where
  "build_loop maxsz mid payload cursor fragments =
     (if cursor_offset cursor < length payload then
        let e = min (cursor_offset cursor + maxsz) (length payload);
            is_last = (e = length payload)
        in case slice_get payload (cursor_offset cursor) e of
             None \<Rightarrow> Inl (SliceBounds (cursor_offset cursor) e (length payload))
           | Some chunk \<Rightarrow>
               (let fragments' = fragments @
                      [fragment_frame_new (fragment_header_new mid (cursor_index cursor) is_last) chunk]
                in if is_last then Inr fragments'
                   else case checked_increment (cursor_index cursor) of
                     None \<Rightarrow> Inl (FragmentationIndexOverflow (cursor_index cursor))
                   | Some i \<Rightarrow>
                       build_loop maxsz mid payload
                         (cursor\<lparr>cursor_offset := e, cursor_index := i\<rparr>) fragments')
      else Inr fragments)"
  by pat_completeness auto

termination
proof (relation "measure (\<lambda>(_, _, _, c, _). 4294967296 - unat (cursor_index c))")
  fix c :: fragment_cursor and e i
  assume "checked_increment (cursor_index c) = Some i"
  then have "unat i = Suc (unat (cursor_index c))"
    by (simp add: checked_increment_def unat_checked_inc_u32)
  with unat_bounds(3) [of i]
  show "((maxsz, mid, payload, c\<lparr>cursor_offset := e, cursor_index := i\<rparr>, fs'), maxsz, mid, payload, c, fs)
      \<in> measure (\<lambda>(_, _, _, c, _). 4294967296 - unat (cursor_index c))" for maxsz mid payload fs fs'
    by simp
qed simp

definition build_fragments_from ::
    "fragmenter \<Rightarrow> message_id \<Rightarrow> bytes \<Rightarrow> fragment_cursor \<Rightarrow> fragmentation_error + fragment_frame list" where
  "build_fragments_from f mid payload cursor =
     (if payload = []
      then Inr [fragment_frame_new (fragment_header_new mid fragment_index_zero True) []]
      else if length payload < cursor_offset cursor
      then Inl (SliceBounds (cursor_offset cursor) (cursor_offset cursor) (length payload))
      else build_loop (max_fragment_size f) mid payload cursor [])"

definition build_fragments ::
    "fragmenter \<Rightarrow> message_id \<Rightarrow> bytes \<Rightarrow> fragmentation_error + fragment_frame list" where
  "build_fragments f mid payload =
     build_fragments_from f mid payload (fragment_cursor_new 0 fragment_index_zero)"

definition fragment_with_id ::
    "fragmenter \<Rightarrow> message_id \<Rightarrow> bytes \<Rightarrow> fragmentation_error + fragment_batch" where
  "fragment_with_id f mid payload =
     (case build_fragments f mid payload of
        Inl e \<Rightarrow> Inl e
      | Inr fragments \<Rightarrow> Inr (fragment_batch_new mid fragments))"

definition fragment_bytes ::
    "fragmenter \<Rightarrow> bytes \<Rightarrow> (fragmenter \<times> (fragmentation_error + fragment_batch)) option" where
  "fragment_bytes f payload =
     (case next_message_id f of
        None \<Rightarrow> None
      | Some (f', mid) \<Rightarrow> Some (f', fragment_with_id f' mid payload))"

text \<open>\<open>fragment_message\<close>, with the message's own \<open>to_bytes\<close> as an argument.\<close>

definition fragment_message ::
    "('m \<Rightarrow> encode_error + bytes) \<Rightarrow> fragmenter \<Rightarrow> 'm \<Rightarrow>
     (fragmenter \<times> (fragmentation_error + fragment_batch)) option" where
  "fragment_message to_bytes f message =
     (case to_bytes message of
        Inl e \<Rightarrow> Some (f, Inl (FragmentationEncode e))
      | Inr bs \<Rightarrow> fragment_bytes f bs)"

definition is_fragmented :: "fragment_batch \<Rightarrow> bool" where
  "is_fragmented b \<longleftrightarrow> 1 < length (fb_fragments b)"

section \<open>Reference definition\<close>

text \<open>How many fragments a payload needs, and the fragment at each position.\<close>

definition fragment_count :: "usize \<Rightarrow> bytes \<Rightarrow> nat" where
  "fragment_count n payload = (if payload = [] then 1 else (length payload + n - 1) div n)"

definition fragment_at :: "usize \<Rightarrow> message_id \<Rightarrow> bytes \<Rightarrow> nat \<Rightarrow> fragment_frame" where
  "fragment_at n mid payload i =
     \<lparr>ff_header = \<lparr>fh_message_id = mid, fh_fragment_index = word_of_nat i,
                   fh_is_last_fragment = (Suc i = fragment_count n payload)\<rparr>,
      ff_payload = take n (drop (i * n) payload)\<rparr>"

definition fragments_of :: "usize \<Rightarrow> message_id \<Rightarrow> bytes \<Rightarrow> fragment_frame list" where
  "fragments_of n mid payload = map (fragment_at n mid payload) [0..<fragment_count n payload]"

lemma fragment_count_pos: "0 < n \<Longrightarrow> 0 < fragment_count n payload"
  by (auto simp: fragment_count_def div_greater_zero_iff neq_Nil_conv)

lemma fragment_count_step:
  assumes "0 < n" and "i * n < length payload"
  shows "i < fragment_count n payload"
    and "length payload \<le> i * n + n \<longleftrightarrow> Suc i = fragment_count n payload"
proof -
  let ?l = "length payload"
  have ne: "payload \<noteq> []" using assms(2) by auto
  have c: "fragment_count n payload = (?l + n - 1) div n" using ne by (simp add: fragment_count_def)
  have "Suc i * n \<le> ?l + n - 1" using assms by simp
  then have "Suc i \<le> (?l + n - 1) div n" using assms(1) by (simp only: less_eq_div_iff_mult_less_eq)
  then show "i < fragment_count n payload" by (simp add: c)
  have "?l \<le> i * n + n \<longleftrightarrow> ?l + n - 1 < Suc (Suc i) * n" using assms by auto
  also have "\<dots> \<longleftrightarrow> (?l + n - 1) div n < Suc (Suc i)" using assms(1) by (simp only: div_less_iff_less_mult)
  finally show "?l \<le> i * n + n \<longleftrightarrow> Suc i = fragment_count n payload"
    using \<open>Suc i \<le> (?l + n - 1) div n\<close> by (auto simp: c)
qed


text \<open>
  The sum \<open>cursor.offset + max\<close> of the loop is computed without a check. It cannot wrap: a
  vector has at most \<open>isize::MAX\<close> bytes, and past the first round \<open>max\<close> is below that length.
\<close>

lemma build_loop_no_overflow:
  assumes "i * n < length payload" and "length payload \<le> 9223372036854775807" and "n \<le> usize_max"
  shows "i * n + n \<le> usize_max"
proof (cases i)
  case 0
  with assms(3) show ?thesis by simp
next
  case (Suc j)
  then have "n \<le> i * n" by simp
  then have "i * n + n \<le> 2 * (i * n)" by simp
  also have "\<dots> \<le> usize_max" using assms(1,2) by (simp add: usize_max_def)
  finally show ?thesis .
qed

declare build_loop.simps [simp del]

lemma build_loop_step:
  assumes "0 < n" and "cursor_offset c = i * n" and "unat (cursor_index c) = i"
    and "i * n < length payload"
  shows "build_loop n mid payload c acc =
    (if Suc i = fragment_count n payload then Inr (acc @ [fragment_at n mid payload i])
     else case checked_increment (cursor_index c) of
       None \<Rightarrow> Inl (FragmentationIndexOverflow (cursor_index c))
     | Some j \<Rightarrow> build_loop n mid payload (c\<lparr>cursor_offset := Suc i * n, cursor_index := j\<rparr>)
                  (acc @ [fragment_at n mid payload i]))"
proof -
  let ?l = "length payload" and ?e = "min (i * n + n) (length payload)"
  note step = fragment_count_step [OF assms(1,4)]
  have idx: "cursor_index c = word_of_nat i" using assms(3) by auto
  have slice: "slice_get payload (i * n) ?e = Some (take n (drop (i * n) payload))"
    using assms(4) by (auto simp: slice_get_def min_def)
  have last: "?e = ?l \<longleftrightarrow> Suc i = fragment_count n payload" using step(2) by (auto simp: min_def)
  have e: "Suc i \<noteq> fragment_count n payload \<Longrightarrow> ?e = Suc i * n"
    using step(2) by (auto simp: min_def add.commute)
  have frame: "fragment_frame_new (fragment_header_new mid (cursor_index c) (Suc i = fragment_count n payload))
      (take n (drop (i * n) payload)) = fragment_at n mid payload i"
    by (simp add: fragment_frame_new_def fragment_header_new_def fragment_at_def idx)
  show ?thesis
    using assms(4) e
    by (subst build_loop.simps) (simp only: assms(2) slice last frame Let_def if_True option.case
        split: option.split if_split, auto)
qed

lemma build_loop_eq:
  assumes "0 < n" and "cursor_offset c = i * n" and "unat (cursor_index c) = i"
    and "i * n < length payload"
  shows "build_loop n mid payload c acc =
    (if fragment_count n payload \<le> 4294967296
     then Inr (acc @ map (fragment_at n mid payload) [i..<fragment_count n payload])
     else Inl (FragmentationIndexOverflow (-1)))"
  using assms
proof (induction "fragment_count n payload - i" arbitrary: i c acc)
  case 0
  then show ?case using fragment_count_step(1) by (metis diff_is_0_eq leD)
next
  case (Suc d)
  let ?k = "fragment_count n payload"
  note step = fragment_count_step [OF Suc.prems(1,4)]
  have i32: "i < 4294967296" using unat_bounds(3) [of "cursor_index c"] Suc.prems(3) by simp
  have upt: "[i..<?k] = i # [Suc i..<?k]" using step(1) by (simp add: upt_conv_Cons)
  show ?case
  proof (cases "Suc i = ?k")
    case True
    then show ?thesis using i32 by (simp add: build_loop_step [OF Suc.prems] upt)
  next
    case False
    then have more: "Suc i * n < length payload" using step(2) by simp
    show ?thesis
    proof (cases "checked_increment (cursor_index c)")
      case None
      then have "checked_inc_u32 (cursor_index c) = None" by (simp add: checked_increment_def)
      then have "i = 4294967295" "cursor_index c = -1"
        using Suc.prems(3) checked_inc_u32_None [of "cursor_index c"]
        by (simp, simp add: checked_inc_u32_def split: if_splits)
      with False step(1) None show ?thesis by (simp add: build_loop_step [OF Suc.prems])
    next
      case (Some j)
      have j: "unat j = Suc i"
        using unat_checked_inc_u32 [of "cursor_index c" j] Some Suc.prems(3)
        by (simp add: checked_increment_def)
      have "build_loop n mid payload (c\<lparr>cursor_offset := Suc i * n, cursor_index := j\<rparr>)
          (acc @ [fragment_at n mid payload i]) =
        (if ?k \<le> 4294967296
         then Inr ((acc @ [fragment_at n mid payload i]) @ map (fragment_at n mid payload) [Suc i..<?k])
         else Inl (FragmentationIndexOverflow (-1)))"
        using Suc.hyps(2) Suc.prems(1) j more by (intro Suc.hyps(1)) auto
      with False Some show ?thesis by (simp add: build_loop_step [OF Suc.prems] upt)
    qed
  qed
qed


text \<open>The whole behaviour of \<open>fragment_with_id\<close>.\<close>

lemma fragment_with_id_eq:
  assumes "0 < max_fragment_size f"
  shows "fragment_with_id f mid payload =
    (if fragment_count (max_fragment_size f) payload \<le> 4294967296
     then Inr \<lparr>fb_message_id = mid, fb_fragments = fragments_of (max_fragment_size f) mid payload\<rparr>
     else Inl (FragmentationIndexOverflow (-1)))"
proof (cases "payload = []")
  case True
  then show ?thesis
    by (simp add: fragment_with_id_def build_fragments_def build_fragments_from_def
        fragment_batch_new_def fragment_frame_new_def fragment_header_new_def fragments_of_def
        fragment_at_def fragment_count_def fragment_index_zero_def)
next
  case False
  then have "build_loop (max_fragment_size f) mid payload (fragment_cursor_new 0 fragment_index_zero) [] =
    (if fragment_count (max_fragment_size f) payload \<le> 4294967296
     then Inr (fragments_of (max_fragment_size f) mid payload)
     else Inl (FragmentationIndexOverflow (-1)))"
    using assms build_loop_eq [of "max_fragment_size f" "fragment_cursor_new 0 fragment_index_zero" 0]
    by (simp add: fragment_cursor_new_def fragment_index_zero_def fragments_of_def)
  with False show ?thesis
    by (simp add: fragment_with_id_def build_fragments_def build_fragments_from_def
        fragment_batch_new_def fragment_cursor_new_def)
qed

lemma length_fragments_of [simp]: "length (fragments_of n mid payload) = fragment_count n payload"
  by (simp add: fragments_of_def)

lemma concat_chunks: "concat (map (\<lambda>i. take n (drop (i * n) xs)) [0..<k]) = take (k * n) xs"
  by (induction k) (simp_all add: take_add add.commute [of n])

lemma concat_fragments_of:
  assumes "0 < n"
  shows "concat (map ff_payload (fragments_of n mid payload)) = payload"
proof -
  have "length payload \<le> fragment_count n payload * n"
  proof (rule ccontr)
    assume "\<not> length payload \<le> fragment_count n payload * n"
    then have "fragment_count n payload * n < length payload" by simp
    from fragment_count_step(1) [OF assms this] show False by simp
  qed
  moreover have "map ff_payload (fragments_of n mid payload) =
      map (\<lambda>i. take n (drop (i * n) payload)) [0..<fragment_count n payload]"
    by (simp add: fragments_of_def fragment_at_def)
  ultimately show ?thesis by (simp add: concat_chunks)
qed

lemma fragments_of_headers:
  "map ff_header (fragments_of n mid payload) =
     map (\<lambda>i. \<lparr>fh_message_id = mid, fh_fragment_index = word_of_nat i,
                fh_is_last_fragment = (Suc i = fragment_count n payload)\<rparr>) [0..<fragment_count n payload]"
  by (simp add: fragments_of_def fragment_at_def)

lemma fragment_count_small: "0 < n \<Longrightarrow> fragment_count n payload = 1 \<longleftrightarrow> length payload \<le> n"
  using fragment_count_step(2) [of n 0 payload] by (cases payload) (auto simp: fragment_count_def)

section \<open>Properties\<close>

text \<open>
  C24: Splitting succeeds exactly when the payload needs at most 2^32 fragments, and otherwise
  reports index overflow. A batch is never empty; its payloads concatenate to the original; every
  fragment carries the message identifier, the indices are 0, 1, 2, ... in order and only the last
  fragment is flagged as final; no payload exceeds the configured size, all but the last have
  exactly that size, and the number of fragments is the least possible.
\<close>

theorem fragment_with_id_correct:
  assumes "0 < max_fragment_size f"
  defines "n \<equiv> max_fragment_size f"
  shows "case fragment_with_id f mid payload of
      Inl e \<Rightarrow> e = FragmentationIndexOverflow (-1) \<and> 4294967296 * n < length payload
    | Inr b \<Rightarrow>
        fb_message_id b = mid \<and> fb_fragments b \<noteq> [] \<and>
        concat (map ff_payload (fb_fragments b)) = payload \<and>
        map ff_header (fb_fragments b) =
          map (\<lambda>i. \<lparr>fh_message_id = mid, fh_fragment_index = word_of_nat i,
                     fh_is_last_fragment = (Suc i = length (fb_fragments b))\<rparr>)
              [0..<length (fb_fragments b)] \<and>
        length (fb_fragments b) \<le> 4294967296 \<and>
        list_all (\<lambda>fr. length (ff_payload fr) = n) (butlast (fb_fragments b)) \<and>
        length (ff_payload (last (fb_fragments b))) \<le> n \<and>
        (ff_payload (last (fb_fragments b)) = [] \<longleftrightarrow> payload = [])"
proof (cases "fragment_count n payload \<le> 4294967296")
  case False
  have "4294967296 * n < length payload"
  proof (rule ccontr)
    assume "\<not> 4294967296 * n < length payload"
    then have "length payload + n - 1 < Suc 4294967296 * n" using assms(1) by (auto simp: n_def)
    then have "(length payload + n - 1) div n < Suc 4294967296"
      using assms(1) by (simp only: div_less_iff_less_mult n_def)
    with False show False by (simp add: fragment_count_def split: if_splits)
  qed
  with False show ?thesis by (simp add: fragment_with_id_eq [OF assms(1)] n_def)
next
  case True
  let ?k = "fragment_count n payload"
  have n: "0 < n" using assms(1) by (simp add: n_def)
  have k: "0 < ?k" by (rule fragment_count_pos [OF n])
  then obtain m where m: "?k = Suc m" by (cases ?k) auto
  have frs: "fragments_of n mid payload = map (fragment_at n mid payload) [0..<m] @ [fragment_at n mid payload m]"
    by (simp add: fragments_of_def m)
  have full: "Suc i * n < length payload" if "i < m" for i
  proof (rule ccontr)
    assume "\<not> Suc i * n < length payload"
    then have "length payload + n - 1 < Suc (Suc i) * n" using n by auto
    then have "(length payload + n - 1) div n < Suc (Suc i)" using n by (simp only: div_less_iff_less_mult)
    with that m show False by (auto simp: fragment_count_def split: if_splits)
  qed
  have "m * n < length payload" if "payload \<noteq> []"
    using full [of "m - 1"] that by (cases m) auto
  then have last: "ff_payload (fragment_at n mid payload m) = [] \<longleftrightarrow> payload = []"
    using n by (cases "payload = []") (auto simp: fragment_at_def)
  have "list_all (\<lambda>fr. length (ff_payload fr) = n) (map (fragment_at n mid payload) [0..<m])"
    using full by (force simp: list_all_iff fragment_at_def min_def)
  then show ?thesis
    using True last concat_fragments_of [OF n] fragments_of_headers
    by (simp add: fragment_with_id_eq [OF assms(1)] n_def [symmetric])
       (simp add: frs fragment_at_def)
qed

theorem fragment_with_id_correct_witness:
  "fragment_with_id (fragmenter_new 2) 5 [1, 2, 3] =
     Inr \<lparr>fb_message_id = 5, fb_fragments =
       [\<lparr>ff_header = \<lparr>fh_message_id = 5, fh_fragment_index = 0, fh_is_last_fragment = False\<rparr>, ff_payload = [1, 2]\<rparr>,
        \<lparr>ff_header = \<lparr>fh_message_id = 5, fh_fragment_index = 1, fh_is_last_fragment = True\<rparr>, ff_payload = [3]\<rparr>]\<rparr> \<and>
   (case fragment_with_id (fragmenter_new 2) 5 [1, 2, 3] of
      Inl e \<Rightarrow> False | Inr b \<Rightarrow> concat (map ff_payload (fb_fragments b)) = [1, 2, 3])"
proof -
  have pos: "0 < max_fragment_size (fragmenter_new 2)"
    by (simp add: fragmenter_new_def with_starting_id_def)
  have run: "fragment_with_id (fragmenter_new 2) 5 [1, 2, 3] =
     Inr \<lparr>fb_message_id = 5, fb_fragments =
       [\<lparr>ff_header = \<lparr>fh_message_id = 5, fh_fragment_index = 0, fh_is_last_fragment = False\<rparr>, ff_payload = [1, 2]\<rparr>,
        \<lparr>ff_header = \<lparr>fh_message_id = 5, fh_fragment_index = 1, fh_is_last_fragment = True\<rparr>, ff_payload = [3]\<rparr>]\<rparr>"
    by (simp add: fragment_with_id_eq [OF pos])
       (simp add: fragmenter_new_def with_starting_id_def fragments_of_def fragment_count_def
          fragment_at_def upt_rec)
  show ?thesis
    using run fragment_with_id_correct [OF pos, where mid = 5 and payload = "[1, 2, 3]"] by simp
qed

end
