(* ===== verification/Fragment_Payload.thy ===== *)
theory Fragment_Payload
  imports Fragmenter Byte_Order
begin

text \<open>
  Fragments embedded in packet payloads (\<open>src/fragment/payload.rs\<close>) and the configuration derived
  from a frame budget (\<open>src/fragment/config.rs\<close>). The header is serialised by the \<open>bincode\<close> crate,
  the argument \<open>hc\<close>: \<open>encode_to_vec\<close> and \<open>borrow_decode_from_slice\<close> at type \<open>FragmentHeader\<close> with
  \<open>config::standard()\<close>. \<open>bincode_documented\<close> is what its specification promises of them: encoding
  succeeds, decoding a slice that begins with an encoding gives the value back and the number of
  bytes it took, and the fields are laid out in order as variable-length integers (one byte up to
  250, then a marker byte and two, four or eight bytes) and a boolean byte.
\<close>

record header_codec =
  encode_header :: "fragment_header \<Rightarrow> encode_error + bytes"
  decode_header :: "bytes \<Rightarrow> decode_error + fragment_header \<times> usize"

definition varint_len :: "nat \<Rightarrow> nat" where
  "varint_len v = (if v < 251 then 1 else if v < 65536 then 3 else if v < 4294967296 then 5 else 9)"

definition header_len :: "fragment_header \<Rightarrow> nat" where
  "header_len h = varint_len (unat (fh_message_id h)) + varint_len (unat (fh_fragment_index h)) + 1"

definition bincode_documented :: "header_codec \<Rightarrow> bool" where
  "bincode_documented hc \<longleftrightarrow>
     (\<forall>h. \<exists>bs. encode_header hc h = Inr bs \<and> length bs = header_len h \<and>
        (\<forall>rest. decode_header hc (bs @ rest) = Inr (h, length bs)))"

section \<open>Encoding and decoding\<close>

definition FRAGMENT_MAGIC :: bytes where
  "FRAGMENT_MAGIC = [0x46, 0x52, 0x41, 0x47]"

text \<open>\<open>payload.get(i).copied()\<close>.\<close>

definition slice_index :: "'a list \<Rightarrow> nat \<Rightarrow> 'a option" where
  "slice_index xs i = (if i < length xs then Some (xs ! i) else None)"

text \<open>\<open>fragment_overhead\<close> panics (\<open>None\<close>) when the constant header cannot be encoded.\<close>

definition fragment_overhead :: "header_codec \<Rightarrow> usize option" where
  "fragment_overhead hc =
     (case encode_header hc (fragment_header_new 0 fragment_index_zero False) of
        Inl _ \<Rightarrow> None
      | Inr header_bytes \<Rightarrow>
          (let overhead = length FRAGMENT_MAGIC + 2 + length header_bytes
           in if overhead = 0 then None else Some overhead))"

definition encode_fragment_payload ::
    "bytes_api \<Rightarrow> header_codec \<Rightarrow> fragment_header \<Rightarrow> bytes \<Rightarrow> encode_error + bytes" where
  "encode_fragment_payload api hc h payload =
     (case encode_header hc h of
        Inl e \<Rightarrow> Inl e
      | Inr header_bytes \<Rightarrow>
          if length header_bytes < 65536
          then Inr (FRAGMENT_MAGIC @ write_network_u16 api (word_of_nat (length header_bytes)) @
                    header_bytes @ payload)
          else Inl (EncodeOther ''fragment header length must fit within u16::MAX''))"

definition decode_fragment_payload ::
    "bytes_api \<Rightarrow> header_codec \<Rightarrow> bytes \<Rightarrow> decode_error + (fragment_header \<times> bytes) option" where
  "decode_fragment_payload api hc payload =
     (if length payload < length FRAGMENT_MAGIC + 2 then Inr None
      else if slice_get payload 0 (length FRAGMENT_MAGIC) \<noteq> Some FRAGMENT_MAGIC then Inr None
      else let header_len_offset = length FRAGMENT_MAGIC
           in case slice_index payload header_len_offset of
             None \<Rightarrow> Inl (UnexpectedEnd 0)
           | Some len_hi \<Rightarrow>
         case slice_index payload (header_len_offset + 1) of
           None \<Rightarrow> Inl (UnexpectedEnd 0)
         | Some len_lo \<Rightarrow>
             (let hlen = unat (read_network_u16 api [len_hi, len_lo]);
                  header_start = header_len_offset + 2;
                  header_end = header_start + hlen
              in case slice_get payload header_start header_end of
                None \<Rightarrow> Inl (UnexpectedEnd (saturating_sub_usize header_end (length payload)))
              | Some header_bytes \<Rightarrow>
                  (case decode_header hc header_bytes of
                     Inl e \<Rightarrow> Inl e
                   | Inr (h, consumed) \<Rightarrow>
                       if consumed \<noteq> hlen then Inl (OtherString ''fragment header length mismatch'')
                       else Inr (Some (h, case slice_get payload header_end (length payload) of
                                            None \<Rightarrow> [] | Some remainder \<Rightarrow> remainder)))))"

section \<open>Configuration\<close>

definition DEFAULT_MAX_CONCURRENT_PARTIALS :: usize where "DEFAULT_MAX_CONCURRENT_PARTIALS = 64"
definition DEFAULT_FRAGMENT_BUFFERED_BYTES_MULTIPLIER :: usize where
  "DEFAULT_FRAGMENT_BUFFERED_BYTES_MULTIPLIER = 64"
definition ENVELOPE_GUARD_BYTES :: usize where "ENVELOPE_GUARD_BYTES = 32"

record fragmentation_config =
  cfg_fragment_payload_cap :: usize
  cfg_max_message_size :: usize
  cfg_max_concurrent_partials :: "usize option"
  cfg_max_buffered_bytes :: "usize option"
  cfg_reassembly_timeout :: duration

text \<open>\<open>NonZeroUsize::new\<close>.\<close>

definition non_zero_usize :: "usize \<Rightarrow> usize option" where
  "non_zero_usize n = (if n = 0 then None else Some n)"

text \<open>The outer option is the panic of \<open>fragment_overhead\<close>, the inner one the function's result.\<close>

definition for_frame_budget ::
    "header_codec \<Rightarrow> usize \<Rightarrow> usize \<Rightarrow> duration \<Rightarrow> fragmentation_config option option" where
  "for_frame_budget hc frame_budget max_message_size reassembly_timeout =
     map_option (\<lambda>overhead.
       if frame_budget \<le> overhead then None
       else let available = saturating_sub_usize frame_budget (overhead + ENVELOPE_GUARD_BYTES)
            in if available = 0 then None
               else map_option (\<lambda>cap.
                 \<lparr>cfg_fragment_payload_cap = cap,
                  cfg_max_message_size = max_message_size,
                  cfg_max_concurrent_partials =
                    non_zero_usize (min frame_budget DEFAULT_MAX_CONCURRENT_PARTIALS),
                  cfg_max_buffered_bytes =
                    non_zero_usize (max (saturating_mul_usize frame_budget
                      DEFAULT_FRAGMENT_BUFFERED_BYTES_MULTIPLIER) max_message_size),
                  cfg_reassembly_timeout = reassembly_timeout\<rparr>) (non_zero_usize available))
       (fragment_overhead hc)"

definition encoded_fragment_ceiling :: "header_codec \<Rightarrow> fragmentation_config \<Rightarrow> usize option" where
  "encoded_fragment_ceiling hc c =
     map_option (\<lambda>overhead. cfg_fragment_payload_cap c + overhead) (fragment_overhead hc)"

section \<open>An implementation of the serialisation format\<close>

text \<open>Used only to evaluate the models on concrete inputs.\<close>

definition varint_encode :: "nat \<Rightarrow> bytes" where
  "varint_encode v =
     (if v < 251 then [word_of_nat v] else if v < 65536 then 251 # le_bytes 2 v
      else if v < 4294967296 then 252 # le_bytes 4 v else 253 # le_bytes 8 v)"

definition varint_decode :: "bytes \<Rightarrow> (nat \<times> bytes) option" where
  "varint_decode bs =
     (case bs of
        [] \<Rightarrow> None
      | b # r \<Rightarrow>
          if unat b < 251 then Some (unat b, r)
          else let k = (if b = 251 then 2 else if b = 252 then 4 else 8)
               in if length r < k then None else Some (le_val (take k r), drop k r))"

definition reference_bincode :: header_codec where
  "reference_bincode =
     \<lparr>encode_header = (\<lambda>h. Inr (varint_encode (unat (fh_message_id h)) @
        varint_encode (unat (fh_fragment_index h)) @ [if fh_is_last_fragment h then 1 else 0])),
      decode_header = (\<lambda>bs. case varint_decode bs of
        None \<Rightarrow> Inl (UnexpectedEnd 1)
      | Some (m, r) \<Rightarrow> (case varint_decode r of
          None \<Rightarrow> Inl (UnexpectedEnd 1)
        | Some (i, r') \<Rightarrow> (case r' of
            [] \<Rightarrow> Inl (UnexpectedEnd 1)
          | b # r'' \<Rightarrow> Inr (\<lparr>fh_message_id = word_of_nat m, fh_fragment_index = word_of_nat i,
                                 fh_is_last_fragment = (b \<noteq> 0)\<rparr>, length bs - length r''))))\<rparr>"


lemma length_varint_encode: "length (varint_encode v) = varint_len v"
  by (simp add: varint_encode_def varint_len_def)

lemma varint_roundtrip:
  assumes "v < 18446744073709551616"
  shows "varint_decode (varint_encode v @ r) = Some (v, r)"
  using assms
  by (simp add: varint_encode_def varint_decode_def unat_of_nat le_val_le_bytes Let_def)

lemma reference_bincode_documented: "bincode_documented reference_bincode"
proof -
  have "varint_decode (varint_encode (unat (m :: u64)) @ r) = Some (unat m, r)"
    "varint_decode (varint_encode (unat (i :: u32)) @ r) = Some (unat i, r)" for m i r
    using unat_bounds(3) [of i] unat_bounds(4) [of m] by (simp_all add: varint_roundtrip)
  then show ?thesis
    by (simp add: bincode_documented_def reference_bincode_def header_len_def length_varint_encode)
qed

lemma bincode_documentedE:
  assumes "bincode_documented hc"
  obtains bs where "encode_header hc h = Inr bs" "length bs = header_len h"
    "\<And>rest. decode_header hc (bs @ rest) = Inr (h, length bs)"
  using assms unfolding bincode_documented_def by blast

lemma header_len_bounds: "3 \<le> header_len h" "header_len h \<le> 15"
  using unat_bounds(3) [of "fh_fragment_index h"] by (simp_all add: header_len_def varint_len_def)

lemma fragment_overhead_eq:
  assumes "bincode_documented hc"
  shows "fragment_overhead hc = Some 9"
proof -
  let ?h = "fragment_header_new 0 fragment_index_zero False"
  obtain bs where "encode_header hc ?h = Inr bs" "length bs = header_len ?h"
    using assms by (rule bincode_documentedE)
  moreover have "header_len ?h = 3"
    by (simp add: header_len_def varint_len_def fragment_header_new_def fragment_index_zero_def)
  ultimately show ?thesis by (simp add: fragment_overhead_def FRAGMENT_MAGIC_def)
qed

lemma encode_fragment_payload_eq:
  assumes "bytes_documented api" and "encode_header hc h = Inr hb" and "length hb < 65536"
  shows "encode_fragment_payload api hc h payload =
    Inr (FRAGMENT_MAGIC @ be_bytes 2 (length hb) @ hb @ payload)"
  using assms by (simp add: encode_fragment_payload_def network_defs bytes_documentedD unat_of_nat)

lemma decode_fragment_payload_framed:
  assumes api: "bytes_documented api" and "length hb < 65536"
  shows "decode_fragment_payload api hc (FRAGMENT_MAGIC @ be_bytes 2 (length hb) @ hb @ payload) =
    (case decode_header hc hb of
       Inl e \<Rightarrow> Inl e
     | Inr (h, consumed) \<Rightarrow>
         if consumed \<noteq> length hb then Inl (OtherString ''fragment header length mismatch'')
         else Inr (Some (h, payload)))"
proof -
  obtain hi lo where l: "be_bytes 2 (length hb) = [hi, lo]"
    using length_be_bytes [of 2 "length hb"]
    by (cases "be_bytes 2 (length hb)" rule: remdups_adj.cases) auto
  have n: "unat (read_network_u16 api [hi, lo]) = length hb"
    using assms(2) be_val_be_bytes [of 2 "length hb"]
    by (simp add: network_defs bytes_documentedD(4) [OF api] l)
  have magic: "length FRAGMENT_MAGIC = 4" by (simp add: FRAGMENT_MAGIC_def)
  have "slice_get (pre @ hb @ payload) 6 (6 + length hb) = Some hb \<and>
      slice_get (pre @ hb @ payload) (6 + length hb) (6 + length hb + length payload) = Some payload"
    if "length pre = 6" for pre :: bytes
    using that by (simp add: slice_get_def)
  from this [of "FRAGMENT_MAGIC @ [hi, lo]"]
  have "slice_get (FRAGMENT_MAGIC @ [hi, lo] @ hb @ payload) 6 (6 + length hb) = Some hb"
    "slice_get (FRAGMENT_MAGIC @ [hi, lo] @ hb @ payload) (6 + length hb)
       (6 + length hb + length payload) = Some payload"
    by (simp_all add: magic)
  moreover have
    "slice_get (FRAGMENT_MAGIC @ [hi, lo] @ hb @ payload) 0 4 = Some FRAGMENT_MAGIC"
    "slice_index (FRAGMENT_MAGIC @ [hi, lo] @ hb @ payload) 4 = Some hi"
    "slice_index (FRAGMENT_MAGIC @ [hi, lo] @ hb @ payload) 5 = Some lo"
    by (simp_all add: slice_get_def slice_index_def FRAGMENT_MAGIC_def)
  ultimately show ?thesis
    by (simp add: decode_fragment_payload_def magic n l Let_def add.assoc split: sum.split prod.split)
qed

lemma fragment_payload_codec:
  assumes "bytes_documented api" and "bincode_documented hc"
  obtains out where "encode_fragment_payload api hc h payload = Inr out"
    "length out = 6 + header_len h + length payload"
    "decode_fragment_payload api hc out = Inr (Some (h, payload))"
proof -
  obtain hb where hb: "encode_header hc h = Inr hb" "length hb = header_len h"
    "decode_header hc (hb @ []) = Inr (h, length hb)"
    using assms(2) by (metis bincode_documentedE)
  have small: "length hb < 65536" using header_len_bounds(2) [of h] hb(2) by simp
  show ?thesis
    using encode_fragment_payload_eq [OF assms(1) hb(1) small]
      decode_fragment_payload_framed [OF assms(1) small, of hc payload] hb
    by (intro that) (simp_all add: FRAGMENT_MAGIC_def)
qed

lemma decode_fragment_payload_None:
  "decode_fragment_payload api hc payload = Inr None \<longleftrightarrow>
     length payload < 6 \<or> take 4 payload \<noteq> FRAGMENT_MAGIC"
proof -
  have "length FRAGMENT_MAGIC = 4" by (simp add: FRAGMENT_MAGIC_def)
  then show ?thesis
    by (auto simp: decode_fragment_payload_def slice_get_def Let_def
        split: if_splits option.splits sum.splits prod.splits)
qed

lemma for_frame_budget_eq:
  assumes "bincode_documented hc" and "0 < max_message_size"
  shows "for_frame_budget hc budget max_message_size timeout = Some (if budget \<le> 41 then None else Some
    \<lparr>cfg_fragment_payload_cap = budget - 41, cfg_max_message_size = max_message_size,
     cfg_max_concurrent_partials = Some (min budget 64),
     cfg_max_buffered_bytes = Some (max (saturating_mul_usize budget 64) max_message_size),
     cfg_reassembly_timeout = timeout\<rparr>)"
  using assms(2)
  by (auto simp: for_frame_budget_def fragment_overhead_eq [OF assms(1)] saturating_sub_usize_def
      ENVELOPE_GUARD_BYTES_def DEFAULT_MAX_CONCURRENT_PARTIALS_def
      DEFAULT_FRAGMENT_BUFFERED_BYTES_MULTIPLIER_def non_zero_usize_def)

section \<open>Properties\<close>

text \<open>
  A fragment embedded in a packet payload is always decoded to the same header and the same
  bytes; and a payload is treated as an ordinary one exactly when it is shorter than six bytes or
  does not begin with the marker.
\<close>

lemma fragment_payload_roundtrip:
  assumes "bytes_documented api" and "bincode_documented hc"
  shows "(\<exists>out. encode_fragment_payload api hc h payload = Inr out \<and>
            decode_fragment_payload api hc out = Inr (Some (h, payload))) \<and>
    (decode_fragment_payload api hc raw = Inr None \<longleftrightarrow>
       length raw < 6 \<or> take 4 raw \<noteq> FRAGMENT_MAGIC)"
  using fragment_payload_codec [OF assms, of h payload] decode_fragment_payload_None by metis

text \<open>
  C31: A configuration derived from a frame budget exists exactly when the budget exceeds 41
  bytes. With it, every fragment of every payload, encoded with its marker and header, fits the
  budget with at least 20 bytes to spare for the envelope around it, and a message of the maximum
  size fits the buffer limit; at most 64 partial messages are retained.
\<close>

theorem frame_budget_sufficient:
  assumes "bytes_documented api" and "bincode_documented hc" and "0 < max_message_size"
  shows "\<exists>r. for_frame_budget hc budget max_message_size timeout = Some r \<and>
    (case r of
       None \<Rightarrow> budget \<le> 41
     | Some c \<Rightarrow> 41 < budget \<and> 0 < cfg_fragment_payload_cap c \<and>
         (\<forall>mid payload b fr. fragment_with_id (fragmenter_new (cfg_fragment_payload_cap c)) mid payload = Inr b \<and>
            fr \<in> set (fb_fragments b) \<longrightarrow>
            (\<exists>out. encode_fragment_payload api hc (ff_header fr) (ff_payload fr) = Inr out \<and>
                   length out + 20 \<le> budget)) \<and>
         (\<exists>m. cfg_max_buffered_bytes c = Some m \<and> max_message_size \<le> m) \<and>
         (\<exists>m. cfg_max_concurrent_partials c = Some m \<and> 0 < m \<and> m \<le> 64))"
proof (cases "budget \<le> 41")
  case True
  then show ?thesis by (simp add: for_frame_budget_eq assms)
next
  case False
  let ?f = "fragmenter_new (budget - 41)"
  have max: "max_fragment_size ?f = budget - 41"
    by (simp add: fragmenter_new_def with_starting_id_def)
  have "\<exists>out. encode_fragment_payload api hc (ff_header fr) (ff_payload fr) = Inr out \<and>
      length out + 20 \<le> budget"
    if "fragment_with_id ?f mid payload = Inr b" and fr: "fr \<in> set (fb_fragments b)" for mid payload b fr
  proof -
    have "fb_fragments b = fragments_of (budget - 41) mid payload"
      using that(1) False by (auto simp: fragment_with_id_eq max split: if_splits)
    with fr have "length (ff_payload fr) \<le> budget - 41"
      by (auto simp: fragments_of_def fragment_at_def)
    moreover obtain out where "encode_fragment_payload api hc (ff_header fr) (ff_payload fr) = Inr out"
      "length out = 6 + header_len (ff_header fr) + length (ff_payload fr)"
      using fragment_payload_codec [OF assms(1,2)] by metis
    ultimately show ?thesis using header_len_bounds(2) [of "ff_header fr"] False by auto
  qed
  then show ?thesis using False by (auto simp: for_frame_budget_eq assms)
qed

theorem frame_budget_sufficient_witness:
  "\<exists>c. for_frame_budget reference_bincode 1024 4096 30 = Some (Some c) \<and> cfg_fragment_payload_cap c = 983 \<and>
     (\<exists>m. cfg_max_buffered_bytes c = Some m \<and> 4096 \<le> m)"
  using frame_budget_sufficient [OF reference_bytes_documented reference_bincode_documented,
      of 4096 1024 30]
  by (auto simp: for_frame_budget_eq [OF reference_bincode_documented])

text \<open>
  \<open>encoded_fragment_ceiling\<close>, the fragment size the configuration advertises, counts the
  header of message 0 and fragment 0. A fragment of maximal payload stays within it exactly when
  both its message identifier and its index are at most 250; larger ones exceed it by up to
  twelve bytes.
\<close>

lemma encoded_fragment_ceiling_exact:
  assumes "bytes_documented api" and "bincode_documented hc"
    and "length payload = cfg_fragment_payload_cap c"
  shows "\<exists>ceiling out. encoded_fragment_ceiling hc c = Some ceiling \<and>
    encode_fragment_payload api hc h payload = Inr out \<and> length out \<le> ceiling + 12 \<and>
    (length out \<le> ceiling \<longleftrightarrow> unat (fh_message_id h) \<le> 250 \<and> unat (fh_fragment_index h) \<le> 250)"
proof -
  obtain out where "encode_fragment_payload api hc h payload = Inr out"
    "length out = 6 + header_len h + length payload"
    using fragment_payload_codec [OF assms(1,2)] by metis
  then show ?thesis
    using assms(3) header_len_bounds(2) [of h]
    by (auto simp: encoded_fragment_ceiling_def fragment_overhead_eq [OF assms(2)] header_len_def
        varint_len_def split: if_splits)
qed

end
