(* ===== verification/Reassembler.thy ===== *)
theory Reassembler
  imports Fragment_Core "HOL-Library.Sublist"
begin

text \<open>
  Inbound reassembly: \<open>src/fragment/reassembler/{mod,budget,first_fragment}.rs\<close>. The state is the
  byte budget, the timeout and the map from message identifiers to partial messages. Clock
  readings are arguments. An entry handle of the map (\<open>OccupiedEntry\<close>, \<open>VacantEntry\<close>) is the map
  together with the key and, when occupied, the value; mutation through the handle is an
  insertion under the same key. \<open>release_bytes\<close> subtracts with the wrap-around of a release build;
  the invariant shows that it never wraps, so the debug assertion in it never fires either.
\<close>

record partial_message =
  pm_series :: fragment_series
  pm_buffer :: bytes
  pm_started_at :: instant

record reassembled_message =
  rm_message_id :: message_id
  rm_payload :: bytes

record reassembly_budget =
  rb_max_message_size :: usize
  rb_max_concurrent_partials :: "usize option"
  rb_max_buffered_bytes :: "usize option"
  rb_buffered_bytes :: usize

record reassembler =
  ra_budget :: reassembly_budget
  ra_timeout :: duration
  ra_buffers :: "(message_id, partial_message) hm"

type_synonym push_result = "reassembly_error + reassembled_message option"

section \<open>Budget\<close>

definition reassembly_budget_new :: "usize \<Rightarrow> usize option \<Rightarrow> usize option \<Rightarrow> reassembly_budget" where
  "reassembly_budget_new m c b =
     \<lparr>rb_max_message_size = m, rb_max_concurrent_partials = c, rb_max_buffered_bytes = b,
      rb_buffered_bytes = 0\<rparr>"

definition assert_within_message_limit ::
    "reassembly_budget \<Rightarrow> message_id \<Rightarrow> usize \<Rightarrow> reassembly_error + unit" where
  "assert_within_message_limit b mid attempted =
     (if rb_max_message_size b < attempted
      then Inl (MessageTooLarge mid attempted (rb_max_message_size b)) else Inr ())"

definition assert_within_partial_limit :: "reassembly_budget \<Rightarrow> usize \<Rightarrow> reassembly_error + unit" where
  "assert_within_partial_limit b buffered_partials =
     (case rb_max_concurrent_partials b of
        None \<Rightarrow> Inr ()
      | Some limit \<Rightarrow>
          (let attempted = saturating_add_usize buffered_partials 1
           in if limit < attempted then Inl (TooManyConcurrentPartials attempted limit) else Inr ()))"

definition add_bytes :: "reassembly_budget \<Rightarrow> usize \<Rightarrow> reassembly_error + reassembly_budget" where
  "add_bytes b additional =
     (case checked_add_usize (rb_buffered_bytes b) additional of
        None \<Rightarrow> Inl (AggregateBufferCapExceeded usize_max
                  (case rb_max_buffered_bytes b of None \<Rightarrow> usize_max | Some l \<Rightarrow> l))
      | Some attempted \<Rightarrow>
          (case rb_max_buffered_bytes b of
             None \<Rightarrow> Inr (b\<lparr>rb_buffered_bytes := attempted\<rparr>)
           | Some limit \<Rightarrow>
               if limit < attempted then Inl (AggregateBufferCapExceeded attempted limit)
               else Inr (b\<lparr>rb_buffered_bytes := attempted\<rparr>)))"

definition release_bytes :: "usize \<Rightarrow> reassembly_budget \<Rightarrow> reassembly_budget" where
  "release_bytes n b =
     b\<lparr>rb_buffered_bytes :=
        (if n \<le> rb_buffered_bytes b then rb_buffered_bytes b - n
         else rb_buffered_bytes b + (usize_max + 1) - n)\<rparr>"

text \<open>\<open>remove_partial\<close>: the entry's value is \<open>p\<close>.\<close>

definition remove_partial ::
    "reassembly_budget \<Rightarrow> (message_id, partial_message) hm \<Rightarrow> message_id \<Rightarrow> partial_message \<Rightarrow>
     reassembly_budget \<times> (message_id, partial_message) hm" where
  "remove_partial b bufs mid p = (release_bytes (length (pm_buffer p)) b, hm_remove mid bufs)"

section \<open>Reassembler\<close>

definition partial_message_new :: "fragment_series \<Rightarrow> bytes \<Rightarrow> instant \<Rightarrow> partial_message" where
  "partial_message_new s payload started_at =
     \<lparr>pm_series = s, pm_buffer = payload, pm_started_at = started_at\<rparr>"

definition partial_message_push :: "bytes \<Rightarrow> partial_message \<Rightarrow> partial_message" where
  "partial_message_push payload p = p\<lparr>pm_buffer := pm_buffer p @ payload\<rparr>"

definition reassembled_message_new :: "message_id \<Rightarrow> bytes \<Rightarrow> reassembled_message" where
  "reassembled_message_new mid payload = \<lparr>rm_message_id = mid, rm_payload = payload\<rparr>"

definition reassembler_new :: "usize \<Rightarrow> duration \<Rightarrow> usize option \<Rightarrow> usize option \<Rightarrow> reassembler" where
  "reassembler_new m timeout c b =
     \<lparr>ra_budget = reassembly_budget_new m c b, ra_timeout = timeout, ra_buffers = []\<rparr>"

definition append_and_maybe_complete ::
    "reassembly_budget \<Rightarrow> (message_id, partial_message) hm \<Rightarrow> message_id \<Rightarrow> partial_message \<Rightarrow>
     bytes \<Rightarrow> bool \<Rightarrow> reassembly_budget \<times> (message_id, partial_message) hm \<times> push_result" where
  "append_and_maybe_complete b bufs mid p payload completes =
     (case checked_add_usize (length (pm_buffer p)) (length payload) of
        None \<Rightarrow>
          (let (b', bufs') = remove_partial b bufs mid p
           in (b', bufs', Inl (MessageTooLarge mid usize_max (rb_max_message_size b))))
      | Some attempted \<Rightarrow>
          (case assert_within_message_limit b mid attempted of
             Inl e \<Rightarrow> (let (b', bufs') = remove_partial b bufs mid p in (b', bufs', Inl e))
           | Inr _ \<Rightarrow>
               (case add_bytes b (length payload) of
                  Inl e \<Rightarrow> (let (b', bufs') = remove_partial b bufs mid p in (b', bufs', Inl e))
                | Inr b1 \<Rightarrow>
                    (let p' = partial_message_push payload p;
                         bufs1 = hm_insert mid p' bufs
                     in if completes
                        then let (b', bufs') = remove_partial b1 bufs1 mid p'
                             in (b', bufs', Inr (Some (reassembled_message_new mid (pm_buffer p'))))
                        else (b1, bufs1, Inr None)))))"

definition push_existing_fragment ::
    "reassembly_budget \<Rightarrow> (message_id, partial_message) hm \<Rightarrow> message_id \<Rightarrow> partial_message \<Rightarrow>
     fragment_header \<Rightarrow> bytes \<Rightarrow> reassembly_budget \<times> (message_id, partial_message) hm \<times> push_result" where
  "push_existing_fragment b bufs mid p h payload =
     (let (series', status) = series_accept (pm_series p) h;
          p' = p\<lparr>pm_series := series'\<rparr>;
          bufs' = hm_insert mid p' bufs
      in case status of
           Inr Incomplete \<Rightarrow> append_and_maybe_complete b bufs' mid p' payload False
         | Inr Duplicate \<Rightarrow> (b, bufs', Inr None)
         | Inr Complete \<Rightarrow> append_and_maybe_complete b bufs' mid p' payload True
         | Inl e \<Rightarrow> (let (b', bufs'') = remove_partial b bufs' mid p'
                     in (b', bufs'', Inl (ReassemblyFragment e))))"

text \<open>\<open>push_first_fragment\<close> (\<open>first_fragment.rs\<close>).\<close>

definition push_first_fragment ::
    "reassembly_budget \<Rightarrow> usize \<Rightarrow> (message_id, partial_message) hm \<Rightarrow> fragment_header \<Rightarrow> bytes \<Rightarrow> instant \<Rightarrow>
     reassembly_budget \<times> (message_id, partial_message) hm \<times> push_result" where
  "push_first_fragment b buffered_partials bufs h payload now =
     (case start_with_first h of
        Inl e \<Rightarrow> (b, bufs, Inl (ReassemblyFragment e))
      | Inr (series, is_complete) \<Rightarrow>
          (case assert_within_message_limit b (fh_message_id h) (length payload) of
             Inl e \<Rightarrow> (b, bufs, Inl e)
           | Inr _ \<Rightarrow>
               if is_complete
               then (b, bufs, Inr (Some (reassembled_message_new (fh_message_id h) payload)))
               else (case assert_within_partial_limit b buffered_partials of
                 Inl e \<Rightarrow> (b, bufs, Inl e)
               | Inr _ \<Rightarrow>
                   (case add_bytes b (length payload) of
                      Inl e \<Rightarrow> (b, bufs, Inl e)
                    | Inr b' \<Rightarrow>
                        (b', hm_insert (fh_message_id h) (partial_message_new series payload now) bufs,
                         Inr None)))))"

text \<open>\<open>purge_expired_at\<close>: one pass of \<open>retain\<close>, which releases each expired entry on the way.\<close>

definition partial_expired :: "instant \<Rightarrow> duration \<Rightarrow> partial_message \<Rightarrow> bool" where
  "partial_expired now timeout p \<longleftrightarrow> timeout \<le> saturating_duration_since now (pm_started_at p)"

definition purge_expired_at :: "reassembler \<Rightarrow> instant \<Rightarrow> reassembler \<times> message_id list" where
  "purge_expired_at r now =
     (let expired = partial_expired now (ra_timeout r)
      in (r\<lparr>ra_budget := fold (\<lambda>(k, p) b. if expired p then release_bytes (length (pm_buffer p)) b else b)
                (ra_buffers r) (ra_budget r),
            ra_buffers := hm_retain (\<lambda>k p. \<not> expired p) (ra_buffers r)\<rparr>,
          map fst (filter (\<lambda>(k, p). expired p) (ra_buffers r))))"

definition push_at :: "reassembler \<Rightarrow> fragment_header \<Rightarrow> bytes \<Rightarrow> instant \<Rightarrow> reassembler \<times> push_result" where
  "push_at r h payload now =
     (let r1 = fst (purge_expired_at r now);
          buffered_partials = length (ra_buffers r1);
          (b', bufs', res) =
            (case hm_lookup (ra_buffers r1) (fh_message_id h) of
               Some p \<Rightarrow> push_existing_fragment (ra_budget r1) (ra_buffers r1) (fh_message_id h) p h payload
             | None \<Rightarrow> push_first_fragment (ra_budget r1) buffered_partials (ra_buffers r1) h payload now)
      in (r1\<lparr>ra_budget := b', ra_buffers := bufs'\<rparr>, res))"

definition buffered_len :: "reassembler \<Rightarrow> usize" where
  "buffered_len r = length (ra_buffers r)"

definition buffered_bytes :: "reassembler \<Rightarrow> usize" where
  "buffered_bytes r = rb_buffered_bytes (ra_budget r)"


section \<open>Byte accounting\<close>

text \<open>Bytes retained by the partial messages of a map.\<close>

abbreviation partial_weight :: "partial_message \<Rightarrow> nat" where
  "partial_weight p \<equiv> length (pm_buffer p)"

interpretation rw: weighted_map hm_lookup hm_insert hm_remove hm_retain "\<lambda>m. m" hm_invar partial_weight
  by unfold_locales

text \<open>
  The accounting invariant: the counter is the number of bytes retained, and the configured
  limits hold of the bytes, of the number of partial messages and of each of them. (A limit of
  \<open>usize::MAX\<close> partial messages is no limit: the count saturates there.)
\<close>

definition budget_inv :: "reassembly_budget \<Rightarrow> (message_id, partial_message) hm \<Rightarrow> bool" where
  "budget_inv b bufs \<longleftrightarrow>
     hm_invar bufs \<and>
     rb_buffered_bytes b = entries_weight partial_weight bufs \<and>
     rb_buffered_bytes b \<le> usize_max \<and>
     (case rb_max_buffered_bytes b of None \<Rightarrow> True | Some l \<Rightarrow> rb_buffered_bytes b \<le> l) \<and>
     (case rb_max_concurrent_partials b of None \<Rightarrow> True | Some l \<Rightarrow> l < usize_max \<longrightarrow> length bufs \<le> l) \<and>
     (\<forall>k p. hm_lookup bufs k = Some p \<longrightarrow> partial_weight p \<le> rb_max_message_size b)"

definition reassembler_inv :: "reassembler \<Rightarrow> bool" where
  "reassembler_inv r \<longleftrightarrow> budget_inv (ra_budget r) (ra_buffers r)"

definition same_limits :: "reassembly_budget \<Rightarrow> reassembly_budget \<Rightarrow> bool" where
  "same_limits b b' \<longleftrightarrow> rb_max_message_size b' = rb_max_message_size b \<and>
     rb_max_concurrent_partials b' = rb_max_concurrent_partials b \<and>
     rb_max_buffered_bytes b' = rb_max_buffered_bytes b"

lemma same_limits_release [simp]: "same_limits b (release_bytes n b)"
  by (simp add: same_limits_def release_bytes_def)

lemma same_limits_refl [simp]: "same_limits b b"
  by (simp add: same_limits_def)

lemma same_limits_trans: "same_limits a b \<Longrightarrow> same_limits b c \<Longrightarrow> same_limits a c"
  by (simp add: same_limits_def)

lemma add_bytes_Inr:
  "add_bytes b n = Inr b' \<longleftrightarrow>
     b' = b\<lparr>rb_buffered_bytes := rb_buffered_bytes b + n\<rparr> \<and> rb_buffered_bytes b + n \<le> usize_max \<and>
     (case rb_max_buffered_bytes b of None \<Rightarrow> True | Some l \<Rightarrow> rb_buffered_bytes b + n \<le> l)"
  by (auto simp: add_bytes_def checked_add_usize_def split: option.splits if_splits)

lemma add_bytes_limits: "add_bytes b n = Inr b' \<Longrightarrow> same_limits b b'"
  by (auto simp: add_bytes_Inr same_limits_def)

lemma remove_partial_inv:
  assumes "budget_inv b bufs" and "hm_lookup bufs mid = Some p"
    and "remove_partial b bufs mid p = (b', bufs')"
  shows "budget_inv b' bufs' \<and> same_limits b b' \<and> bufs' = hm_remove mid bufs \<and>
    rb_buffered_bytes b = rb_buffered_bytes b' + partial_weight p"
proof -
  have inv: "hm_invar bufs" and bytes: "rb_buffered_bytes b = entries_weight partial_weight bufs"
    using assms(1) by (simp_all add: budget_inv_def)
  note w = rw.weight_remove [OF inv assms(2)]
  note n = hm.size_remove [OF inv assms(2)]
  have out: "b' = release_bytes (partial_weight p) b" "bufs' = hm_remove mid bufs"
    using assms(3) by (simp_all add: remove_partial_def)
  have left: "rb_buffered_bytes b' = entries_weight partial_weight bufs'"
    "rb_buffered_bytes b = rb_buffered_bytes b' + partial_weight p"
    using w bytes by (simp_all add: out release_bytes_def)
  have sub: "hm_lookup bufs' k = Some q \<Longrightarrow> hm_lookup bufs k = Some q" for k q
    by (simp add: out hm.lookup_remove split: if_splits)
  have lim: "same_limits b b'" by (simp add: out)
  have "budget_inv b' bufs'"
    unfolding budget_inv_def
  proof (intro conjI)
    show "hm_invar bufs'" using inv by (simp add: out)
    show "rb_buffered_bytes b' \<le> usize_max" using assms(1) left(2) by (simp add: budget_inv_def)
    show "case rb_max_buffered_bytes b' of None \<Rightarrow> True | Some l \<Rightarrow> rb_buffered_bytes b' \<le> l"
      using assms(1) left(2) lim by (simp add: budget_inv_def same_limits_def split: option.splits)
    show "case rb_max_concurrent_partials b' of None \<Rightarrow> True | Some l \<Rightarrow> l < usize_max \<longrightarrow> length bufs' \<le> l"
      using assms(1) n lim by (auto simp: budget_inv_def same_limits_def out(2) split: option.splits)
    show "\<forall>k p. hm_lookup bufs' k = Some p \<longrightarrow> partial_weight p \<le> rb_max_message_size b'"
      using assms(1) sub lim unfolding budget_inv_def same_limits_def by metis
  qed (rule left(1))
  with lim left(2) out(2) show ?thesis by blast
qed

lemma replace_inv:
  assumes "budget_inv b bufs" and "hm_lookup bufs mid = Some p" and "partial_weight p' = partial_weight p"
  shows "budget_inv b (hm_insert mid p' bufs)"
proof -
  have inv: "hm_invar bufs" using assms(1) by (simp add: budget_inv_def)
  show ?thesis
    using assms(1,2) rw.weight_replace [OF inv assms(2), of p'] hm.size_replace [OF inv assms(2), of p'] inv
    by (auto simp: budget_inv_def hm.lookup_insert assms(3) split: option.splits)
qed

lemma grow_inv:
  assumes "budget_inv b bufs" and "hm_lookup bufs mid = Some p"
    and "partial_weight p + length payload \<le> rb_max_message_size b"
    and "add_bytes b (length payload) = Inr b'"
  shows "budget_inv b' (hm_insert mid (partial_message_push payload p) bufs)"
proof -
  have inv: "hm_invar bufs" using assms(1) by (simp add: budget_inv_def)
  let ?p = "partial_message_push payload p"
  have "partial_weight ?p = partial_weight p + length payload"
    by (simp add: partial_message_push_def)
  with assms rw.weight_replace [OF inv assms(2), of ?p] hm.size_replace [OF inv assms(2), of ?p] inv
  show ?thesis
    by (auto simp: budget_inv_def add_bytes_Inr hm.lookup_insert split: option.splits)
qed

lemma fresh_inv:
  assumes "budget_inv b bufs" and "hm_lookup bufs mid = None"
    and "assert_within_partial_limit b (length bufs) = Inr u"
    and "partial_weight p \<le> rb_max_message_size b"
    and "add_bytes b (partial_weight p) = Inr b'"
  shows "budget_inv b' (hm_insert mid p bufs)"
proof -
  have inv: "hm_invar bufs" using assms(1) by (simp add: budget_inv_def)
  with assms rw.weight_insert_fresh [OF inv assms(2), of p] hm.size_insert_fresh [OF inv assms(2), of p]
  show ?thesis
    by (auto simp: budget_inv_def add_bytes_Inr hm.lookup_insert assert_within_partial_limit_def
        saturating_add_usize_def Let_def split: option.splits if_splits)
qed


text \<open>
  What a step on behalf of one message guarantees: the accounting, the limits, every other
  message untouched, and nothing retained for this one after an error or a delivery.
\<close>

definition step_ok ::
    "message_id \<Rightarrow> reassembly_budget \<Rightarrow> (message_id, partial_message) hm \<Rightarrow>
     reassembly_budget \<times> (message_id, partial_message) hm \<times> push_result \<Rightarrow> bool" where
  "step_ok mid b bufs out \<longleftrightarrow>
     (case out of (b', bufs', res) \<Rightarrow>
        budget_inv b' bufs' \<and> same_limits b b' \<and>
        (\<forall>k. k \<noteq> mid \<longrightarrow> hm_lookup bufs' k = hm_lookup bufs k) \<and>
        (res \<noteq> Inr None \<longrightarrow> hm_lookup bufs' mid = None))"

lemma step_ok_remove:
  assumes "budget_inv b bufs" and "hm_lookup bufs mid = Some p"
  shows "step_ok mid b bufs (let (b', bufs') = remove_partial b bufs mid p in (b', bufs', res))"
proof -
  obtain b' bufs' where r: "remove_partial b bufs mid p = (b', bufs')" by fastforce
  from remove_partial_inv [OF assms r] show ?thesis
    by (auto simp: step_ok_def r hm.lookup_remove)
qed

lemma step_ok_frame:
  assumes "step_ok mid b bufs1 out" and "\<And>k. k \<noteq> mid \<Longrightarrow> hm_lookup bufs1 k = hm_lookup bufs k"
  shows "step_ok mid b bufs out"
  using assms by (auto simp: step_ok_def)

lemma step_ok_limits:
  assumes "step_ok mid b1 bufs out" and "same_limits b b1"
  shows "step_ok mid b bufs out"
  using assms by (auto simp: step_ok_def intro: same_limits_trans)

lemma append_step_ok:
  assumes inv: "budget_inv b bufs" and p: "hm_lookup bufs mid = Some p"
  shows "step_ok mid b bufs (append_and_maybe_complete b bufs mid p payload completes)"
proof -
  note remove = step_ok_remove [OF inv p]
  have "step_ok mid b bufs
      (let p' = partial_message_push payload p; bufs1 = hm_insert mid p' bufs
       in if completes then let (b', bufs') = remove_partial b1 bufs1 mid p'
                            in (b', bufs', Inr (Some (reassembled_message_new mid (pm_buffer p'))))
          else (b1, bufs1, Inr None))"
    if b1: "add_bytes b (length payload) = Inr b1"
      and size: "partial_weight p + length payload \<le> rb_max_message_size b" for b1
  proof -
    let ?p = "partial_message_push payload p" and ?bufs1 = "hm_insert mid (partial_message_push payload p) bufs"
    have grown: "budget_inv b1 ?bufs1" by (rule grow_inv [OF inv p size b1])
    have "step_ok mid b1 ?bufs1 (let (b', bufs') = remove_partial b1 ?bufs1 mid ?p in (b', bufs', res))" for res
      by (rule step_ok_remove [OF grown]) (simp add: hm.lookup_insert)
    then have "step_ok mid b bufs (let (b', bufs') = remove_partial b1 ?bufs1 mid ?p in (b', bufs', res))" for res
      by (rule step_ok_frame [OF step_ok_limits [OF _ add_bytes_limits [OF b1]]]) (simp add: hm.lookup_insert)
    then show ?thesis
      using grown add_bytes_limits [OF b1]
      by (auto simp: Let_def step_ok_def hm.lookup_insert)
  qed
  then show ?thesis
    using remove
    by (auto simp: append_and_maybe_complete_def assert_within_message_limit_def checked_add_usize_def
        split: sum.split)
qed

lemma push_existing_step_ok:
  assumes "budget_inv b bufs" and "hm_lookup bufs mid = Some p"
  shows "step_ok mid b bufs (push_existing_fragment b bufs mid p h payload)"
proof -
  obtain s' st where acc: "series_accept (pm_series p) h = (s', st)" by fastforce
  let ?p = "p\<lparr>pm_series := s'\<rparr>" and ?bufs = "hm_insert mid (p\<lparr>pm_series := s'\<rparr>) bufs"
  have inv: "budget_inv b ?bufs" by (rule replace_inv [OF assms]) simp
  have p: "hm_lookup ?bufs mid = Some ?p" by (simp add: hm.lookup_insert)
  have "step_ok mid b ?bufs (push_existing_fragment b bufs mid p h payload)"
    using append_step_ok [OF inv p] step_ok_remove [OF inv p] inv
    by (auto simp: push_existing_fragment_def acc Let_def step_ok_def
        split: sum.split fragment_status.split)
  then show ?thesis by (rule step_ok_frame) (simp add: hm.lookup_insert)
qed

lemma push_first_step_ok:
  assumes "budget_inv b bufs" and "hm_lookup bufs (fh_message_id h) = None"
  shows "step_ok (fh_message_id h) b bufs (push_first_fragment b (length bufs) bufs h payload now)"
  using assms fresh_inv [OF assms, of _ "partial_message_new _ payload now"] add_bytes_limits [of b "length payload"]
  by (auto simp: push_first_fragment_def step_ok_def assert_within_message_limit_def hm.lookup_insert
      partial_message_new_def split: sum.split prod.split)


lemma fold_release:
  assumes "entries_weight partial_weight (filter (\<lambda>(k, p). expired p) es) \<le> rb_buffered_bytes b"
  shows "fold (\<lambda>(k, p) b. if expired p then release_bytes (partial_weight p) b else b) es b =
    b\<lparr>rb_buffered_bytes := rb_buffered_bytes b - entries_weight partial_weight (filter (\<lambda>(k, p). expired p) es)\<rparr>"
  using assms
proof (induction es arbitrary: b)
  case Nil
  show ?case by simp
next
  case (Cons e es)
  obtain k p where e: "e = (k, p)" by (cases e)
  show ?case
  proof (cases "expired p")
    case True
    with Cons.prems have "partial_weight p \<le> rb_buffered_bytes b" by (simp add: e)
    with True Cons.prems Cons.IH [of "release_bytes (partial_weight p) b"] show ?thesis
      by (simp add: e release_bytes_def)
  next
    case False
    with Cons show ?thesis by (simp add: e)
  qed
qed

text \<open>Purging: the expired partial messages and exactly their bytes go.\<close>

lemma purge_expired_at_eq:
  assumes "reassembler_inv r"
  shows "purge_expired_at r now =
    (r\<lparr>ra_budget := (ra_budget r)\<lparr>rb_buffered_bytes :=
          entries_weight partial_weight (hm_retain (\<lambda>k p. \<not> partial_expired now (ra_timeout r) p) (ra_buffers r))\<rparr>,
       ra_buffers := hm_retain (\<lambda>k p. \<not> partial_expired now (ra_timeout r) p) (ra_buffers r)\<rparr>,
     map fst (filter (\<lambda>(k, p). partial_expired now (ra_timeout r) p) (ra_buffers r)))"
proof -
  let ?x = "partial_expired now (ra_timeout r)"
  let ?w = "entries_weight partial_weight"
  have flip: "(\<lambda>e. \<not> (case e of (k, p) \<Rightarrow> ?x p)) = (\<lambda>(k, p). \<not> ?x p)" by auto
  have total: "rb_buffered_bytes (ra_budget r) =
      ?w (filter (\<lambda>(k, p). ?x p) (ra_buffers r)) + ?w (hm_retain (\<lambda>k p. \<not> ?x p) (ra_buffers r))"
    using assms entries_weight_partition [of partial_weight "ra_buffers r" "\<lambda>(k, p). ?x p"]
    by (simp add: reassembler_inv_def budget_inv_def hm_retain_def flip)
  then have "?w (filter (\<lambda>(k, p). ?x p) (ra_buffers r)) \<le> rb_buffered_bytes (ra_budget r)" by simp
  from fold_release [OF this] total show ?thesis
    by (simp add: purge_expired_at_def Let_def)
qed

lemma purge_inv:
  assumes "reassembler_inv r" and "purge_expired_at r now = (r', evicted)"
  shows "reassembler_inv r' \<and> same_limits (ra_budget r) (ra_budget r') \<and> ra_timeout r' = ra_timeout r \<and>
    hm_lookup (ra_buffers r') k = (case hm_lookup (ra_buffers r) k of None \<Rightarrow> None
      | Some p \<Rightarrow> if partial_expired now (ra_timeout r) p then None else Some p)"
proof -
  have inv: "hm_invar (ra_buffers r)" using assms(1) by (simp add: reassembler_inv_def budget_inv_def)
  let ?bufs = "hm_retain (\<lambda>k p. \<not> partial_expired now (ra_timeout r) p) (ra_buffers r)"
  have lookup: "hm_lookup ?bufs k = (case hm_lookup (ra_buffers r) k of None \<Rightarrow> None
      | Some p \<Rightarrow> if partial_expired now (ra_timeout r) p then None else Some p)" for k
    using inv by (simp add: hm.lookup_retain split: option.split)
  then have sub: "hm_lookup ?bufs k = Some p \<Longrightarrow> hm_lookup (ra_buffers r) k = Some p" for k p
    by (simp split: option.splits if_splits)
  have le: "entries_weight partial_weight ?bufs \<le> rb_buffered_bytes (ra_budget r)"
    using assms(1) rw.weight_retain by (simp add: reassembler_inv_def budget_inv_def)
  have "budget_inv ((ra_budget r)\<lparr>rb_buffered_bytes := entries_weight partial_weight ?bufs\<rparr>) ?bufs"
    using assms(1) le hm.size_retain [of "\<lambda>k p. \<not> partial_expired now (ra_timeout r) p" "ra_buffers r"] sub inv
    unfolding reassembler_inv_def budget_inv_def
    by (auto split: option.splits)
  with assms(2) lookup show ?thesis
    by (auto simp: purge_expired_at_eq [OF assms(1)] reassembler_inv_def same_limits_def)
qed

lemma push_at_inv:
  assumes "reassembler_inv r" and "push_at r h payload now = (r', res)"
  shows "reassembler_inv r' \<and> same_limits (ra_budget r) (ra_budget r') \<and> ra_timeout r' = ra_timeout r \<and>
    (\<forall>k. k \<noteq> fh_message_id h \<longrightarrow>
       hm_lookup (ra_buffers r') k = (case hm_lookup (ra_buffers r) k of None \<Rightarrow> None
         | Some p \<Rightarrow> if partial_expired now (ra_timeout r) p then None else Some p)) \<and>
    (res \<noteq> Inr None \<longrightarrow> hm_lookup (ra_buffers r') (fh_message_id h) = None)"
proof -
  obtain r1 ev where purge: "purge_expired_at r now = (r1, ev)" by fastforce
  note p = purge_inv [OF assms(1) purge]
  have inv: "budget_inv (ra_budget r1) (ra_buffers r1)" using p by (simp add: reassembler_inv_def)
  let ?out = "case hm_lookup (ra_buffers r1) (fh_message_id h) of
      Some p \<Rightarrow> push_existing_fragment (ra_budget r1) (ra_buffers r1) (fh_message_id h) p h payload
    | None \<Rightarrow> push_first_fragment (ra_budget r1) (length (ra_buffers r1)) (ra_buffers r1) h payload now"
  have ok: "step_ok (fh_message_id h) (ra_budget r1) (ra_buffers r1) ?out"
    using push_existing_step_ok [OF inv] push_first_step_ok [OF inv] by (simp split: option.split)
  obtain b2 bufs2 res2 where out: "?out = (b2, bufs2, res2)" by (metis prod_cases3)
  have r': "r' = r1\<lparr>ra_budget := b2, ra_buffers := bufs2\<rparr>" "res = res2"
    using assms(2) by (simp_all add: push_at_def purge Let_def out)
  have lim: "same_limits (ra_budget r) b2"
    using ok p same_limits_trans unfolding out step_ok_def by blast
  from ok p lim show ?thesis
    unfolding out step_ok_def by (simp add: r' reassembler_inv_def)
qed

section \<open>The reassembler as a transition system\<close>

datatype reassembler_event = PushAt fragment_header bytes instant | PurgeAt instant

inductive reassembler_step :: "reassembler \<Rightarrow> reassembler_event \<Rightarrow> reassembler \<Rightarrow> bool" where
  push: "push_at r h payload now = (r', res) \<Longrightarrow> reassembler_step r (PushAt h payload now) r'"
| purge: "purge_expired_at r now = (r', evicted) \<Longrightarrow> reassembler_step r (PurgeAt now) r'"

inductive_cases reassembler_stepE [elim!]: "reassembler_step r e r'"

definition reassembler_start :: "usize \<Rightarrow> duration \<Rightarrow> usize option \<Rightarrow> usize option \<Rightarrow> reassembler \<Rightarrow> bool" where
  "reassembler_start m t c b r \<longleftrightarrow> r = reassembler_new m t c b"

text \<open>The invariant together with the limits the reassembler was created with.\<close>

definition reassembler_inv_for ::
    "usize \<Rightarrow> duration \<Rightarrow> usize option \<Rightarrow> usize option \<Rightarrow> reassembler \<Rightarrow> bool" where
  "reassembler_inv_for m t c b r \<longleftrightarrow>
     reassembler_inv r \<and> same_limits (reassembly_budget_new m c b) (ra_budget r) \<and> ra_timeout r = t"

lemma reassembler_inv_for_push:
  assumes "reassembler_inv_for m t c b r" and "push_at r h payload now = (r', res)"
  shows "reassembler_inv_for m t c b r'"
proof -
  from assms(1) have "reassembler_inv r" by (simp add: reassembler_inv_for_def)
  from push_at_inv [OF this assms(2)] assms(1) show ?thesis
    unfolding reassembler_inv_for_def using same_limits_trans by metis
qed

lemma reassembler_inv_for_purge:
  assumes "reassembler_inv_for m t c b r" and "purge_expired_at r now = (r', evicted)"
  shows "reassembler_inv_for m t c b r'"
proof -
  from assms(1) have "reassembler_inv r" by (simp add: reassembler_inv_for_def)
  from purge_inv [OF this assms(2)] assms(1) show ?thesis
    unfolding reassembler_inv_for_def using same_limits_trans by metis
qed

interpretation reassembly: transition_system
  "reassembler_start m t c b" reassembler_step "reassembler_inv_for m t c b"
  for m t c b
proof unfold_locales
  fix r r' e
  show "reassembler_start m t c b r \<Longrightarrow> reassembler_inv_for m t c b r"
    by (auto simp: reassembler_start_def reassembler_inv_for_def reassembler_new_def reassembler_inv_def
        budget_inv_def reassembly_budget_new_def split: option.split)
  show "reassembler_inv_for m t c b r \<Longrightarrow> reassembler_step r e r' \<Longrightarrow> reassembler_inv_for m t c b r'"
    by (erule reassembler_stepE) (blast intro: reassembler_inv_for_push reassembler_inv_for_purge)+
qed


section \<open>What the buffers hold\<close>

text \<open>A sequence of fragments of one message, in index order, the last one flagged or not.\<close>

definition in_order :: "message_id \<Rightarrow> (fragment_header \<times> bytes) list \<Rightarrow> bool \<Rightarrow> bool" where
  "in_order mid frs final \<longleftrightarrow>
     frs \<noteq> [] \<and> list_all (\<lambda>(h, _). fh_message_id h = mid) frs \<and>
     map (\<lambda>(h, _). unat (fh_fragment_index h)) frs = [0..<length frs] \<and>
     map (\<lambda>(h, _). fh_is_last_fragment h) frs = replicate (length frs - 1) False @ [final]"

lemma in_order_snoc:
  assumes "in_order mid frs False" and "fh_message_id h = mid" and "unat (fh_fragment_index h) = length frs"
  shows "in_order mid (frs @ [(h, payload)]) (fh_is_last_fragment h)"
proof -
  from assms(1) have "replicate (length frs - 1) False @ [False] = replicate (length frs) False"
    by (cases frs) (simp_all add: in_order_def replicate_append_same)
  with assms show ?thesis by (simp add: in_order_def)
qed

text \<open>Every partial message is made of fragments received earlier, in order.\<close>

definition partial_tracks ::
    "(fragment_header \<times> bytes) list \<Rightarrow> message_id \<Rightarrow> partial_message \<Rightarrow> bool" where
  "partial_tracks past mid p \<longleftrightarrow>
     (\<exists>frs. subseq frs past \<and> in_order mid frs False \<and> pm_buffer p = concat (map snd frs) \<and>
        fs_message_id (pm_series p) = mid \<and> \<not> fs_complete (pm_series p) \<and>
        unat (fs_next_index (pm_series p)) = length frs)"

definition buffers_track :: "(fragment_header \<times> bytes) list \<Rightarrow> (message_id, partial_message) hm \<Rightarrow> bool" where
  "buffers_track past bufs \<longleftrightarrow> (\<forall>k p. hm_lookup bufs k = Some p \<longrightarrow> partial_tracks past k p)"

lemma partial_tracks_mono: "partial_tracks past mid p \<Longrightarrow> partial_tracks (past @ later) mid p"
  unfolding partial_tracks_def by (meson subseq_rev_drop_many)

text \<open>The possible outcomes for an existing and for a new message.\<close>

lemma append_cases:
  assumes "append_and_maybe_complete b bufs mid p payload completes = (b', bufs', res)"
  shows "\<not> completes \<and> res = Inr None \<and> hm_lookup bufs' mid = Some (partial_message_push payload p) \<or>
    completes \<and> res = Inr (Some \<lparr>rm_message_id = mid, rm_payload = pm_buffer p @ payload\<rparr>) \<and> hm_lookup bufs' mid = None \<or>
    (\<exists>e. res = Inl e) \<and> hm_lookup bufs' mid = None"
  using assms
  by (auto simp: append_and_maybe_complete_def remove_partial_def reassembled_message_new_def
      partial_message_push_def hm.lookup_remove hm.lookup_insert Let_def
      split: option.splits sum.splits if_splits)

lemma push_existing_cases:
  assumes "push_existing_fragment b bufs mid p h payload = (b', bufs', res)"
    and "hm_lookup bufs' mid = Some q \<or> res = Inr (Some m)"
  obtains (dup) "series_accept (pm_series p) h = (pm_series p, Inr Duplicate)"
      "hm_lookup bufs' mid = Some p" "res = Inr None"
  | (more) s' where "series_accept (pm_series p) h = (s', Inr Incomplete)"
      "hm_lookup bufs' mid = Some (partial_message_push payload (p\<lparr>pm_series := s'\<rparr>))" "res = Inr None"
  | (final) s' where "series_accept (pm_series p) h = (s', Inr Complete)"
      "res = Inr (Some \<lparr>rm_message_id = mid, rm_payload = pm_buffer p @ payload\<rparr>)" "hm_lookup bufs' mid = None"
proof -
  obtain s' st where acc: "series_accept (pm_series p) h = (s', st)" by fastforce
  let ?p = "p\<lparr>pm_series := s'\<rparr>" and ?bufs = "hm_insert mid (p\<lparr>pm_series := s'\<rparr>) bufs"
  consider e where "st = Inl e" | "st = Inr Incomplete" | "st = Inr Duplicate" | "st = Inr Complete"
    by (metis fragment_status.exhaust sum.exhaust)
  then show ?thesis
  proof cases
    case 1
    with assms acc show ?thesis
      by (auto simp: push_existing_fragment_def remove_partial_def hm.lookup_remove)
  next
    case 2
    then have "append_and_maybe_complete b ?bufs mid ?p payload False = (b', bufs', res)"
      using assms(1) by (simp add: push_existing_fragment_def acc Let_def)
    from append_cases [OF this] assms(2) 2 acc show ?thesis by (auto intro: more)
  next
    case 3
    have "s' = pm_series p" using series_accept_unchanged [OF acc] 3 by simp
    with 3 assms acc show ?thesis
      by (auto simp: push_existing_fragment_def hm.lookup_insert intro: dup)
  next
    case 4
    then have "append_and_maybe_complete b ?bufs mid ?p payload True = (b', bufs', res)"
      using assms(1) by (simp add: push_existing_fragment_def acc Let_def)
    from append_cases [OF this] assms(2) 4 acc show ?thesis by (auto intro: final)
  qed
qed

lemma push_first_cases:
  assumes "push_first_fragment b n bufs h payload now = (b', bufs', res)"
    and "hm_lookup bufs (fh_message_id h) = None"
    and "hm_lookup bufs' (fh_message_id h) = Some q \<or> res = Inr (Some m)"
  obtains (more) s where "start_with_first h = Inr (s, False)"
      "hm_lookup bufs' (fh_message_id h) = Some (partial_message_new s payload now)" "res = Inr None"
  | (final) s where "start_with_first h = Inr (s, True)"
      "res = Inr (Some \<lparr>rm_message_id = fh_message_id h, rm_payload = payload\<rparr>)"
      "hm_lookup bufs' (fh_message_id h) = None"
  using assms
  by (auto simp: push_first_fragment_def hm.lookup_insert reassembled_message_new_def
      split: sum.splits prod.splits if_splits)

lemma start_with_first_Inr:
  assumes "start_with_first h = Inr (s, c)"
  shows "fh_fragment_index h = 0" "c = fh_is_last_fragment h" "fs_message_id s = fh_message_id h"
    "fs_complete s = fh_is_last_fragment h" "unat (fs_next_index s) = 1"
  using assms
  by (auto simp: start_with_first_def advance_accepted_def fragment_series_new_def fragment_index_zero_def
      checked_increment_def checked_inc_u32_def Let_def split: if_splits)


text \<open>What a delivered message and a retained partial message consist of, after one more push.\<close>

definition push_tracks ::
    "(fragment_header \<times> bytes) list \<Rightarrow> fragment_header \<Rightarrow> bytes \<Rightarrow>
     (message_id, partial_message) hm \<Rightarrow> push_result \<Rightarrow> bool" where
  "push_tracks past h payload bufs res \<longleftrightarrow>
     (\<forall>q. hm_lookup bufs (fh_message_id h) = Some q \<longrightarrow>
        partial_tracks (past @ [(h, payload)]) (fh_message_id h) q) \<and>
     (\<forall>m. res = Inr (Some m) \<longrightarrow> (\<exists>frs. subseq frs past \<and>
        in_order (rm_message_id m) (frs @ [(h, payload)]) True \<and>
        rm_payload m = concat (map snd frs) @ payload))"

lemma push_first_tracks:
  assumes "push_first_fragment b n bufs h payload now = (b', bufs', res)"
    and "hm_lookup bufs (fh_message_id h) = None"
  shows "push_tracks past h payload bufs' res"
proof -
  have "partial_tracks (past @ [(h, payload)]) (fh_message_id h) q"
    if q: "hm_lookup bufs' (fh_message_id h) = Some q" for q
    using assms disjI1 [OF q, of "res = Inr (Some undefined)"]
  proof (cases rule: push_first_cases)
    case (more s)
    have "subseq [(h, payload)] (past @ [(h, payload)])" by (rule subseq_drop_many) simp
    moreover have "in_order (fh_message_id h) [(h, payload)] False"
      using start_with_first_Inr(1,2) [OF more(1)] by (simp add: in_order_def)
    ultimately show ?thesis
      using start_with_first_Inr [OF more(1)] q more(2) unfolding partial_tracks_def
      by (intro exI [of _ "[(h, payload)]"]) (auto simp: partial_message_new_def)
  qed (use q in simp)
  moreover have "in_order (rm_message_id m) [(h, payload)] True \<and> rm_payload m = payload"
    if m: "res = Inr (Some m)" for m
    using assms disjI2 [OF m, of "hm_lookup bufs' (fh_message_id h) = Some undefined"]
  proof (cases rule: push_first_cases)
    case (final s)
    with m show ?thesis using start_with_first_Inr(1,2) [OF final(1)] by (auto simp: in_order_def)
  qed (use m in simp)
  ultimately show ?thesis
    unfolding push_tracks_def by (metis append_Nil concat.simps(1) list.map(1) list_emb_Nil)
qed

lemma push_existing_tracks:
  assumes run: "push_existing_fragment b bufs (fh_message_id h) p h payload = (b', bufs', res)"
    and tracks: "partial_tracks past (fh_message_id h) p"
  shows "push_tracks past h payload bufs' res"
proof -
  obtain frs where frs: "subseq frs past" "in_order (fh_message_id h) frs False"
    "pm_buffer p = concat (map snd frs)" "fs_message_id (pm_series p) = fh_message_id h"
    "unat (fs_next_index (pm_series p)) = length frs"
    using tracks by (auto simp: partial_tracks_def)
  have snoc: "in_order (fh_message_id h) (frs @ [(h, payload)]) (fh_is_last_fragment h)"
    if "fh_fragment_index h = fs_next_index (pm_series p)"
    using in_order_snoc [OF frs(2)] that frs(5) by simp
  have "partial_tracks (past @ [(h, payload)]) (fh_message_id h) q"
    if q: "hm_lookup bufs' (fh_message_id h) = Some q" for q
    using run disjI1 [OF q, of "res = Inr (Some undefined)"]
  proof (cases rule: push_existing_cases)
    case dup
    with q partial_tracks_mono [OF tracks] show ?thesis by simp
  next
    case (more s')
    note a = series_accept_status [OF more(1)]
    have nl: "\<not> fh_is_last_fragment h" using a(6) by (auto split: if_splits)
    have "subseq (frs @ [(h, payload)]) (past @ [(h, payload)])" using frs(1) by simp
    moreover have "in_order (fh_message_id h) (frs @ [(h, payload)]) False"
      using snoc a(2) nl by simp
    moreover have "unat (fs_next_index s') = Suc (length frs)"
      using a(7,8) nl frs(5) by simp
    ultimately show ?thesis
      using a(4,5) nl q more(2) frs(3,4) unfolding partial_tracks_def
      by (intro exI [of _ "frs @ [(h, payload)]"]) (auto simp: partial_message_push_def)
  qed (use q in simp)
  moreover have "in_order (rm_message_id m) (frs @ [(h, payload)]) True \<and> rm_payload m = concat (map snd frs) @ payload"
    if m: "res = Inr (Some m)" for m
    using run disjI2 [OF m, of "hm_lookup bufs' (fh_message_id h) = Some undefined"]
  proof (cases rule: push_existing_cases)
    case (final s')
    note a = series_accept_status [OF final(1)]
    have "fh_is_last_fragment h" using a(6) by (auto split: if_splits)
    with snoc a(2) final(2) m frs(3) show ?thesis by simp
  qed (use m in simp_all)
  ultimately show ?thesis using frs(1) unfolding push_tracks_def by blast
qed

lemma push_at_tracks:
  assumes inv: "reassembler_inv r" and tracks: "buffers_track past (ra_buffers r)"
    and push: "push_at r h payload now = (r', res)"
  shows "buffers_track (past @ [(h, payload)]) (ra_buffers r') \<and> push_tracks past h payload (ra_buffers r') res"
proof
  let ?mid = "fh_message_id h"
  obtain r1 ev where purge: "purge_expired_at r now = (r1, ev)" by fastforce
  have tracks1: "partial_tracks past k p" if "hm_lookup (ra_buffers r1) k = Some p" for k p
    using purge_inv [OF inv purge, of k] tracks that by (auto simp: buffers_track_def split: option.splits if_splits)
  show main: "push_tracks past h payload (ra_buffers r') res"
  proof (cases "hm_lookup (ra_buffers r1) ?mid")
    case None
    then obtain b2 where "push_first_fragment (ra_budget r1) (length (ra_buffers r1)) (ra_buffers r1) h payload now =
        (b2, ra_buffers r', res)"
      using push by (auto simp: push_at_def purge Let_def split: prod.splits)
    then show ?thesis using None by (rule push_first_tracks)
  next
    case (Some p)
    then obtain b2 where "push_existing_fragment (ra_budget r1) (ra_buffers r1) ?mid p h payload =
        (b2, ra_buffers r', res)"
      using push by (auto simp: push_at_def purge Let_def split: prod.splits)
    then show ?thesis using tracks1 [OF Some] by (rule push_existing_tracks)
  qed
  have "partial_tracks (past @ [(h, payload)]) k p" if "hm_lookup (ra_buffers r') k = Some p" "k \<noteq> ?mid" for k p
  proof -
    have "hm_lookup (ra_buffers r) k = Some p"
      using push_at_inv [OF inv push] that by (auto split: option.splits if_splits)
    with tracks show ?thesis by (auto simp: buffers_track_def intro: partial_tracks_mono)
  qed
  with main show "buffers_track (past @ [(h, payload)]) (ra_buffers r')"
    unfolding buffers_track_def push_tracks_def by blast
qed


section \<open>Properties\<close>

text \<open>The results of a sequence of pushes.\<close>

fun push_run ::
    "reassembler \<Rightarrow> (fragment_header \<times> bytes \<times> instant) list \<Rightarrow> reassembler \<times> push_result list" where
  "push_run r [] = (r, [])"
| "push_run r ((h, payload, now) # ps) =
     (let (r', res) = push_at r h payload now; (r'', rs) = push_run r' ps in (r'', res # rs))"

lemma push_run_snoc:
  "push_run r (ps @ [(h, payload, now)]) =
     (let (r', rs) = push_run r ps; (r'', res) = push_at r' h payload now in (r'', rs @ [res]))"
  by (induction ps arbitrary: r) (auto split: prod.split)

lemma push_run_inv:
  assumes "reassembler_inv r" and "buffers_track past (ra_buffers r)" and "push_run r ps = (r', rs)"
  shows "reassembler_inv r' \<and> same_limits (ra_budget r) (ra_budget r') \<and>
    buffers_track (past @ map (\<lambda>(h, payload, _). (h, payload)) ps) (ra_buffers r')"
  using assms
proof (induction ps arbitrary: r past rs)
  case Nil
  then show ?case by simp
next
  case (Cons e ps)
  obtain h payload now where e: "e = (h, payload, now)" by (cases e)
  obtain r1 res where p: "push_at r h payload now = (r1, res)" by fastforce
  with Cons.prems(3) obtain rs' where run: "push_run r1 ps = (r', rs')"
    by (auto simp: e split: prod.splits)
  have 1: "reassembler_inv r1" "same_limits (ra_budget r) (ra_budget r1)"
    using push_at_inv [OF Cons.prems(1) p] by blast+
  have 2: "buffers_track (past @ [(h, payload)]) (ra_buffers r1)"
    using push_at_tracks [OF Cons.prems(1,2) p] by blast
  from Cons.IH [OF 1(1) 2 run] same_limits_trans [OF 1(2)] show ?case by (simp add: e)
qed

lemma reassembler_new_start:
  "reassembler_inv (reassembler_new m t c b)" "buffers_track [] (ra_buffers (reassembler_new m t c b))"
proof -
  have "reassembler_inv_for m t c b (reassembler_new m t c b)"
    by (rule reassembly.inv_init) (simp add: reassembler_start_def)
  then show "reassembler_inv (reassembler_new m t c b)" by (simp add: reassembler_inv_for_def)
qed (simp add: buffers_track_def reassembler_new_def)

text \<open>
  C2: A reassembled message is never corrupt: whatever fragments arrived before, from however
  many interleaved messages, with losses, duplicates, reordering and time-outs, a message that is
  delivered is the concatenation of fragments that did arrive, in that order, all of that message,
  with indices 0, 1, 2, ... without gap, of which exactly the one just received is flagged final.
\<close>

theorem reassembled_message_sound:
  assumes "push_run (reassembler_new m t c b) (ps @ [(h, payload, now)]) = (r, rs)"
    and "last rs = Inr (Some msg)"
  shows "\<exists>frs. subseq frs (map (\<lambda>(h, payload, _). (h, payload)) ps) \<and>
    in_order (rm_message_id msg) (frs @ [(h, payload)]) True \<and>
    rm_payload msg = concat (map snd (frs @ [(h, payload)]))"
proof -
  obtain r1 rs1 where run: "push_run (reassembler_new m t c b) ps = (r1, rs1)" by fastforce
  obtain res where push: "push_at r1 h payload now = (r, res)" "rs = rs1 @ [res]"
    using assms(1) by (auto simp: push_run_snoc run split: prod.splits)
  from push_run_inv [OF reassembler_new_start run]
  have inv: "reassembler_inv r1" "buffers_track (map (\<lambda>(h, payload, _). (h, payload)) ps) (ra_buffers r1)"
    by auto
  from push_at_tracks [OF inv push(1)] assms(2) push(2) show ?thesis
    by (auto simp: push_tracks_def)
qed

theorem reassembled_message_sound_witness:
  "let h = (\<lambda>m i l. \<lparr>fh_message_id = m, fh_fragment_index = i, fh_is_last_fragment = l\<rparr>);
       ps = [(h 1 0 False, [10], 0), (h 2 0 False, [20], 1), (h 1 0 False, [99], 2)];
       (r, rs) = push_run (reassembler_new 8 100 (Some 4) (Some 16)) (ps @ [(h 1 1 True, [11], 3)])
   in last rs = Inr (Some \<lparr>rm_message_id = 1, rm_payload = [10, 11]\<rparr>) \<and>
      (\<exists>frs. subseq frs (map (\<lambda>(h, payload, _). (h, payload)) ps) \<and>
         in_order 1 (frs @ [(h 1 1 True, [11])]) True)"
proof -
  let ?h = "\<lambda>m i l. \<lparr>fh_message_id = m, fh_fragment_index = i, fh_is_last_fragment = l\<rparr>"
  let ?ps = "[(?h 1 0 False, [10], 0), (?h 2 0 False, [20], 1), (?h 1 0 False, [99], 2)]"
  obtain r rs where
    run: "push_run (reassembler_new 8 100 (Some 4) (Some 16)) (?ps @ [(?h 1 1 True, [11], 3)]) = (r, rs)"
    by fastforce
  have eval: "last rs = Inr (Some \<lparr>rm_message_id = 1, rm_payload = [10, 11]\<rparr>)"
    using run
    by (simp add: push_at_def purge_expired_at_def partial_expired_def saturating_duration_since_def
        hm_retain_def hm_insert_def hm_remove_def AList.delete_eq push_first_fragment_def push_existing_fragment_def
        start_with_first_def advance_accepted_def series_accept_def fragment_series_new_def
        fragment_index_zero_def checked_increment_def checked_inc_u32_def assert_within_message_limit_def
        assert_within_partial_limit_def add_bytes_def checked_add_usize_def saturating_add_usize_def
        usize_max_def append_and_maybe_complete_def remove_partial_def release_bytes_def
        partial_message_new_def partial_message_push_def reassembled_message_new_def reassembler_new_def
        reassembly_budget_new_def Let_def) auto
  from reassembled_message_sound [OF run eval] run eval show ?thesis
    unfolding Let_def by auto
qed


text \<open>
  C14: In every state a reassembler can reach, its byte counter is exactly the number of bytes
  its partial messages retain (so releasing bytes never underflows), that number is within the
  configured buffer limit, the number of partial messages within its limit, and no partial message
  is longer than the maximum message size.
\<close>

theorem reassembler_within_limits:
  assumes "reachable (reassembler_start m t c b) reassembler_step r"
  shows "buffered_bytes r = (\<Sum>(k, p) \<leftarrow> ra_buffers r. length (pm_buffer p)) \<and>
    buffered_bytes r \<le> usize_max \<and>
    (case b of None \<Rightarrow> True | Some l \<Rightarrow> buffered_bytes r \<le> l) \<and>
    (case c of None \<Rightarrow> True | Some l \<Rightarrow> l < usize_max \<longrightarrow> buffered_len r \<le> l) \<and>
    (\<forall>k p. hm_lookup (ra_buffers r) k = Some p \<longrightarrow> length (pm_buffer p) \<le> m)"
  using reassembly.inv_reachable [OF assms]
  unfolding buffered_bytes_def buffered_len_def
  by (auto simp: reassembler_inv_for_def reassembler_inv_def budget_inv_def same_limits_def
      reassembly_budget_new_def entries_weight_def)

theorem reassembler_within_limits_witness:
  "\<exists>r. reachable (reassembler_start 8 100 (Some 4) (Some 16)) reassembler_step r \<and>
     ra_buffers r \<noteq> [] \<and> buffered_bytes r = 2 \<and> buffered_bytes r \<le> 16"
proof -
  let ?r0 = "reassembler_new 8 100 (Some 4) (Some 16)"
  let ?h = "\<lparr>fh_message_id = 1, fh_fragment_index = 0, fh_is_last_fragment = False\<rparr>"
  obtain r res where push: "push_at ?r0 ?h [7, 7] 5 = (r, res)" by fastforce
  have start: "reachable (reassembler_start 8 100 (Some 4) (Some 16)) reassembler_step ?r0"
    by (rule reachable.start) (simp add: reassembler_start_def)
  have reach: "reachable (reassembler_start 8 100 (Some 4) (Some 16)) reassembler_step r"
    by (rule reachable.move [OF start reassembler_step.push [OF push]])
  have "ra_buffers r \<noteq> [] \<and> buffered_bytes r = 2"
    using push by (auto simp: push_at_def purge_expired_at_def hm_retain_def hm_insert_def
        push_first_fragment_def start_with_first_def advance_accepted_def fragment_series_new_def
        fragment_index_zero_def checked_increment_def checked_inc_u32_def assert_within_message_limit_def
        assert_within_partial_limit_def add_bytes_def checked_add_usize_def saturating_add_usize_def
        usize_max_def reassembler_new_def reassembly_budget_new_def buffered_bytes_def Let_def)
  with reach reassembler_within_limits [OF reach] show ?thesis by auto
qed

text \<open>
  C26: A push concerns one message only. Every other partial message stays exactly as it was
  unless it has expired, in which case it is dropped. After an error, and after a delivery,
  nothing is retained for the message the fragment belongs to.
\<close>

theorem push_at_isolated:
  assumes "reachable (reassembler_start m t c b) reassembler_step r"
    and "push_at r h payload now = (r', res)"
  shows "(k \<noteq> fh_message_id h \<longrightarrow>
      hm_lookup (ra_buffers r') k =
        (case hm_lookup (ra_buffers r) k of
           None \<Rightarrow> None
         | Some p \<Rightarrow> if t \<le> now - pm_started_at p then None else Some p)) \<and>
    (res \<noteq> Inr None \<longrightarrow> hm_lookup (ra_buffers r') (fh_message_id h) = None)"
proof -
  have inv: "reassembler_inv r" "ra_timeout r = t"
    using reassembly.inv_reachable [OF assms(1)] by (simp_all add: reassembler_inv_for_def)
  show ?thesis
    using push_at_inv [OF inv(1) assms(2)] inv(2)
    by (auto simp: partial_expired_def saturating_duration_since_def split: option.splits)
qed

theorem push_at_isolated_witness:
  "\<exists>r r'. push_at r \<lparr>fh_message_id = 1, fh_fragment_index = 3, fh_is_last_fragment = False\<rparr> [1] 0 =
      (r', Inl (ReassemblyFragment (IndexMismatch 0 3))) \<and> hm_lookup (ra_buffers r') 1 = None"
proof -
  let ?r = "reassembler_new 8 100 None None"
  let ?h = "\<lparr>fh_message_id = 1, fh_fragment_index = 3, fh_is_last_fragment = False\<rparr>"
  have reach: "reachable (reassembler_start 8 100 None None) reassembler_step ?r"
    by (rule reachable.start) (simp add: reassembler_start_def)
  have push: "push_at ?r ?h [1] 0 = (?r, Inl (ReassemblyFragment (IndexMismatch 0 3)))"
    by (simp add: push_at_def purge_expired_at_def hm_retain_def push_first_fragment_def
        start_with_first_def fragment_index_zero_def reassembler_new_def)
  from push_at_isolated [OF reach push] push show ?thesis by auto
qed

text \<open>
  Purging reports exactly the identifiers whose partial messages have been waiting for the
  timeout or longer, drops exactly those, keeps every other one unchanged and gives back exactly
  the bytes they held.
\<close>

lemma purge_exact:
  assumes "reachable (reassembler_start m t c b) reassembler_step r"
    and "purge_expired_at r now = (r', evicted)"
  shows "set evicted = {k. \<exists>p. hm_lookup (ra_buffers r) k = Some p \<and> t \<le> now - pm_started_at p} \<and>
    distinct evicted \<and>
    (\<forall>k. hm_lookup (ra_buffers r') k = (if k \<in> set evicted then None else hm_lookup (ra_buffers r) k)) \<and>
    buffered_len r = buffered_len r' + length evicted \<and>
    buffered_bytes r = buffered_bytes r' +
      (\<Sum>k \<leftarrow> evicted. case hm_lookup (ra_buffers r) k of None \<Rightarrow> 0 | Some p \<Rightarrow> length (pm_buffer p))"
proof -
  have inv: "reassembler_inv r" "ra_timeout r = t"
    using reassembly.inv_reachable [OF assms(1)] by (simp_all add: reassembler_inv_for_def)
  have hm: "hm_invar (ra_buffers r)" and bytes: "rb_buffered_bytes (ra_budget r) = entries_weight partial_weight (ra_buffers r)"
    using inv(1) by (simp_all add: reassembler_inv_def budget_inv_def)
  let ?x = "\<lambda>(k, p). partial_expired now t p" and ?bufs = "ra_buffers r"
  have x: "partial_expired now t p \<longleftrightarrow> t \<le> now - pm_started_at p" for p
    by (simp add: partial_expired_def saturating_duration_since_def)
  have flip: "(\<lambda>e. \<not> ?x e) = (\<lambda>(k, p). \<not> partial_expired now t p)" by auto
  have r': "ra_buffers r' = filter (\<lambda>e. \<not> ?x e) ?bufs" "evicted = map fst (filter ?x ?bufs)"
    "rb_buffered_bytes (ra_budget r') = entries_weight partial_weight (filter (\<lambda>e. \<not> ?x e) ?bufs)"
    using assms(2) by (auto simp: purge_expired_at_eq [OF inv(1)] inv(2) hm_retain_def flip)
  have set: "set evicted = {k. \<exists>p. hm_lookup ?bufs k = Some p \<and> t \<le> now - pm_started_at p}"
    using hm by (force simp: r'(2) x hm.lookup_entries)
  have dist: "distinct evicted"
    using hm by (simp add: r'(2) hm_invar_def distinct_map_filter)
  have lookup: "hm_lookup (ra_buffers r') k = (if k \<in> set evicted then None else hm_lookup ?bufs k)" for k
    using purge_inv [OF inv(1) assms(2), of k] by (auto simp: set inv(2) x split: option.splits)
  have vals: "map (\<lambda>k. case hm_lookup ?bufs k of None \<Rightarrow> 0 | Some p \<Rightarrow> partial_weight p) evicted =
      map (\<lambda>(k, p). partial_weight p) (filter ?x ?bufs)"
    by (auto simp: r'(2) hm.lookup_entries [OF hm, symmetric])
  have len: "length ?bufs = length (filter (\<lambda>e. \<not> ?x e) ?bufs) + length (filter ?x ?bufs)"
    using sum_length_filter_compl [of ?x ?bufs] by simp
  have "entries_weight partial_weight ?bufs = rb_buffered_bytes (ra_budget r') +
      (\<Sum>k \<leftarrow> evicted. case hm_lookup ?bufs k of None \<Rightarrow> 0 | Some p \<Rightarrow> partial_weight p)"
    unfolding vals using entries_weight_partition [of partial_weight ?bufs ?x]
    by (simp add: r'(3) entries_weight_def)
  with set dist lookup len bytes show ?thesis
    by (simp add: buffered_len_def buffered_bytes_def r'(1,2))
qed

end
