(* ===== verification/Fragment_Adapter.thy ===== *)
theory Fragment_Adapter
  imports Fragment_Payload Reassembler
begin

text \<open>
  Fragmentation applied to packets: \<open>src/fragment/packet.rs\<close> and \<open>src/fragment/adapter.rs\<close>. The
  trait \<open>Fragmentable\<close> is the argument \<open>tr\<close>, its two methods; the clock reading of \<open>Instant::now\<close>
  is an argument. The theory also proves that in-order delivery completes: the fragments a
  fragmenter produces, pushed into a reassembler with room for them, give the message back.
\<close>

record fragment_parts =
  fp_id :: u32
  fp_correlation_id :: "u64 option"
  fp_payload :: bytes

record 'e fragmentable =
  into_fragment_parts :: "'e \<Rightarrow> fragment_parts"
  from_fragment_parts :: "fragment_parts \<Rightarrow> 'e"

datatype fragment_adapter_error = AdapterDecode decode_error | AdapterReassembly reassembly_error

record fragment_adapter =
  fa_fragmenter :: fragmenter
  fa_reassembler :: reassembler

definition fragment_parts_new :: "u32 \<Rightarrow> u64 option \<Rightarrow> bytes \<Rightarrow> fragment_parts" where
  "fragment_parts_new i c payload = \<lparr>fp_id = i, fp_correlation_id = c, fp_payload = payload\<rparr>"

text \<open>The \<open>for\<close> loop of \<open>fragment_packet\<close>, which returns at the first encoding error.\<close>

fun encode_batch ::
    "bytes_api \<Rightarrow> header_codec \<Rightarrow> 'e fragmentable \<Rightarrow> u32 \<Rightarrow> u64 option \<Rightarrow> fragment_frame list \<Rightarrow>
     fragmentation_error + 'e list" where
  "encode_batch api hc tr i c [] = Inr []"
| "encode_batch api hc tr i c (fr # frs) =
     (case encode_fragment_payload api hc (ff_header fr) (ff_payload fr) of
        Inl e \<Rightarrow> Inl (FragmentationEncode e)
      | Inr encoded \<Rightarrow>
          (case encode_batch api hc tr i c frs of
             Inl e \<Rightarrow> Inl e
           | Inr frames \<Rightarrow> Inr (from_fragment_parts tr (fragment_parts_new i c encoded) # frames)))"

text \<open>\<open>None\<close> is the panic of an exhausted identifier counter.\<close>

definition fragment_packet ::
    "bytes_api \<Rightarrow> header_codec \<Rightarrow> 'e fragmentable \<Rightarrow> fragmenter \<Rightarrow> 'e \<Rightarrow>
     (fragmenter \<times> (fragmentation_error + 'e list)) option" where
  "fragment_packet api hc tr f packet =
     (let parts = into_fragment_parts tr packet;
          i = fp_id parts; c = fp_correlation_id parts; payload = fp_payload parts
      in case fragment_bytes f payload of
           None \<Rightarrow> None
         | Some (f', Inl e) \<Rightarrow> Some (f', Inl e)
         | Some (f', Inr batch) \<Rightarrow>
             Some (f', if \<not> is_fragmented batch
                       then Inr [from_fragment_parts tr (fragment_parts_new i c payload)]
                       else encode_batch api hc tr i c (fb_fragments batch)))"

definition fragment_adapter_new :: "fragmentation_config \<Rightarrow> fragment_adapter" where
  "fragment_adapter_new config =
     \<lparr>fa_fragmenter = fragmenter_new (cfg_fragment_payload_cap config),
      fa_reassembler = reassembler_new (cfg_max_message_size config) (cfg_reassembly_timeout config)
        (cfg_max_concurrent_partials config) (cfg_max_buffered_bytes config)\<rparr>"

definition adapter_fragment ::
    "bytes_api \<Rightarrow> header_codec \<Rightarrow> 'e fragmentable \<Rightarrow> fragment_adapter \<Rightarrow> 'e \<Rightarrow>
     (fragment_adapter \<times> (fragmentation_error + 'e list)) option" where
  "adapter_fragment api hc tr a packet =
     map_option (\<lambda>(f, r). (a\<lparr>fa_fragmenter := f\<rparr>, r)) (fragment_packet api hc tr (fa_fragmenter a) packet)"

definition adapter_reassemble ::
    "bytes_api \<Rightarrow> header_codec \<Rightarrow> 'e fragmentable \<Rightarrow> fragment_adapter \<Rightarrow> 'e \<Rightarrow> instant \<Rightarrow>
     fragment_adapter \<times> (fragment_adapter_error + 'e option)" where
  "adapter_reassemble api hc tr a packet now =
     (let parts = into_fragment_parts tr packet;
          i = fp_id parts; c = fp_correlation_id parts; payload = fp_payload parts
      in case decode_fragment_payload api hc payload of
           Inl e \<Rightarrow> (a, Inl (AdapterDecode e))
         | Inr (Some (h, fragment_payload)) \<Rightarrow>
             (let (r', res) = push_at (fa_reassembler a) h fragment_payload now
              in (a\<lparr>fa_reassembler := r'\<rparr>,
                  case res of
                    Inl e \<Rightarrow> Inl (AdapterReassembly e)
                  | Inr None \<Rightarrow> Inr None
                  | Inr (Some message) \<Rightarrow>
                      Inr (Some (from_fragment_parts tr (fragment_parts_new i c (rm_payload message))))))
         | Inr None \<Rightarrow> (a, Inr (Some (from_fragment_parts tr (fragment_parts_new i c payload)))))"

definition adapter_purge_expired :: "fragment_adapter \<Rightarrow> instant \<Rightarrow> fragment_adapter \<times> message_id list" where
  "adapter_purge_expired a now =
     (let (r', evicted) = purge_expired_at (fa_reassembler a) now
      in (a\<lparr>fa_reassembler := r'\<rparr>, evicted))"

definition adapter_buffered_bytes :: "fragment_adapter \<Rightarrow> usize" where
  "adapter_buffered_bytes a = buffered_bytes (fa_reassembler a)"

section \<open>In-order delivery completes\<close>

text \<open>There is room for \<open>n\<close> more bytes of a message that already holds \<open>held\<close> bytes.\<close>

definition has_room :: "reassembler \<Rightarrow> nat \<Rightarrow> nat \<Rightarrow> bool" where
  "has_room r held n \<longleftrightarrow>
     held + n \<le> rb_max_message_size (ra_budget r) \<and> rb_max_message_size (ra_budget r) \<le> usize_max \<and>
     buffered_bytes r + n \<le> usize_max \<and>
     (case rb_max_buffered_bytes (ra_budget r) of None \<Rightarrow> True | Some l \<Rightarrow> buffered_bytes r + n \<le> l)"

text \<open>The reassembler is in the middle of a message.\<close>

definition awaiting :: "reassembler \<Rightarrow> message_id \<Rightarrow> nat \<Rightarrow> bytes \<Rightarrow> instant \<Rightarrow> bool" where
  "awaiting r mid i held since \<longleftrightarrow>
     reassembler_inv r \<and>
     (\<exists>p. hm_lookup (ra_buffers r) mid = Some p \<and> pm_buffer p = held \<and> pm_started_at p = since \<and>
        fs_message_id (pm_series p) = mid \<and> \<not> fs_complete (pm_series p) \<and>
        unat (fs_next_index (pm_series p)) = i)"

lemma purge_bytes_le:
  assumes "reassembler_inv r" and "purge_expired_at r now = (r', evicted)"
  shows "buffered_bytes r' \<le> buffered_bytes r"
  using assms rw.weight_retain
  by (auto simp: purge_expired_at_eq [OF assms(1)] buffered_bytes_def reassembler_inv_def budget_inv_def)

lemma has_room_purge:
  assumes "reassembler_inv r" and "purge_expired_at r now = (r', evicted)" and "has_room r held n"
  shows "has_room r' held n"
  using assms(3) purge_bytes_le [OF assms(1,2)] purge_inv [OF assms(1,2)]
  by (auto simp: has_room_def same_limits_def split: option.splits)

lemma has_room_add_bytes:
  assumes "has_room r held n"
  shows "add_bytes (ra_budget r) n = Inr ((ra_budget r)\<lparr>rb_buffered_bytes := buffered_bytes r + n\<rparr>)"
  using assms by (auto simp: has_room_def add_bytes_Inr buffered_bytes_def split: option.splits)

lemma append_with_room:
  assumes "has_room r (length (pm_buffer p)) (length payload)" and "hm_lookup bufs mid = Some p0"
  shows "\<exists>b' bufs'. append_and_maybe_complete (ra_budget r) bufs mid p payload completes =
    (b', bufs', if completes then Inr (Some \<lparr>rm_message_id = mid, rm_payload = pm_buffer p @ payload\<rparr>) else Inr None) \<and>
    (\<not> completes \<longrightarrow> hm_lookup bufs' mid = Some (partial_message_push payload p) \<and>
       rb_buffered_bytes b' = buffered_bytes r + length payload)"
proof -
  have "checked_add_usize (length (pm_buffer p)) (length payload) = Some (length (pm_buffer p) + length payload)"
    "assert_within_message_limit (ra_budget r) mid (length (pm_buffer p) + length payload) = Inr ()"
    using assms(1) by (auto simp: has_room_def checked_add_usize_def assert_within_message_limit_def)
  then show ?thesis
    by (simp add: append_and_maybe_complete_def has_room_add_bytes [OF assms(1)] remove_partial_def
        reassembled_message_new_def partial_message_push_def hm.lookup_insert Let_def)
qed


lemma series_accept_expected:
  assumes "fh_message_id h = fs_message_id s" and "fh_fragment_index h = fs_next_index s"
    and "\<not> fs_complete s" and "fh_is_last_fragment h \<or> unat (fs_next_index s) < 4294967295"
  shows "\<exists>s'. series_accept s h = (s', Inr (if fh_is_last_fragment h then Complete else Incomplete))"
proof -
  have "checked_increment (fs_next_index s) \<noteq> None" if "\<not> fh_is_last_fragment h"
    using assms(4) that by (simp add: checked_increment_def checked_inc_u32_None)
  with assms(1-3) show ?thesis
    by (cases "fh_is_last_fragment h")
      (auto simp: series_accept_def advance_accepted_def Let_def split: option.split)
qed

lemma push_at_next:
  assumes wait: "awaiting r (fh_message_id h) i held since"
    and room: "has_room r (length held) (length payload)"
    and idx: "unat (fh_fragment_index h) = i" and now: "now - since < ra_timeout r"
    and more: "fh_is_last_fragment h \<or> i < 4294967295"
  shows "\<exists>r'. push_at r h payload now = (r', if fh_is_last_fragment h
        then Inr (Some \<lparr>rm_message_id = fh_message_id h, rm_payload = held @ payload\<rparr>) else Inr None) \<and>
    (\<not> fh_is_last_fragment h \<longrightarrow> awaiting r' (fh_message_id h) (Suc i) (held @ payload) since \<and>
       buffered_bytes r' \<le> buffered_bytes r + length payload)"
proof -
  let ?mid = "fh_message_id h"
  obtain p where p: "hm_lookup (ra_buffers r) ?mid = Some p" "pm_buffer p = held" "pm_started_at p = since"
    "fs_message_id (pm_series p) = ?mid" "\<not> fs_complete (pm_series p)" "unat (fs_next_index (pm_series p)) = i"
    and inv: "reassembler_inv r"
    using wait by (auto simp: awaiting_def)
  obtain r1 ev where purge: "purge_expired_at r now = (r1, ev)" by fastforce
  have p1: "hm_lookup (ra_buffers r1) ?mid = Some p"
    using purge_inv [OF inv purge, of ?mid] p(1,3) now
    by (simp add: partial_expired_def saturating_duration_since_def)
  have next_idx: "fh_fragment_index h = fs_next_index (pm_series p)"
    using idx p(6) by (simp add: word_unat_eq_iff)
  obtain s' where acc: "series_accept (pm_series p) h =
      (s', Inr (if fh_is_last_fragment h then Complete else Incomplete))"
    using series_accept_expected [of h "pm_series p"] p(4-6) next_idx more by auto
  note st = series_accept_status [OF acc]
  let ?p = "p\<lparr>pm_series := s'\<rparr>" and ?bufs = "hm_insert ?mid (p\<lparr>pm_series := s'\<rparr>) (ra_buffers r1)"
  have "has_room r1 (length (pm_buffer ?p)) (length payload)"
    using has_room_purge [OF inv purge room] p(2) by simp
  from append_with_room [OF this, of ?bufs ?mid ?p "fh_is_last_fragment h"]
  obtain b' bufs' where app: "append_and_maybe_complete (ra_budget r1) ?bufs ?mid ?p payload (fh_is_last_fragment h) =
      (b', bufs', if fh_is_last_fragment h
         then Inr (Some \<lparr>rm_message_id = ?mid, rm_payload = held @ payload\<rparr>) else Inr None)"
    "\<not> fh_is_last_fragment h \<Longrightarrow> hm_lookup bufs' ?mid = Some (partial_message_push payload ?p) \<and>
       rb_buffered_bytes b' = buffered_bytes r1 + length payload"
    using p(2) by (auto simp: hm.lookup_insert)
  let ?r' = "r1\<lparr>ra_budget := b', ra_buffers := bufs'\<rparr>"
  have push: "push_at r h payload now = (?r', if fh_is_last_fragment h
      then Inr (Some \<lparr>rm_message_id = ?mid, rm_payload = held @ payload\<rparr>) else Inr None)"
    using app(1) by (cases "fh_is_last_fragment h")
      (simp_all add: push_at_def purge p1 push_existing_fragment_def acc Let_def)
  have "awaiting ?r' ?mid (Suc i) (held @ payload) since \<and> buffered_bytes ?r' \<le> buffered_bytes r + length payload"
    if nl: "\<not> fh_is_last_fragment h"
  proof -
    have "unat (fs_next_index s') = Suc i" using st(7,8) nl p(6) more by (simp add: min_def)
    then show ?thesis
      using push_at_inv [OF inv push] app(2) [OF nl] p(2,3,4) st(4,5) nl purge_bytes_le [OF inv purge]
      by (auto simp: awaiting_def partial_message_push_def buffered_bytes_def)
  qed
  with push show ?thesis by blast
qed

lemma push_at_begin:
  assumes inv: "reassembler_inv r" and fresh: "hm_lookup (ra_buffers r) (fh_message_id h) = None"
    and room: "has_room r 0 (length payload)" and idx: "fh_fragment_index h = 0"
    and slot: "case rb_max_concurrent_partials (ra_budget r) of None \<Rightarrow> True | Some l \<Rightarrow> buffered_len r < l"
  shows "\<exists>r'. push_at r h payload now = (r', if fh_is_last_fragment h
        then Inr (Some \<lparr>rm_message_id = fh_message_id h, rm_payload = payload\<rparr>) else Inr None) \<and>
    (\<not> fh_is_last_fragment h \<longrightarrow> awaiting r' (fh_message_id h) 1 payload now \<and>
       buffered_bytes r' \<le> buffered_bytes r + length payload)"
proof -
  let ?mid = "fh_message_id h"
  obtain r1 ev where purge: "purge_expired_at r now = (r1, ev)" by fastforce
  note p1 = purge_inv [OF inv purge, of ?mid]
  have fresh1: "hm_lookup (ra_buffers r1) ?mid = None" using p1 fresh by simp
  have "length (ra_buffers r1) \<le> buffered_len r"
    using purge hm.size_retain by (auto simp: purge_expired_at_eq [OF inv] buffered_len_def)
  then have partials: "assert_within_partial_limit (ra_budget r1) (length (ra_buffers r1)) = Inr ()"
    using slot p1 by (auto simp: assert_within_partial_limit_def saturating_add_usize_def same_limits_def
        Let_def split: option.splits)
  note room1 = has_room_purge [OF inv purge room]
  have size: "assert_within_message_limit (ra_budget r1) ?mid (length payload) = Inr ()"
    using room1 by (simp add: assert_within_message_limit_def has_room_def)
  obtain s where s: "start_with_first h = Inr (s, fh_is_last_fragment h)"
    using idx by (cases "fh_is_last_fragment h")
      (auto simp: start_with_first_def advance_accepted_def fragment_index_zero_def checked_increment_def
        checked_inc_u32_def Let_def)
  note first = start_with_first_Inr [OF s]
  let ?r' = "if fh_is_last_fragment h then r1
    else r1\<lparr>ra_budget := (ra_budget r1)\<lparr>rb_buffered_bytes := buffered_bytes r1 + length payload\<rparr>,
            ra_buffers := hm_insert ?mid (partial_message_new s payload now) (ra_buffers r1)\<rparr>"
  have push: "push_at r h payload now = (?r', if fh_is_last_fragment h
      then Inr (Some \<lparr>rm_message_id = ?mid, rm_payload = payload\<rparr>) else Inr None)"
    by (simp add: push_at_def purge fresh1 push_first_fragment_def s size partials
        has_room_add_bytes [OF room1] reassembled_message_new_def Let_def)
  have "awaiting ?r' ?mid 1 payload now \<and> buffered_bytes ?r' \<le> buffered_bytes r + length payload"
    if nl: "\<not> fh_is_last_fragment h"
    using push_at_inv [OF inv push] first(3-5) nl purge_bytes_le [OF inv purge]
    by (simp add: awaiting_def hm.lookup_insert partial_message_new_def buffered_bytes_def)
  with push show ?thesis by blast
qed


lemma has_room_next:
  assumes "has_room r held (n + rest)" and "same_limits (ra_budget r) (ra_budget r')"
    and "buffered_bytes r' \<le> buffered_bytes r + n"
  shows "has_room r' (held + n) rest"
  using assms by (auto simp: has_room_def same_limits_def split: option.splits)

lemma has_room_less: "has_room r held (n + rest) \<Longrightarrow> has_room r held n"
  by (auto simp: has_room_def split: option.splits)

text \<open>The fragments of one message from position \<open>i\<close> on, with their arrival times.\<close>

definition rest_of :: "message_id \<Rightarrow> nat \<Rightarrow> (fragment_header \<times> bytes \<times> instant) list \<Rightarrow> bool" where
  "rest_of mid i frs \<longleftrightarrow>
     frs \<noteq> [] \<and> list_all (\<lambda>(h, _, _). fh_message_id h = mid) frs \<and>
     map (\<lambda>(h, _, _). unat (fh_fragment_index h)) frs = [i..<i + length frs] \<and>
     map (\<lambda>(h, _, _). fh_is_last_fragment h) frs = replicate (length frs - 1) False @ [True]"

lemma rest_of_Cons:
  "rest_of mid i ((h, payload, now) # frs) \<longleftrightarrow>
     fh_message_id h = mid \<and> unat (fh_fragment_index h) = i \<and> fh_is_last_fragment h = (frs = []) \<and>
     (frs \<noteq> [] \<longrightarrow> rest_of mid (Suc i) frs)"
proof (cases frs)
  case Nil
  then show ?thesis by (simp add: rest_of_def)
next
  case (Cons f frs')
  then show ?thesis by (auto simp: rest_of_def upt_conv_Cons simp del: upt_Suc)
qed

abbreviation run_bytes :: "(fragment_header \<times> bytes \<times> instant) list \<Rightarrow> bytes" where
  "run_bytes frs \<equiv> concat (map (\<lambda>(_, payload, _). payload) frs)"

lemma push_run_rest:
  assumes "awaiting r mid i held since" and "rest_of mid i frs"
    and "has_room r (length held) (length (run_bytes frs))"
    and "list_all (\<lambda>(_, _, now). now - since < ra_timeout r) frs"
  shows "\<exists>r'. push_run r frs = (r', replicate (length frs - 1) (Inr None) @
    [Inr (Some \<lparr>rm_message_id = mid, rm_payload = held @ run_bytes frs\<rparr>)])"
  using assms
proof (induction frs arbitrary: r i held)
  case Nil
  then show ?case by (simp add: rest_of_def)
next
  case (Cons f frs)
  obtain h payload now where f: "f = (h, payload, now)" by (cases f)
  have h: "fh_message_id h = mid" "unat (fh_fragment_index h) = i" "fh_is_last_fragment h = (frs = [])"
    using Cons.prems(2) by (simp_all add: f rest_of_Cons)
  have bound: "fh_is_last_fragment h \<or> i < 4294967295"
  proof (cases frs)
    case (Cons g gs)
    obtain h' q t where "g = (h', q, t)" by (cases g)
    with Cons Cons.prems(2) have "unat (fh_fragment_index h') = Suc i"
      by (simp add: f rest_of_Cons)
    with unat_bounds(3) [of "fh_fragment_index h'"] show ?thesis by simp
  qed (simp add: h)
  have room: "has_room r (length held) (length payload)"
    using Cons.prems(3) has_room_less by (simp add: f)
  obtain r' where push: "push_at r h payload now = (r', if frs = []
        then Inr (Some \<lparr>rm_message_id = mid, rm_payload = held @ payload\<rparr>) else Inr None)"
    and next_state: "frs \<noteq> [] \<Longrightarrow> awaiting r' mid (Suc i) (held @ payload) since \<and>
       buffered_bytes r' \<le> buffered_bytes r + length payload"
    using push_at_next [of r h i held since payload now] Cons.prems(1,4) room bound by (auto simp: h f)
  show ?case
  proof (cases "frs = []")
    case True
    with push show ?thesis by (simp add: f)
  next
    case False
    have inv: "reassembler_inv r" using Cons.prems(1) by (simp add: awaiting_def)
    note lim = push_at_inv [OF inv push]
    have "has_room r' (length (held @ payload)) (length (run_bytes frs))"
      using has_room_next [of r "length held" "length payload" _ r'] Cons.prems(3) next_state [OF False] lim
      by (simp add: f)
    moreover have "rest_of mid (Suc i) frs" using Cons.prems(2) False by (simp add: f rest_of_Cons)
    moreover have "list_all (\<lambda>(_, _, now). now - since < ra_timeout r') frs" using Cons.prems(4) lim by simp
    ultimately obtain r'' where "push_run r' frs = (r'', replicate (length frs - 1) (Inr None) @
        [Inr (Some \<lparr>rm_message_id = mid, rm_payload = (held @ payload) @ run_bytes frs\<rparr>)])"
      using Cons.IH next_state [OF False] by blast
    with push False show ?thesis by (cases frs) (auto simp: f)
  qed
qed

text \<open>A reassembler that holds nothing of a message and has room for all of it.\<close>

definition ready_for :: "reassembler \<Rightarrow> message_id \<Rightarrow> nat \<Rightarrow> bool" where
  "ready_for r mid n \<longleftrightarrow>
     reassembler_inv r \<and> hm_lookup (ra_buffers r) mid = None \<and> has_room r 0 n \<and>
     (case rb_max_concurrent_partials (ra_budget r) of None \<Rightarrow> True | Some l \<Rightarrow> buffered_len r < l)"

lemma push_run_whole:
  assumes "ready_for r mid (length (run_bytes frs))" and "rest_of mid 0 frs"
    and "list_all (\<lambda>(_, _, now). now - snd (snd (hd frs)) < ra_timeout r) frs"
  shows "\<exists>r'. push_run r frs = (r', replicate (length frs - 1) (Inr None) @
    [Inr (Some \<lparr>rm_message_id = mid, rm_payload = run_bytes frs\<rparr>)])"
proof -
  obtain h payload now rest where f: "frs = (h, payload, now) # rest"
    using assms(2) by (cases frs) (auto simp: rest_of_def)
  have h: "fh_message_id h = mid" "fh_fragment_index h = 0" "fh_is_last_fragment h = (rest = [])"
    using assms(2) by (simp_all add: f rest_of_Cons unsigned_eq_0_iff)
  have inv: "reassembler_inv r" using assms(1) by (simp add: ready_for_def)
  have "has_room r 0 (length payload)"
    using assms(1) has_room_less [of r 0 "length payload"] by (auto simp: f ready_for_def)
  then obtain r' where push: "push_at r h payload now = (r', if rest = []
        then Inr (Some \<lparr>rm_message_id = mid, rm_payload = payload\<rparr>) else Inr None)"
    and next_state: "rest \<noteq> [] \<Longrightarrow> awaiting r' mid 1 payload now \<and>
       buffered_bytes r' \<le> buffered_bytes r + length payload"
    using push_at_begin [of r h payload now] assms(1) by (auto simp: h ready_for_def)
  show ?thesis
  proof (cases "rest = []")
    case True
    with push show ?thesis by (simp add: f)
  next
    case False
    note lim = push_at_inv [OF inv push]
    have "has_room r' (length payload) (length (run_bytes rest))"
      using has_room_next [of r 0 "length payload" _ r'] assms(1) next_state [OF False] lim
      by (simp add: f ready_for_def)
    moreover have "rest_of mid 1 rest" using assms(2) False by (simp add: f rest_of_Cons)
    moreover have "list_all (\<lambda>(_, _, t). t - now < ra_timeout r') rest"
      using assms(3) lim by (simp add: f)
    ultimately obtain r'' where "push_run r' rest = (r'', replicate (length rest - 1) (Inr None) @
        [Inr (Some \<lparr>rm_message_id = mid, rm_payload = payload @ run_bytes rest\<rparr>)])"
      using push_run_rest next_state [OF False] by blast
    with push False show ?thesis by (cases rest) (auto simp: f)
  qed
qed


section \<open>Packets\<close>

text \<open>The results of receiving a sequence of packets, each with its arrival time.\<close>

fun reassemble_run ::
    "bytes_api \<Rightarrow> header_codec \<Rightarrow> 'e fragmentable \<Rightarrow> fragment_adapter \<Rightarrow> ('e \<times> instant) list \<Rightarrow>
     fragment_adapter \<times> (fragment_adapter_error + 'e option) list" where
  "reassemble_run api hc tr a [] = (a, [])"
| "reassemble_run api hc tr a ((packet, now) # ps) =
     (let (a', res) = adapter_reassemble api hc tr a packet now;
          (a'', rs) = reassemble_run api hc tr a' ps in (a'', res # rs))"

text \<open>Converting to parts and back loses nothing: what a \<open>Fragmentable\<close> packet provides.\<close>

definition fragmentable_lossless :: "'e fragmentable \<Rightarrow> bool" where
  "fragmentable_lossless tr \<longleftrightarrow>
     (\<forall>parts. into_fragment_parts tr (from_fragment_parts tr parts) = parts) \<and>
     (\<forall>e. from_fragment_parts tr (into_fragment_parts tr e) = e)"

definition identity_fragmentable :: "fragment_parts fragmentable" where
  "identity_fragmentable = \<lparr>into_fragment_parts = (\<lambda>p. p), from_fragment_parts = (\<lambda>p. p)\<rparr>"

lemma identity_lossless: "fragmentable_lossless identity_fragmentable"
  by (simp add: fragmentable_lossless_def identity_fragmentable_def)

lemma encode_batch_ok:
  assumes "bytes_documented api" and "bincode_documented hc"
  shows "\<exists>outs. encode_batch api hc tr i c frs =
      Inr (map (\<lambda>out. from_fragment_parts tr (fragment_parts_new i c out)) outs) \<and>
    list_all2 (\<lambda>out fr. decode_fragment_payload api hc out = Inr (Some (ff_header fr, ff_payload fr))) outs frs"
proof (induction frs)
  case Nil
  show ?case by simp
next
  case (Cons fr frs)
  then obtain outs where outs: "encode_batch api hc tr i c frs =
      Inr (map (\<lambda>out. from_fragment_parts tr (fragment_parts_new i c out)) outs)"
    "list_all2 (\<lambda>out fr. decode_fragment_payload api hc out = Inr (Some (ff_header fr, ff_payload fr))) outs frs"
    by blast
  obtain out where "encode_fragment_payload api hc (ff_header fr) (ff_payload fr) = Inr out"
    "decode_fragment_payload api hc out = Inr (Some (ff_header fr, ff_payload fr))"
    using fragment_payload_codec [OF assms] by metis
  with outs show ?case by (intro exI [of _ "out # outs"]) simp
qed

text \<open>What a receiver reports for a result of the reassembler.\<close>

definition packet_result ::
    "'e fragmentable \<Rightarrow> u32 \<Rightarrow> u64 option \<Rightarrow> push_result \<Rightarrow> fragment_adapter_error + 'e option" where
  "packet_result tr i c res =
     (case res of
        Inl e \<Rightarrow> Inl (AdapterReassembly e)
      | Inr None \<Rightarrow> Inr None
      | Inr (Some message) \<Rightarrow> Inr (Some (from_fragment_parts tr (fragment_parts_new i c (rm_payload message)))))"

lemma reassemble_run_frames:
  assumes "fragmentable_lossless tr"
    and "list_all2 (\<lambda>out fr. decode_fragment_payload api hc out = Inr (Some (ff_header fr, ff_payload fr))) outs frs"
    and "length tms = length frs"
    and "push_run (fa_reassembler a) (zip (map ff_header frs) (zip (map ff_payload frs) tms)) = (r', results)"
  shows "reassemble_run api hc tr a
      (zip (map (\<lambda>out. from_fragment_parts tr (fragment_parts_new i c out)) outs) tms) =
    (a\<lparr>fa_reassembler := r'\<rparr>, map (packet_result tr i c) results)"
  using assms(2-4)
proof (induction outs frs arbitrary: tms a results rule: list_all2_induct)
  case Nil
  then show ?case by simp
next
  case (Cons out outs fr frs)
  then obtain t ts where tms: "tms = t # ts" "length ts = length frs" by (cases tms) auto
  obtain r1 res where push: "push_at (fa_reassembler a) (ff_header fr) (ff_payload fr) t = (r1, res)" by fastforce
  with Cons.prems(2) tms obtain results' where
    run: "push_run r1 (zip (map ff_header frs) (zip (map ff_payload frs) ts)) = (r', results')"
    "results = res # results'"
    by (auto split: prod.splits)
  have one: "adapter_reassemble api hc tr a (from_fragment_parts tr (fragment_parts_new i c out)) t =
      (a\<lparr>fa_reassembler := r1\<rparr>, packet_result tr i c res)"
    using assms(1) Cons.hyps(1) push
    by (simp add: adapter_reassemble_def fragmentable_lossless_def fragment_parts_new_def packet_result_def)
  have "reassemble_run api hc tr (a\<lparr>fa_reassembler := r1\<rparr>)
      (zip (map (\<lambda>out. from_fragment_parts tr (fragment_parts_new i c out)) outs) ts) =
    (a\<lparr>fa_reassembler := r'\<rparr>, map (packet_result tr i c) results')"
    using Cons.IH [OF tms(2), of "a\<lparr>fa_reassembler := r1\<rparr>" results'] run(1) by simp
  with one run(2) show ?case by (simp add: tms(1))
qed

lemma fragments_rest_of:
  fixes mid :: message_id
  assumes "0 < n" and "fragment_count n payload \<le> 4294967296"
    and "length tms = fragment_count n payload"
  defines "frs \<equiv> fragments_of n mid payload"
  shows "rest_of mid 0 (zip (map ff_header frs) (zip (map ff_payload frs) tms))"
    and "run_bytes (zip (map ff_header frs) (zip (map ff_payload frs) tms)) = payload"
proof -
  let ?z = "zip (map ff_header frs) (zip (map ff_payload frs) tms)"
  have len: "length frs = fragment_count n payload" "length ?z = fragment_count n payload"
    using assms(3) by (simp_all add: frs_def)
  have proj: "map fst ?z = map ff_header frs" "map (\<lambda>(_, payload, _). payload) ?z = map ff_payload frs"
    using len assms(3) by (simp, intro nth_equalityI, simp_all)
  show "run_bytes ?z = payload"
    using concat_fragments_of [OF assms(1), of mid payload]
    unfolding frs_def [symmetric] by (simp only: proj(2))
  obtain m where m: "fragment_count n payload = Suc m"
    using fragment_count_pos [OF assms(1), of payload] by (cases "fragment_count n payload") auto
  have over: "map (\<lambda>(h, _, _). f h) ?z = map f (map ff_header frs)" for f :: "fragment_header \<Rightarrow> 'x"
  proof -
    have "map (\<lambda>(h, _, _). f h) ?z = map f (map fst ?z)" by (simp only: map_map) (simp add: split_def comp_def)
    then show ?thesis by (simp only: proj(1))
  qed
  have hs: "map ff_header frs = map (\<lambda>i. \<lparr>fh_message_id = mid, fh_fragment_index = word_of_nat i,
      fh_is_last_fragment = (i = m)\<rparr>) [0..<Suc m]"
    unfolding frs_def fragments_of_headers m by simp
  have idx: "map (\<lambda>h. unat (fh_fragment_index h)) (map ff_header frs) = [0..<Suc m]"
    unfolding hs using assms(2) m by (intro nth_equalityI) (simp_all add: unat_of_nat del: upt_Suc)
  have final: "map fh_is_last_fragment (map ff_header frs) = replicate m False @ [True]"
    unfolding hs by (auto intro!: nth_equalityI simp: nth_append)
  have ids: "\<forall>h \<in> set (map ff_header frs). fh_message_id h = mid"
    unfolding hs by auto
  have "map (\<lambda>(h, _, _). unat (fh_fragment_index h)) ?z = [0..<Suc m]"
    by (rule trans [OF over idx])
  moreover have "map (\<lambda>(h, _, _). fh_is_last_fragment h) ?z = replicate m False @ [True]"
    by (rule trans [OF over final])
  moreover have "list_all (\<lambda>(h, _, _). fh_message_id h = mid) ?z"
    using ids by (auto simp: list_all_iff dest!: set_zip_leftD)
  moreover have "?z \<noteq> []" using len(2) m by (metis length_0_conv nat.distinct(1))
  ultimately show "rest_of mid 0 ?z"
    unfolding rest_of_def len(2) m by simp
qed

lemma adapter_delivers:
  assumes docs: "bytes_documented api" "bincode_documented hc" "fragmentable_lossless tr"
    and payload_def: "payload = fp_payload (into_fragment_parts tr packet)"
    and pos: "0 < max_fragment_size (fa_fragmenter a)"
    and sent: "adapter_fragment api hc tr a packet = Some (a', Inr packets)"
    and plain: "decode_fragment_payload api hc payload = Inr None \<or> max_fragment_size (fa_fragmenter a) < length payload"
    and ready: "ready_for (fa_reassembler b) (next_message_id_counter (fa_fragmenter a)) (length payload)"
    and tms: "length tms = length packets"
      "list_all (\<lambda>now. now - hd tms < ra_timeout (fa_reassembler b)) tms"
  shows "\<exists>b'. reassemble_run api hc tr b (zip packets tms) =
    (b', replicate (length packets - 1) (Inr None) @ [Inr (Some packet)])"
proof -
  let ?f = "fa_fragmenter a" and ?parts = "into_fragment_parts tr packet"
  let ?n = "max_fragment_size ?f" and ?mid = "next_message_id_counter ?f"
  let ?i = "fp_id ?parts" and ?c = "fp_correlation_id ?parts"
  obtain f' where f': "next_message_id ?f = Some (f', ?mid)" "max_fragment_size f' = ?n"
    using sent by (auto simp: adapter_fragment_def fragment_packet_def fragment_bytes_def next_message_id_def
        Let_def split: if_splits)
  have count: "fragment_count ?n payload \<le> 4294967296"
    using sent pos f' by (auto simp: adapter_fragment_def fragment_packet_def fragment_bytes_def
        fragment_with_id_eq payload_def Let_def split: if_splits)
  have restored: "from_fragment_parts tr (fragment_parts_new ?i ?c payload) = packet"
  proof -
    have "fragment_parts_new ?i ?c payload = ?parts" by (simp add: fragment_parts_new_def payload_def)
    with docs(3) show ?thesis by (simp add: fragmentable_lossless_def)
  qed
  show ?thesis
  proof (cases "length payload \<le> ?n")
    case True
    then have "packets = [packet]"
      using sent pos f' restored count fragment_count_small [OF pos, of payload]
      by (auto simp: adapter_fragment_def fragment_packet_def fragment_bytes_def fragment_with_id_eq
          is_fragmented_def payload_def Let_def)
    moreover have "adapter_reassemble api hc tr b packet now = (b, Inr (Some packet))" for now
      using plain True restored by (simp add: adapter_reassemble_def payload_def Let_def)
    ultimately show ?thesis using tms(1) by (cases tms) auto
  next
    case False
    let ?frs = "fragments_of ?n ?mid payload"
    have k: "1 < fragment_count ?n payload"
      using False fragment_count_small [OF pos, of payload] fragment_count_pos [OF pos, of payload] by simp
    then have enc: "encode_batch api hc tr ?i ?c ?frs = Inr packets"
      using sent pos f' count
      by (auto simp: adapter_fragment_def fragment_packet_def fragment_bytes_def fragment_with_id_eq
          is_fragmented_def payload_def Let_def)
    obtain outs where outs: "packets = map (\<lambda>out. from_fragment_parts tr (fragment_parts_new ?i ?c out)) outs"
      "list_all2 (\<lambda>out fr. decode_fragment_payload api hc out = Inr (Some (ff_header fr, ff_payload fr))) outs ?frs"
      using encode_batch_ok [OF docs(1,2), of tr ?i ?c ?frs] enc by auto
    have len: "length packets = fragment_count ?n payload" "length tms = fragment_count ?n payload"
      using outs tms(1) by (auto dest: list_all2_lengthD)
    let ?z = "zip (map ff_header ?frs) (zip (map ff_payload ?frs) tms)"
    note z = fragments_rest_of [OF pos count len(2), of ?mid]
    have hd: "snd (snd (hd ?z)) = hd tms"
      using len k by (cases ?frs; cases tms) (auto simp flip: length_fragments_of [of ?n ?mid])
    have "list_all (\<lambda>(_, _, now). now - snd (snd (hd ?z)) < ra_timeout (fa_reassembler b)) ?z"
      unfolding hd using tms(2) by (auto simp: list_all_iff dest!: set_zip_rightD)
    from push_run_whole [OF _ z(1) this] ready z(2) obtain r' where
      "push_run (fa_reassembler b) ?z = (r', replicate (length ?z - 1) (Inr None) @
        [Inr (Some \<lparr>rm_message_id = ?mid, rm_payload = payload\<rparr>)])"
      by (metis (no_types, lifting))
    from reassemble_run_frames [OF docs(3) outs(2) _ this, of ?i ?c] show ?thesis
      using len restored by (simp add: outs(1) packet_result_def)
  qed
qed

section \<open>Properties\<close>

text \<open>
  C4: What one adapter splits, another puts together. When the packets for one message arrive in
  order, within the timeout of the first, at a reachable reassembler that holds nothing of that
  message and has room for it, every packet but the last is absorbed and the last one yields the
  original packet, identifier and correlation identifier included. The payload must not be a short
  one that itself begins with the fragment marker.
\<close>

theorem adapter_roundtrip:
  assumes docs: "bytes_documented api" "bincode_documented hc" "fragmentable_lossless tr"
    and payload_def: "payload = fp_payload (into_fragment_parts tr packet)"
    and pos: "0 < max_fragment_size (fa_fragmenter a)"
    and sent: "adapter_fragment api hc tr a packet = Some (a', Inr packets)"
    and plain: "decode_fragment_payload api hc payload = Inr None \<or> max_fragment_size (fa_fragmenter a) < length payload"
    and ready: "ready_for (fa_reassembler b) (next_message_id_counter (fa_fragmenter a)) (length payload)"
    and tms: "length tms = length packets"
      "list_all (\<lambda>now. now - hd tms < ra_timeout (fa_reassembler b)) tms"
  shows "\<exists>b'. reassemble_run api hc tr b (zip packets tms) =
    (b', replicate (length packets - 1) (Inr None) @ [Inr (Some packet)])"
  using assms by (rule adapter_delivers)

theorem adapter_roundtrip_witness:
  "let p = \<lparr>fp_id = 4, fp_correlation_id = Some 9, fp_payload = [1, 2, 3]\<rparr>;
       cfg = \<lparr>cfg_fragment_payload_cap = 2, cfg_max_message_size = 8, cfg_max_concurrent_partials = Some 2,
              cfg_max_buffered_bytes = Some 16, cfg_reassembly_timeout = 10\<rparr>
   in \<exists>a' packets b'.
     adapter_fragment reference_bytes reference_bincode identity_fragmentable (fragment_adapter_new cfg) p =
       Some (a', Inr packets) \<and> length packets = 2 \<and>
     reassemble_run reference_bytes reference_bincode identity_fragmentable (fragment_adapter_new cfg)
       (zip packets [0, 5]) = (b', [Inr None, Inr (Some p)])"
proof -
  let ?p = "\<lparr>fp_id = 4, fp_correlation_id = Some 9, fp_payload = [1, 2, 3]\<rparr>"
  let ?cfg = "\<lparr>cfg_fragment_payload_cap = 2, cfg_max_message_size = 8, cfg_max_concurrent_partials = Some 2,
    cfg_max_buffered_bytes = Some 16, cfg_reassembly_timeout = 10\<rparr>"
  let ?a = "fragment_adapter_new ?cfg" and ?tr = identity_fragmentable
  have a: "max_fragment_size (fa_fragmenter ?a) = 2" "next_message_id_counter (fa_fragmenter ?a) = 0"
    "fa_reassembler ?a = reassembler_new 8 10 (Some 2) (Some 16)"
    by (simp_all add: fragment_adapter_new_def fragmenter_new_def with_starting_id_def)
  have pay: "fp_payload (into_fragment_parts ?tr ?p) = [1, 2, 3]" by (simp add: identity_fragmentable_def)
  obtain outs where enc: "encode_batch reference_bytes reference_bincode ?tr 4 (Some 9) (fragments_of 2 0 [1, 2, 3]) = Inr outs"
    and two: "length outs = 2"
    using encode_batch_ok [OF reference_bytes_documented reference_bincode_documented,
        of ?tr 4 "Some 9" "fragments_of 2 0 [1, 2, 3]"]
    by (auto dest!: list_all2_lengthD simp: fragment_count_def)
  obtain a' where sent: "adapter_fragment reference_bytes reference_bincode ?tr ?a ?p = Some (a', Inr outs)"
    using enc a by (simp add: adapter_fragment_def fragment_packet_def fragment_bytes_def next_message_id_def
        fragment_with_id_eq is_fragmented_def identity_fragmentable_def fragment_count_def Let_def)
  have ready: "ready_for (fa_reassembler ?a) (next_message_id_counter (fa_fragmenter ?a)) (length [1 :: u8, 2, 3])"
    using reassembler_new_start(1) [of 8 10 "Some 2" "Some 16"]
    unfolding a ready_for_def has_room_def
    by (simp add: reassembler_new_def reassembly_budget_new_def usize_max_def buffered_len_def
        buffered_bytes_def)
  have pos: "0 < max_fragment_size (fa_fragmenter ?a)" by (simp add: a)
  have long: "decode_fragment_payload reference_bytes reference_bincode [1, 2, 3] = Inr None \<or>
      max_fragment_size (fa_fragmenter ?a) < length [1 :: u8, 2, 3]" by (simp add: a)
  have tms: "length [0, 5 :: nat] = length outs"
    "list_all (\<lambda>now. now - hd [0, 5] < ra_timeout (fa_reassembler ?a)) [0, 5]"
    using two by (simp_all add: a reassembler_new_def)
  obtain b' where "reassemble_run reference_bytes reference_bincode ?tr ?a (zip outs [0, 5]) =
      (b', replicate (length outs - 1) (Inr None) @ [Inr (Some ?p)])"
    using adapter_roundtrip [OF reference_bytes_documented reference_bincode_documented identity_lossless
        pay [symmetric] pos sent long ready tms] by blast
  with sent two show ?thesis unfolding Let_def by auto
qed




end
