(* ===== verification/Message_Series.thy ===== *)
theory Message_Series
  imports Prelude
begin

text \<open>
  Frame headers, errors and the ordering tracker of protocol-level message assembly:
  \<open>src/message_assembler/{header,error}.rs\<close> and \<open>src/message_assembler/series/mod.rs\<close>. Some
  constructors carry the prefix \<open>Asm\<close> because the fragment layer uses the same names.
\<close>

type_synonym message_key = u64
type_synonym frame_sequence = u32

definition sequence_checked_increment :: "frame_sequence \<Rightarrow> frame_sequence option" where
  "sequence_checked_increment s = checked_inc_u32 s"

record first_frame_header =
  ffh_message_key :: message_key
  ffh_metadata_len :: usize
  ffh_body_len :: usize
  ffh_total_body_len :: "usize option"
  ffh_is_last :: bool

record continuation_frame_header =
  cfh_message_key :: message_key
  cfh_sequence :: "frame_sequence option"
  cfh_body_len :: usize
  cfh_is_last :: bool

datatype frame_header = First first_frame_header | Continuation continuation_frame_header

record parsed_frame_header =
  pfh_header :: frame_header
  pfh_header_len :: usize

definition parsed_frame_header_new :: "frame_header \<Rightarrow> usize \<Rightarrow> parsed_frame_header" where
  "parsed_frame_header_new h n = \<lparr>pfh_header = h, pfh_header_len = n\<rparr>"

datatype message_series_status = AsmIncomplete | AsmComplete

datatype message_series_error =
    KeyMismatch (km_expected: message_key) (km_found: message_key)
  | SequenceMismatch (sm_expected: frame_sequence) (sm_found: frame_sequence)
  | AsmSeriesComplete
  | SequenceOverflow (so_last: frame_sequence)
  | MissingFirstFrame (mff_key: message_key)
  | DuplicateFrame (df_key: message_key) (df_sequence: frame_sequence)
  | MissingSequence (ms_key: message_key)
  | ContinuationBodyLengthMismatch (cbl_key: message_key) (cbl_header_len: usize) (cbl_actual_len: usize)

datatype message_assembly_error =
    AsmSeries message_series_error
  | DuplicateFirstFrame (dff_key: message_key)
  | AsmMessageTooLarge (amtl_key: message_key) (amtl_attempted: usize) (amtl_limit: usize)
  | ConnectionBudgetExceeded (cbe_key: message_key) (cbe_attempted: usize) (cbe_limit: usize)
  | InFlightBudgetExceeded (ibe_key: message_key) (ibe_attempted: usize) (ibe_limit: usize)
  | DeclaredTotalTooSmall (dts_key: message_key) (dts_declared: usize) (dts_body_len: usize)
  | DeclaredTotalExceeded (dte_key: message_key) (dte_declared: usize) (dte_attempted: usize)
  | DeclaredTotalMismatch (dtm_key: message_key) (dtm_declared: usize) (dtm_actual: usize)

section \<open>Message series\<close>

datatype sequence_tracking = Untracked | Tracked

record message_series =
  ms_message_key :: message_key
  ms_next_sequence :: "frame_sequence option"
  ms_sequence_tracking :: sequence_tracking
  ms_complete :: bool
  ms_expected_total :: "usize option"

definition series_from_first_frame :: "first_frame_header \<Rightarrow> message_series" where
  "series_from_first_frame h =
     \<lparr>ms_message_key = ffh_message_key h, ms_next_sequence = None, ms_sequence_tracking = Untracked,
      ms_complete = ffh_is_last h, ms_expected_total = ffh_total_body_len h\<rparr>"

definition advance_sequence_or_overflow ::
    "message_series \<Rightarrow> frame_sequence \<Rightarrow> bool \<Rightarrow> message_series \<times> (message_series_error + unit)" where
  "advance_sequence_or_overflow s incoming is_last =
     (let new_next = sequence_checked_increment incoming
      in if new_next = None \<and> \<not> is_last then (s, Inl (SequenceOverflow incoming))
         else (s\<lparr>ms_next_sequence := new_next\<rparr>, Inr ()))"

definition start_sequence_tracking ::
    "message_series \<Rightarrow> frame_sequence \<Rightarrow> bool \<Rightarrow> message_series \<times> (message_series_error + unit)" where
  "start_sequence_tracking s incoming is_last =
     (case advance_sequence_or_overflow s incoming is_last of
        (s', Inl e) \<Rightarrow> (s', Inl e)
      | (s', Inr _) \<Rightarrow> (s'\<lparr>ms_sequence_tracking := Tracked\<rparr>, Inr ()))"

definition advance_tracked_sequence ::
    "message_series \<Rightarrow> frame_sequence \<Rightarrow> bool \<Rightarrow> message_series \<times> (message_series_error + unit)" where
  "advance_tracked_sequence s incoming is_last =
     (case ms_next_sequence s of
        None \<Rightarrow> (s, Inl (SequenceOverflow incoming))
      | Some expected \<Rightarrow>
          if incoming < expected then (s, Inl (DuplicateFrame (ms_message_key s) incoming))
          else if incoming \<noteq> expected then (s, Inl (SequenceMismatch expected incoming))
          else advance_sequence_or_overflow s incoming is_last)"

definition validate_and_advance_sequence ::
    "message_series \<Rightarrow> frame_sequence \<Rightarrow> bool \<Rightarrow> message_series \<times> (message_series_error + unit)" where
  "validate_and_advance_sequence s incoming is_last =
     (case ms_sequence_tracking s of
        Untracked \<Rightarrow> start_sequence_tracking s incoming is_last
      | Tracked \<Rightarrow> advance_tracked_sequence s incoming is_last)"

definition series_accept_continuation ::
    "message_series \<Rightarrow> continuation_frame_header \<Rightarrow>
     message_series \<times> (message_series_error + message_series_status)" where
  "series_accept_continuation s h =
     (if cfh_message_key h \<noteq> ms_message_key s
      then (s, Inl (KeyMismatch (ms_message_key s) (cfh_message_key h)))
      else if ms_complete s then (s, Inl AsmSeriesComplete)
      else
        let (s', checked) =
              (case cfh_sequence h of
                 Some incoming_seq \<Rightarrow> validate_and_advance_sequence s incoming_seq (cfh_is_last h)
               | None \<Rightarrow>
                   if ms_sequence_tracking s = Tracked
                   then (s, Inl (MissingSequence (ms_message_key s))) else (s, Inr ()))
        in case checked of
             Inl e \<Rightarrow> (s', Inl e)
           | Inr _ \<Rightarrow> if cfh_is_last h then (s'\<lparr>ms_complete := True\<rparr>, Inr AsmComplete)
                      else (s', Inr AsmIncomplete))"

lemmas message_series_defs =
  series_accept_continuation_def validate_and_advance_sequence_def advance_tracked_sequence_def
  start_sequence_tracking_def advance_sequence_or_overflow_def sequence_checked_increment_def

section \<open>Lemmas\<close>

lemma accept_continuation_error_unchanged:
  "series_accept_continuation s h = (s', Inl e) \<Longrightarrow> s' = s"
  by (auto simp: message_series_defs Let_def
      split: if_splits option.splits sequence_tracking.splits)

text \<open>The sequence numbers of the accepted frames: none at first, then consecutive ones.\<close>

fun follows :: "frame_sequence \<Rightarrow> frame_sequence option list \<Rightarrow> bool" where
  "follows q [] \<longleftrightarrow> True"
| "follows q (Some r # qs) \<longleftrightarrow> unat r = Suc (unat q) \<and> follows r qs"
| "follows q (None # qs) \<longleftrightarrow> False"

fun consecutive :: "frame_sequence option list \<Rightarrow> bool" where
  "consecutive [] \<longleftrightarrow> True"
| "consecutive (None # qs) \<longleftrightarrow> consecutive qs"
| "consecutive (Some q # qs) \<longleftrightarrow> follows q qs"

text \<open>What the tracker knows of the frames accepted so far.\<close>

definition tracker_inv :: "message_series \<Rightarrow> continuation_frame_header list \<Rightarrow> bool" where
  "tracker_inv s acc \<longleftrightarrow>
     list_all (\<lambda>h. cfh_message_key h = ms_message_key s) acc \<and>
     map cfh_is_last acc =
       (if ms_complete s then replicate (length acc - 1) False @ [True] else replicate (length acc) False) \<and>
     (case ms_sequence_tracking s of
        Untracked \<Rightarrow> list_all (\<lambda>h. cfh_sequence h = None) acc
      | Tracked \<Rightarrow> acc \<noteq> [] \<and> consecutive (map cfh_sequence acc) \<and>
          (\<exists>q. cfh_sequence (last acc) = Some q \<and> ms_next_sequence s = checked_inc_u32 q))"

lemma consecutive_None: "list_all (\<lambda>q. q = None) qs \<Longrightarrow> consecutive (qs @ rest) = consecutive rest"
  by (induction qs) auto

lemma follows_snoc:
  "follows p (qs @ [Some q]) \<Longrightarrow> unat r = Suc (unat q) \<Longrightarrow> follows p (qs @ [Some q, Some r])"
  by (induction p qs rule: follows.induct) auto

lemma consecutive_snoc:
  "consecutive (qs @ [Some q]) \<Longrightarrow> unat r = Suc (unat q) \<Longrightarrow> consecutive (qs @ [Some q, Some r])"
  by (induction qs rule: consecutive.induct) (auto intro: follows_snoc)

lemma tracker_inv_new:
  "\<not> ffh_is_last h \<Longrightarrow> tracker_inv (series_from_first_frame h) []"
  by (simp add: tracker_inv_def series_from_first_frame_def)

lemma not_Tracked: "t \<noteq> Tracked \<longleftrightarrow> t = Untracked"
  by (cases t) auto

text \<open>What an accepted frame tells.\<close>

lemma accept_continuation_Inr:
  assumes "series_accept_continuation s h = (s', Inr st)"
  shows "cfh_message_key h = ms_message_key s" "\<not> ms_complete s" "ms_complete s' = cfh_is_last h"
    "ms_message_key s' = ms_message_key s" "ms_expected_total s' = ms_expected_total s"
    "st = (if cfh_is_last h then AsmComplete else AsmIncomplete)"
    "case cfh_sequence h of
       None \<Rightarrow> ms_sequence_tracking s = Untracked \<and> ms_sequence_tracking s' = Untracked
     | Some q \<Rightarrow> ms_sequence_tracking s' = Tracked \<and> ms_next_sequence s' = checked_inc_u32 q \<and>
         (ms_sequence_tracking s = Tracked \<longrightarrow> ms_next_sequence s = Some q)"
  using assms
  by (auto simp: message_series_defs Let_def not_Tracked
      split: if_splits option.splits sequence_tracking.splits)

lemma tracker_inv_accept:
  assumes inv: "tracker_inv s acc" and acc: "series_accept_continuation s h = (s', Inr st)"
  shows "tracker_inv s' (acc @ [h])"
proof -
  note a = accept_continuation_Inr [OF acc]
  have lasts: "map cfh_is_last (acc @ [h]) =
      (if ms_complete s' then replicate (length acc) False @ [True] else replicate (Suc (length acc)) False)"
    using inv a(2,3) by (simp add: tracker_inv_def replicate_append_same)
  have keys: "list_all (\<lambda>g. cfh_message_key g = ms_message_key s') (acc @ [h])"
    using inv a(1,4) by (simp add: tracker_inv_def)
  have "case ms_sequence_tracking s' of
        Untracked \<Rightarrow> list_all (\<lambda>h. cfh_sequence h = None) (acc @ [h])
      | Tracked \<Rightarrow> consecutive (map cfh_sequence (acc @ [h])) \<and>
          (\<exists>q. cfh_sequence h = Some q \<and> ms_next_sequence s' = checked_inc_u32 q)"
  proof (cases "cfh_sequence h")
    case None
    with a(7) inv show ?thesis by (simp add: tracker_inv_def)
  next
    case (Some q)
    have "consecutive (map cfh_sequence (acc @ [h]))"
    proof (cases "ms_sequence_tracking s")
      case Untracked
      with inv have "list_all (\<lambda>q. q = None) (map cfh_sequence acc)"
        by (simp add: tracker_inv_def list_all_iff)
      with consecutive_None [of "map cfh_sequence acc" "[Some q]"] Some show ?thesis by simp
    next
      case Tracked
      then obtain p where p: "acc \<noteq> []" "consecutive (map cfh_sequence acc)"
        "cfh_sequence (last acc) = Some p" "ms_next_sequence s = checked_inc_u32 p"
        using inv by (auto simp: tracker_inv_def)
      have eq: "map cfh_sequence acc = map cfh_sequence (butlast acc) @ [Some p]"
        using p(1,3) by (metis append_butlast_last_id list.simps(8,9) map_append)
      have "unat q = Suc (unat p)"
        using a(7) Some Tracked p(4) by (simp add: unat_checked_inc_u32)
      then show ?thesis
        using consecutive_snoc [of "map cfh_sequence (butlast acc)" p q] p(2) Some
        by (simp only: eq map_append) simp
    qed
    with a(7) Some show ?thesis by simp
  qed
  with lasts keys show ?thesis
    by (simp add: tracker_inv_def split: sequence_tracking.splits)
qed


lemma tracker_inv_consecutive: "tracker_inv s acc \<Longrightarrow> consecutive (map cfh_sequence acc)"
  using consecutive_None [of "map cfh_sequence acc" "[]"]
  by (auto simp: tracker_inv_def list_all_iff split: sequence_tracking.splits)

section \<open>Properties\<close>

text \<open>The frames a series accepts out of a sequence of frames, and its final state.\<close>

fun series_feed ::
    "message_series \<Rightarrow> continuation_frame_header list \<Rightarrow> message_series \<times> continuation_frame_header list" where
  "series_feed s [] = (s, [])"
| "series_feed s (h # hs) =
     (case series_accept_continuation s h of
        (s', Inl e) \<Rightarrow> series_feed s' hs
      | (s', Inr st) \<Rightarrow> (let (s'', acc) = series_feed s' hs in (s'', h # acc)))"

lemma series_feed_inv:
  "tracker_inv s acc \<Longrightarrow> series_feed s hs = (s', new) \<Longrightarrow>
     tracker_inv s' (acc @ new) \<and> ms_message_key s' = ms_message_key s"
proof (induction hs arbitrary: s acc new)
  case Nil
  then show ?case by simp
next
  case (Cons h hs)
  obtain s1 r where step: "series_accept_continuation s h = (s1, r)" by fastforce
  show ?case
  proof (cases r)
    case (Inl e)
    with step have "s1 = s" using accept_continuation_error_unchanged by blast
    with Cons Inl step show ?thesis by simp
  next
    case (Inr st)
    with step have acc: "series_accept_continuation s h = (s1, Inr st)" by simp
    from Cons.prems(2) acc obtain new' where new: "series_feed s1 hs = (s', new')" "new = h # new'"
      by (auto split: prod.splits)
    from Cons.IH [OF tracker_inv_accept [OF Cons.prems(1) acc] new(1)] accept_continuation_Inr(4) [OF acc]
    show ?thesis by (simp add: new(2))
  qed
qed

text \<open>
  Whatever continuation frames are offered for a message, the ones its series accepts belong
  to that message; as soon as one of them carries a sequence number, every later one carries the
  next number, so duplicates, gaps and unnumbered frames in between are all refused; and the
  series is complete exactly when the last accepted frame is flagged as the final one.
\<close>

lemma message_series_consecutive:
  assumes "\<not> ffh_is_last first" and "series_feed (series_from_first_frame first) hs = (s, acc)"
  shows "list_all (\<lambda>h. cfh_message_key h = ffh_message_key first) acc \<and>
    consecutive (map cfh_sequence acc) \<and>
    map cfh_is_last acc =
      (if ms_complete s then replicate (length acc - 1) False @ [True] else replicate (length acc) False)"
proof -
  have inv: "tracker_inv s acc" "ms_message_key s = ffh_message_key first"
    using series_feed_inv [OF tracker_inv_new [OF assms(1)] assms(2)]
    by (simp_all add: series_from_first_frame_def)
  then show ?thesis using tracker_inv_consecutive [OF inv(1)] by (simp add: tracker_inv_def)
qed

end
