(* ===== verification/Message_Assembly.thy ===== *)
theory Message_Assembly
  imports Message_Series "HOL-Library.Sublist"
begin

text \<open>
  Protocol-level message assembly: \<open>src/message_assembler/{types,budget,validation,partial,state}.rs\<close>.
  The state is the map of partial assemblies with the size limit, the timeout and the aggregate
  budgets. Clock readings are arguments. \<open>total_buffered_bytes\<close> sums machine integers and is
  modelled with their wrap-around; the invariant shows that no budget check ever sees a wrapped sum.
\<close>

record envelope_routing =
  er_envelope_id :: u32
  er_correlation_id :: "u64 option"

record first_frame_input =
  ffi_header :: first_frame_header
  ffi_routing :: envelope_routing
  ffi_metadata :: bytes
  ffi_body :: bytes

datatype first_frame_input_error =
    MetadataLengthMismatch (mlm_header_len: usize) (mlm_actual_len: usize)
  | BodyLengthMismatch (blm_header_len: usize) (blm_actual_len: usize)

record assembled_message =
  am_message_key :: message_key
  am_routing :: envelope_routing
  am_metadata :: bytes
  am_body :: bytes

record aggregate_budgets =
  ab_connection :: "usize option"
  ab_in_flight :: "usize option"

record continuation_limits =
  cl_max_message_size :: usize
  cl_budgets :: aggregate_budgets

record partial_assembly =
  pa_series :: message_series
  pa_routing :: envelope_routing
  pa_metadata :: bytes
  pa_body :: bytes
  pa_started_at :: instant

record assembly_state =
  as_max_message_size :: usize
  as_timeout :: duration
  as_assemblies :: "(message_key, partial_assembly) hm"
  as_budgets :: aggregate_budgets

type_synonym assembly_result = "message_assembly_error + assembled_message option"

section \<open>Inputs and outputs\<close>

definition first_frame_input_new ::
    "first_frame_header \<Rightarrow> envelope_routing \<Rightarrow> bytes \<Rightarrow> bytes \<Rightarrow> first_frame_input_error + first_frame_input" where
  "first_frame_input_new h routing metadata body =
     (if ffh_metadata_len h \<noteq> length metadata
      then Inl (MetadataLengthMismatch (ffh_metadata_len h) (length metadata))
      else if ffh_body_len h \<noteq> length body then Inl (BodyLengthMismatch (ffh_body_len h) (length body))
      else Inr \<lparr>ffi_header = h, ffi_routing = routing, ffi_metadata = metadata, ffi_body = body\<rparr>)"

definition assembled_message_new ::
    "message_key \<Rightarrow> envelope_routing \<Rightarrow> bytes \<Rightarrow> bytes \<Rightarrow> assembled_message" where
  "assembled_message_new key routing metadata body =
     \<lparr>am_message_key = key, am_routing = routing, am_metadata = metadata, am_body = body\<rparr>"

section \<open>Budgets\<close>

definition budgets_enabled :: "aggregate_budgets \<Rightarrow> bool" where
  "budgets_enabled b \<longleftrightarrow> ab_connection b \<noteq> None \<or> ab_in_flight b \<noteq> None"

definition check_aggregate_budgets ::
    "message_key \<Rightarrow> usize \<Rightarrow> usize \<Rightarrow> aggregate_budgets \<Rightarrow> message_assembly_error + unit" where
  "check_aggregate_budgets key current_total additional_bytes budgets =
     (let new_total = saturating_add_usize current_total additional_bytes;
          in_flight_check =
            (case ab_in_flight budgets of
               None \<Rightarrow> Inr ()
             | Some limit \<Rightarrow>
                 if limit < new_total then Inl (InFlightBudgetExceeded key new_total limit) else Inr ())
      in case ab_connection budgets of
           None \<Rightarrow> in_flight_check
         | Some limit \<Rightarrow>
             if limit < new_total then Inl (ConnectionBudgetExceeded key new_total limit)
             else in_flight_check)"

definition check_size_limit ::
    "usize \<Rightarrow> message_key \<Rightarrow> usize \<Rightarrow> usize \<Rightarrow> message_assembly_error + usize" where
  "check_size_limit max_message_size key accumulated body_len =
     (case checked_add_usize accumulated body_len of
        None \<Rightarrow> Inl (AsmMessageTooLarge key usize_max max_message_size)
      | Some new_len \<Rightarrow>
          if max_message_size < new_len then Inl (AsmMessageTooLarge key new_len max_message_size)
          else Inr new_len)"

section \<open>Declared totals\<close>

definition validate_first_frame :: "first_frame_header \<Rightarrow> usize \<Rightarrow> message_assembly_error + unit" where
  "validate_first_frame h body_len =
     (case ffh_total_body_len h of
        None \<Rightarrow> Inr ()
      | Some declared \<Rightarrow>
          if declared < body_len then Inl (DeclaredTotalTooSmall (ffh_message_key h) declared body_len)
          else if ffh_is_last h \<and> declared \<noteq> body_len
          then Inl (DeclaredTotalMismatch (ffh_message_key h) declared body_len)
          else Inr ())"

definition validate_continuation ::
    "message_key \<Rightarrow> usize \<Rightarrow> usize \<Rightarrow> usize \<Rightarrow> message_assembly_error + unit" where
  "validate_continuation key declared accumulated body_len =
     (case checked_add_usize accumulated body_len of
        None \<Rightarrow> Inl (DeclaredTotalExceeded key declared usize_max)
      | Some attempted \<Rightarrow>
          if declared < attempted then Inl (DeclaredTotalExceeded key declared attempted) else Inr ())"

definition validate_completion :: "message_key \<Rightarrow> usize \<Rightarrow> usize \<Rightarrow> message_assembly_error + unit" where
  "validate_completion key declared actual =
     (if actual \<noteq> declared then Inl (DeclaredTotalMismatch key declared actual) else Inr ())"

section \<open>Partial assemblies\<close>

definition partial_from_first_frame :: "first_frame_input \<Rightarrow> instant \<Rightarrow> partial_assembly" where
  "partial_from_first_frame input started_at =
     \<lparr>pa_series = series_from_first_frame (ffi_header input), pa_routing = ffi_routing input,
      pa_metadata = ffi_metadata input, pa_body = ffi_body input, pa_started_at = started_at\<rparr>"

definition declared_total :: "partial_assembly \<Rightarrow> usize option" where
  "declared_total p = ms_expected_total (pa_series p)"

definition partial_accept_continuation ::
    "partial_assembly \<Rightarrow> continuation_frame_header \<Rightarrow>
     partial_assembly \<times> (message_series_error + message_series_status)" where
  "partial_accept_continuation p h =
     (let (s', r) = series_accept_continuation (pa_series p) h in (p\<lparr>pa_series := s'\<rparr>, r))"

definition admit_continuation ::
    "partial_assembly \<Rightarrow> usize \<Rightarrow> usize \<Rightarrow> continuation_limits \<Rightarrow> message_assembly_error + unit" where
  "admit_continuation p body_len buffered_total limits =
     (let key = ms_message_key (pa_series p); accumulated = length (pa_body p)
      in case check_size_limit (cl_max_message_size limits) key accumulated body_len of
           Inl e \<Rightarrow> Inl e
         | Inr _ \<Rightarrow>
             (case check_aggregate_budgets key buffered_total body_len (cl_budgets limits) of
                Inl e \<Rightarrow> Inl e
              | Inr _ \<Rightarrow>
                  (case declared_total p of
                     None \<Rightarrow> Inr ()
                   | Some declared \<Rightarrow> validate_continuation key declared accumulated body_len)))"

definition push_body :: "bytes \<Rightarrow> partial_assembly \<Rightarrow> partial_assembly" where
  "push_body body p = p\<lparr>pa_body := pa_body p @ body\<rparr>"

definition partial_buffered_bytes :: "partial_assembly \<Rightarrow> usize" where
  "partial_buffered_bytes p = saturating_add_usize (length (pa_metadata p)) (length (pa_body p))"

definition into_message :: "partial_assembly \<Rightarrow> assembly_result" where
  "into_message p =
     (let key = ms_message_key (pa_series p);
          msg = Inr (Some (assembled_message_new key (pa_routing p) (pa_metadata p) (pa_body p)))
      in case ms_expected_total (pa_series p) of
           None \<Rightarrow> msg
         | Some declared \<Rightarrow>
             (case validate_completion key declared (length (pa_body p)) of Inl e \<Rightarrow> Inl e | Inr _ \<Rightarrow> msg))"

section \<open>Assembly state\<close>

definition assembly_with_budgets ::
    "usize \<Rightarrow> duration \<Rightarrow> usize option \<Rightarrow> usize option \<Rightarrow> assembly_state" where
  "assembly_with_budgets max_message_size timeout connection_budget in_flight_budget =
     \<lparr>as_max_message_size = max_message_size, as_timeout = timeout, as_assemblies = [],
      as_budgets = \<lparr>ab_connection = connection_budget, ab_in_flight = in_flight_budget\<rparr>\<rparr>"

definition assembly_new :: "usize \<Rightarrow> duration \<Rightarrow> assembly_state" where
  "assembly_new max_message_size timeout = assembly_with_budgets max_message_size timeout None None"

definition assembly_expired :: "instant \<Rightarrow> duration \<Rightarrow> partial_assembly \<Rightarrow> bool" where
  "assembly_expired now timeout p \<longleftrightarrow> timeout \<le> saturating_duration_since now (pa_started_at p)"

definition assembly_purge_expired_at :: "assembly_state \<Rightarrow> instant \<Rightarrow> assembly_state \<times> message_key list" where
  "assembly_purge_expired_at st now =
     (st\<lparr>as_assemblies := hm_retain (\<lambda>k p. \<not> assembly_expired now (as_timeout st) p) (as_assemblies st)\<rparr>,
      map fst (filter (\<lambda>(k, p). assembly_expired now (as_timeout st) p) (as_assemblies st)))"

definition total_buffered_bytes :: "assembly_state \<Rightarrow> usize" where
  "total_buffered_bytes st =
     entries_weight partial_buffered_bytes (as_assemblies st) mod (usize_max + 1)"

definition buffered_count :: "assembly_state \<Rightarrow> usize" where
  "buffered_count st = length (as_assemblies st)"

definition accept_first_frame_at ::
    "assembly_state \<Rightarrow> first_frame_input \<Rightarrow> instant \<Rightarrow> assembly_state \<times> assembly_result" where
  "accept_first_frame_at st0 input now =
     (let st = fst (assembly_purge_expired_at st0 now);
          h = ffi_header input; key = ffh_message_key h
      in if hm_lookup (as_assemblies st) key \<noteq> None then (st, Inl (DuplicateFirstFrame key))
         else case validate_first_frame h (length (ffi_body input)) of
           Inl e \<Rightarrow> (st, Inl e)
         | Inr _ \<Rightarrow>
             (let declared_body_len =
                    (case ffh_total_body_len h of None \<Rightarrow> length (ffi_body input) | Some d \<Rightarrow> d);
                  total_message_size = saturating_add_usize declared_body_len (length (ffi_metadata input))
              in if as_max_message_size st < total_message_size
                 then (st, Inl (AsmMessageTooLarge key total_message_size (as_max_message_size st)))
                 else if ffh_is_last h
                 then (st, Inr (Some (assembled_message_new key (ffi_routing input)
                                        (ffi_metadata input) (ffi_body input))))
                 else case (if budgets_enabled (as_budgets st)
                            then check_aggregate_budgets key (total_buffered_bytes st)
                                   (saturating_add_usize (length (ffi_body input)) (length (ffi_metadata input)))
                                   (as_budgets st)
                            else Inr ()) of
                   Inl e \<Rightarrow> (st, Inl e)
                 | Inr _ \<Rightarrow>
                     (st\<lparr>as_assemblies :=
                           hm_insert key (partial_from_first_frame input now) (as_assemblies st)\<rparr>,
                      Inr None)))"

fun is_unrecoverable_continuity_error :: "message_series_error \<Rightarrow> bool" where
  "is_unrecoverable_continuity_error (KeyMismatch _ _) = True"
| "is_unrecoverable_continuity_error (SequenceOverflow _) = True"
| "is_unrecoverable_continuity_error (MissingFirstFrame _) = True"
| "is_unrecoverable_continuity_error (MissingSequence _) = True"
| "is_unrecoverable_continuity_error (ContinuationBodyLengthMismatch _ _ _) = True"
| "is_unrecoverable_continuity_error _ = False"

definition accept_continuation_frame_at ::
    "assembly_state \<Rightarrow> continuation_frame_header \<Rightarrow> bytes \<Rightarrow> instant \<Rightarrow> assembly_state \<times> assembly_result" where
  "accept_continuation_frame_at st0 h body now =
     (let st = fst (assembly_purge_expired_at st0 now);
          key = cfh_message_key h
      in if cfh_body_len h \<noteq> length body
         then (st, Inl (AsmSeries (ContinuationBodyLengthMismatch key (cfh_body_len h) (length body))))
         else
           let limits = \<lparr>cl_max_message_size = as_max_message_size st, cl_budgets = as_budgets st\<rparr>;
               buffered_total = (if budgets_enabled (cl_budgets limits) then total_buffered_bytes st else 0)
           in case hm_lookup (as_assemblies st) key of
                None \<Rightarrow> (st, Inl (AsmSeries (MissingFirstFrame key)))
              | Some entry \<Rightarrow>
                  (case partial_accept_continuation entry h of
                     (p, Inl e) \<Rightarrow>
                       (st\<lparr>as_assemblies :=
                             (if is_unrecoverable_continuity_error e
                              then hm_remove key (hm_insert key p (as_assemblies st))
                              else hm_insert key p (as_assemblies st))\<rparr>,
                        Inl (AsmSeries e))
                   | (p, Inr status) \<Rightarrow>
                       (case admit_continuation p (length body) buffered_total limits of
                          Inl e \<Rightarrow>
                            (st\<lparr>as_assemblies := hm_remove key (hm_insert key p (as_assemblies st))\<rparr>, Inl e)
                        | Inr _ \<Rightarrow>
                            (let p' = push_body body p
                             in case status of
                                  AsmIncomplete \<Rightarrow>
                                    (st\<lparr>as_assemblies := hm_insert key p' (as_assemblies st)\<rparr>, Inr None)
                                | AsmComplete \<Rightarrow>
                                    (st\<lparr>as_assemblies := hm_remove key (hm_insert key p' (as_assemblies st))\<rparr>,
                                     into_message p')))))"


section \<open>Limits\<close>

interpretation aw: weighted_map hm_lookup hm_insert hm_remove hm_retain "\<lambda>m. m" hm_invar partial_buffered_bytes
  by unfold_locales

text \<open>A limit of \<open>usize::MAX\<close> is no limit, because the checked sums saturate there.\<close>

definition within_limit :: "usize option \<Rightarrow> nat \<Rightarrow> bool" where
  "within_limit l n \<longleftrightarrow> (case l of None \<Rightarrow> True | Some l \<Rightarrow> l < usize_max \<longrightarrow> n \<le> l)"

definition assembly_ok :: "usize \<Rightarrow> message_key \<Rightarrow> partial_assembly \<Rightarrow> bool" where
  "assembly_ok m k p \<longleftrightarrow>
     ms_message_key (pa_series p) = k \<and> \<not> ms_complete (pa_series p) \<and>
     length (pa_metadata p) \<le> m \<and> length (pa_body p) \<le> m \<and>
     (case declared_total p of
        None \<Rightarrow> True
      | Some d \<Rightarrow> length (pa_body p) \<le> d \<and> d + length (pa_metadata p) \<le> m)"

definition assemblies_within :: "aggregate_budgets \<Rightarrow> (message_key, partial_assembly) hm \<Rightarrow> bool" where
  "assemblies_within b m \<longleftrightarrow>
     within_limit (ab_connection b) (entries_weight partial_buffered_bytes m) \<and>
     within_limit (ab_in_flight b) (entries_weight partial_buffered_bytes m)"

definition asm_inv :: "assembly_state \<Rightarrow> bool" where
  "asm_inv st \<longleftrightarrow>
     hm_invar (as_assemblies st) \<and> as_max_message_size st < usize_max \<and>
     assemblies_within (as_budgets st) (as_assemblies st) \<and>
     (\<forall>k p. hm_lookup (as_assemblies st) k = Some p \<longrightarrow> assembly_ok (as_max_message_size st) k p)"

definition same_config :: "assembly_state \<Rightarrow> assembly_state \<Rightarrow> bool" where
  "same_config st st' \<longleftrightarrow> as_max_message_size st' = as_max_message_size st \<and>
     as_timeout st' = as_timeout st \<and> as_budgets st' = as_budgets st"

lemma within_limit_mono: "within_limit l n \<Longrightarrow> m \<le> n \<Longrightarrow> within_limit l m"
  by (auto simp: within_limit_def split: option.splits)

lemma within_limit_grow:
  assumes "within_limit l w"
    and "\<And>x. l = Some x \<Longrightarrow> \<not> x < saturating_add_usize (w mod (usize_max + 1)) n"
  shows "within_limit l (w + n)"
  using assms by (auto simp: within_limit_def saturating_add_usize_def split: option.splits)

lemma assemblies_within_mono:
  "assemblies_within b m \<Longrightarrow>
   entries_weight partial_buffered_bytes m' \<le> entries_weight partial_buffered_bytes m \<Longrightarrow>
   assemblies_within b m'"
  by (auto simp: assemblies_within_def intro: within_limit_mono)

lemma check_aggregate_budgets_Inr:
  "check_aggregate_budgets key t n b = Inr u \<longleftrightarrow>
     (\<forall>x. ab_connection b = Some x \<longrightarrow> \<not> x < saturating_add_usize t n) \<and>
     (\<forall>x. ab_in_flight b = Some x \<longrightarrow> \<not> x < saturating_add_usize t n)"
  by (auto simp: check_aggregate_budgets_def Let_def split: option.splits)

text \<open>A passed budget check leaves room for the checked number of bytes.\<close>

lemma assemblies_within_grow:
  assumes "assemblies_within b m"
    and "budgets_enabled b \<Longrightarrow> check_aggregate_budgets key
      (entries_weight partial_buffered_bytes m mod (usize_max + 1)) n b = Inr u"
    and "entries_weight partial_buffered_bytes m' \<le> entries_weight partial_buffered_bytes m + n"
  shows "assemblies_within b m'"
proof (cases "budgets_enabled b")
  case True
  have "within_limit (ab_connection b) (entries_weight partial_buffered_bytes m + n)"
    "within_limit (ab_in_flight b) (entries_weight partial_buffered_bytes m + n)"
    using assms(1) assms(2) [OF True] within_limit_grow
    by (auto simp: assemblies_within_def check_aggregate_budgets_Inr)
  with assms(3) show ?thesis by (auto simp: assemblies_within_def intro: within_limit_mono)
next
  case False
  then show ?thesis by (simp add: budgets_enabled_def assemblies_within_def within_limit_def)
qed

lemma partial_buffered_bytes_push:
  "partial_buffered_bytes (push_body body p) \<le> partial_buffered_bytes p + length body"
  by (simp add: partial_buffered_bytes_def push_body_def saturating_add_usize_def)

lemma partial_buffered_bytes_series [simp]:
  "partial_buffered_bytes (p\<lparr>pa_series := s\<rparr>) = partial_buffered_bytes p"
  by (simp add: partial_buffered_bytes_def)

section \<open>Every operation keeps the limits\<close>

lemma remove_insert_weight:
  "hm_invar m \<Longrightarrow> entries_weight w (hm_remove k (hm_insert k v m)) \<le> entries_weight w m"
proof -
  assume inv: "hm_invar m"
  have "entries_weight w (hm_remove k (hm_insert k v m)) = entries_weight w (hm_remove k m)"
    using hm.remove_insert_entries [OF inv, of k v] by (simp add: entries_weight_mset)
  also have "\<dots> \<le> entries_weight w m"
    by (cases "hm_lookup m k")
       (auto simp: hm.entries_remove_absent entries_weight_mset dest: hm.entries_remove [OF inv])
  finally show ?thesis .
qed

lemma assembly_purge_inv:
  assumes "asm_inv st" and "assembly_purge_expired_at st now = (st', ev)"
  shows "asm_inv st'" "same_config st st'"
    "hm_lookup (as_assemblies st') k = (case hm_lookup (as_assemblies st) k of None \<Rightarrow> None
      | Some p \<Rightarrow> if assembly_expired now (as_timeout st) p then None else Some p)"
proof -
  have st': "st' = st\<lparr>as_assemblies := hm_retain (\<lambda>k p. \<not> assembly_expired now (as_timeout st) p) (as_assemblies st)\<rparr>"
    using assms(2) by (simp add: assembly_purge_expired_at_def)
  have inv: "hm_invar (as_assemblies st)" using assms(1) by (simp add: asm_inv_def)
  show look: "hm_lookup (as_assemblies st') k = (case hm_lookup (as_assemblies st) k of None \<Rightarrow> None
      | Some p \<Rightarrow> if assembly_expired now (as_timeout st) p then None else Some p)" for k
    using inv by (simp add: st' hm.lookup_retain split: option.split)
  show "same_config st st'" by (simp add: st' same_config_def)
  have "assemblies_within (as_budgets st) (as_assemblies st')"
    using assms(1) aw.weight_retain by (auto simp: asm_inv_def st' intro: assemblies_within_mono)
  moreover have "assembly_ok (as_max_message_size st) k p" if "hm_lookup (as_assemblies st') k = Some p" for k p
    using that assms(1) look [of k] by (auto simp: asm_inv_def split: option.splits if_splits)
  ultimately show "asm_inv st'" using assms(1) inv by (simp add: asm_inv_def st')
qed

text \<open>Storing an acceptable assembly, and dropping one.\<close>

lemma asm_inv_store:
  assumes "asm_inv st" and "assembly_ok (as_max_message_size st) k p"
    and "assemblies_within (as_budgets st) (hm_insert k p (as_assemblies st))"
  shows "asm_inv (st\<lparr>as_assemblies := hm_insert k p (as_assemblies st)\<rparr>)"
  using assms by (auto simp: asm_inv_def hm.lookup_insert split: if_splits)

lemma asm_inv_drop:
  assumes "asm_inv st"
  shows "asm_inv (st\<lparr>as_assemblies := hm_remove k (hm_insert k p (as_assemblies st))\<rparr>)"
proof -
  have inv: "hm_invar (as_assemblies st)" using assms by (simp add: asm_inv_def)
  have "assemblies_within (as_budgets st) (hm_remove k (hm_insert k p (as_assemblies st)))"
    using assms remove_insert_weight [OF inv] by (auto simp: asm_inv_def intro: assemblies_within_mono)
  with assms inv show ?thesis
    by (auto simp: asm_inv_def hm.lookup_insert hm.lookup_remove split: if_splits)
qed


text \<open>The possible outcomes of the two operations, on the state left by the purge.\<close>

lemma accept_first_cases:
  assumes "accept_first_frame_at st0 input now = (st', res)" and "assembly_purge_expired_at st0 now = (st, ev)"
  obtains (reject) e where "st' = st" "res = Inl e"
  | (single) "st' = st" "ffh_is_last (ffi_header input)"
      "validate_first_frame (ffi_header input) (length (ffi_body input)) = Inr ()"
      "\<not> as_max_message_size st < saturating_add_usize
         (case ffh_total_body_len (ffi_header input) of None \<Rightarrow> length (ffi_body input) | Some d \<Rightarrow> d)
         (length (ffi_metadata input))"
      "res = Inr (Some (assembled_message_new (ffh_message_key (ffi_header input)) (ffi_routing input)
         (ffi_metadata input) (ffi_body input)))"
  | (start) "\<not> ffh_is_last (ffi_header input)" "res = Inr None"
      "hm_lookup (as_assemblies st) (ffh_message_key (ffi_header input)) = None"
      "validate_first_frame (ffi_header input) (length (ffi_body input)) = Inr ()"
      "\<not> as_max_message_size st < saturating_add_usize
         (case ffh_total_body_len (ffi_header input) of None \<Rightarrow> length (ffi_body input) | Some d \<Rightarrow> d)
         (length (ffi_metadata input))"
      "budgets_enabled (as_budgets st) \<Longrightarrow> check_aggregate_budgets (ffh_message_key (ffi_header input))
         (total_buffered_bytes st) (saturating_add_usize (length (ffi_body input)) (length (ffi_metadata input)))
         (as_budgets st) = Inr ()"
      "st' = st\<lparr>as_assemblies := hm_insert (ffh_message_key (ffi_header input))
         (partial_from_first_frame input now) (as_assemblies st)\<rparr>"
proof -
  let ?h = "ffi_header input"
  consider e where "st' = st" "res = Inl e" | "hm_lookup (as_assemblies st) (ffh_message_key ?h) = None"
    "validate_first_frame ?h (length (ffi_body input)) = Inr ()"
    "\<not> as_max_message_size st < saturating_add_usize
       (case ffh_total_body_len ?h of None \<Rightarrow> length (ffi_body input) | Some d \<Rightarrow> d) (length (ffi_metadata input))"
    using assms by (auto simp: accept_first_frame_at_def Let_def split: if_splits sum.splits)
  then show ?thesis
  proof cases
    case 1
    then show ?thesis by (rule reject)
  next
    case 2
    with assms show ?thesis
      by (cases "ffh_is_last ?h")
         (auto simp: accept_first_frame_at_def Let_def split: if_splits sum.splits
           intro: reject single start)
  qed
qed

lemma accept_continuation_cases:
  assumes "accept_continuation_frame_at st0 h body now = (st', res)"
    and "assembly_purge_expired_at st0 now = (st, ev)"
  defines "key \<equiv> cfh_message_key h"
    and "limits \<equiv> \<lparr>cl_max_message_size = as_max_message_size st, cl_budgets = as_budgets st\<rparr>"
    and "buffered \<equiv> (if budgets_enabled (as_budgets st) then total_buffered_bytes st else 0)"
  obtains (length) "cfh_body_len h \<noteq> length body" "st' = st"
      "res = Inl (AsmSeries (ContinuationBodyLengthMismatch key (cfh_body_len h) (length body)))"
  | (missing) "hm_lookup (as_assemblies st) key = None" "st' = st"
      "res = Inl (AsmSeries (MissingFirstFrame key))"
  | (order) p e where "hm_lookup (as_assemblies st) key = Some p"
      "series_accept_continuation (pa_series p) h = (pa_series p, Inl e)" "res = Inl (AsmSeries e)"
      "st' = st\<lparr>as_assemblies := (if is_unrecoverable_continuity_error e
         then hm_remove key (hm_insert key p (as_assemblies st)) else hm_insert key p (as_assemblies st))\<rparr>"
  | (refuse) p s status e where "hm_lookup (as_assemblies st) key = Some p"
      "series_accept_continuation (pa_series p) h = (s, Inr status)"
      "admit_continuation (p\<lparr>pa_series := s\<rparr>) (length body) buffered limits = Inl e" "res = Inl e"
      "st' = st\<lparr>as_assemblies := hm_remove key (hm_insert key (p\<lparr>pa_series := s\<rparr>) (as_assemblies st))\<rparr>"
  | (more) p s where "hm_lookup (as_assemblies st) key = Some p"
      "series_accept_continuation (pa_series p) h = (s, Inr AsmIncomplete)"
      "admit_continuation (p\<lparr>pa_series := s\<rparr>) (length body) buffered limits = Inr ()" "res = Inr None"
      "st' = st\<lparr>as_assemblies := hm_insert key (push_body body (p\<lparr>pa_series := s\<rparr>)) (as_assemblies st)\<rparr>"
  | (final) p s where "hm_lookup (as_assemblies st) key = Some p"
      "series_accept_continuation (pa_series p) h = (s, Inr AsmComplete)"
      "admit_continuation (p\<lparr>pa_series := s\<rparr>) (length body) buffered limits = Inr ()"
      "res = into_message (push_body body (p\<lparr>pa_series := s\<rparr>))"
      "st' = st\<lparr>as_assemblies := hm_remove key
         (hm_insert key (push_body body (p\<lparr>pa_series := s\<rparr>)) (as_assemblies st))\<rparr>"
proof (cases "cfh_body_len h = length body")
  case False
  with assms show ?thesis by (intro length) (auto simp: accept_continuation_frame_at_def)
next
  case len: True
  show ?thesis
  proof (cases "hm_lookup (as_assemblies st) key")
    case None
    with assms len show ?thesis by (intro missing) (auto simp: accept_continuation_frame_at_def Let_def)
  next
    case (Some p)
    obtain s r where acc: "series_accept_continuation (pa_series p) h = (s, r)" by fastforce
    have pacc: "partial_accept_continuation p h = (p\<lparr>pa_series := s\<rparr>, r)"
      by (simp add: partial_accept_continuation_def acc)
    show ?thesis
    proof (cases r)
      case (Inl e)
      have "s = pa_series p" using accept_continuation_error_unchanged acc Inl by blast
      with Inl acc Some assms len pacc show ?thesis
        by (intro order) (auto simp: accept_continuation_frame_at_def Let_def)
    next
      case (Inr status)
      have run: "(st', res) = (case admit_continuation (p\<lparr>pa_series := s\<rparr>) (length body) buffered limits of
          Inl e \<Rightarrow> (st\<lparr>as_assemblies := hm_remove key (hm_insert key (p\<lparr>pa_series := s\<rparr>) (as_assemblies st))\<rparr>, Inl e)
        | Inr _ \<Rightarrow> (case status of
            AsmIncomplete \<Rightarrow>
              (st\<lparr>as_assemblies := hm_insert key (push_body body (p\<lparr>pa_series := s\<rparr>)) (as_assemblies st)\<rparr>, Inr None)
          | AsmComplete \<Rightarrow>
              (st\<lparr>as_assemblies := hm_remove key (hm_insert key (push_body body (p\<lparr>pa_series := s\<rparr>)) (as_assemblies st))\<rparr>,
               into_message (push_body body (p\<lparr>pa_series := s\<rparr>)))))"
        unfolding assms(1) [symmetric] accept_continuation_frame_at_def Let_def key_def limits_def buffered_def
          assms(2) fst_conv
        using len Some [unfolded key_def] Inr pacc by simp
      show ?thesis
      proof (cases "admit_continuation (p\<lparr>pa_series := s\<rparr>) (length body) buffered limits")
        case (Inl e)
        with run Some acc Inr show ?thesis by (intro refuse) simp_all
      next
        case admitted: (Inr u)
        then show ?thesis
          using run Some acc Inr by (cases status) (auto intro: more final)
      qed
    qed
  qed
qed


lemma first_frame_ok:
  assumes "validate_first_frame (ffi_header input) (length (ffi_body input)) = Inr u"
    and "\<not> m < saturating_add_usize
      (case ffh_total_body_len (ffi_header input) of None \<Rightarrow> length (ffi_body input) | Some d \<Rightarrow> d)
      (length (ffi_metadata input))"
    and "\<not> ffh_is_last (ffi_header input)" and "m < usize_max"
  shows "assembly_ok m (ffh_message_key (ffi_header input)) (partial_from_first_frame input now)"
  using assms
  by (auto simp: assembly_ok_def partial_from_first_frame_def series_from_first_frame_def declared_total_def
      validate_first_frame_def saturating_add_usize_def split: option.splits if_splits)

lemma admit_continuation_Inr:
  assumes "admit_continuation p n buffered \<lparr>cl_max_message_size = m, cl_budgets = b\<rparr> = Inr u"
  shows "length (pa_body p) + n \<le> m"
    "check_aggregate_budgets (ms_message_key (pa_series p)) buffered n b = Inr ()"
    "\<And>d. declared_total p = Some d \<Longrightarrow> length (pa_body p) + n \<le> d"
  using assms
  by (auto simp: admit_continuation_def check_size_limit_def validate_continuation_def checked_add_usize_def
      Let_def split: option.splits sum.splits if_splits)

lemma push_body_ok:
  assumes "assembly_ok m k p" and "series_accept_continuation (pa_series p) h = (s, Inr AsmIncomplete)"
    and "admit_continuation (p\<lparr>pa_series := s\<rparr>) (length body) buffered \<lparr>cl_max_message_size = m, cl_budgets = b\<rparr> = Inr u"
  shows "assembly_ok m k (push_body body (p\<lparr>pa_series := s\<rparr>))"
  using assms(1) accept_continuation_Inr [OF assms(2)] admit_continuation_Inr [OF assms(3)]
  by (auto simp: assembly_ok_def push_body_def declared_total_def split: option.splits if_splits)

text \<open>Every operation keeps the invariant and touches only the assembly of its own key.\<close>

definition asm_step_ok :: "message_key \<Rightarrow> assembly_state \<Rightarrow> assembly_state \<Rightarrow> bool" where
  "asm_step_ok key st st' \<longleftrightarrow>
     asm_inv st' \<and> same_config st st' \<and>
     (\<forall>k. k \<noteq> key \<longrightarrow> hm_lookup (as_assemblies st') k = hm_lookup (as_assemblies st) k)"

lemma asm_step_refl: "asm_inv st \<Longrightarrow> asm_step_ok key st st"
  by (simp add: asm_step_ok_def same_config_def)

lemma asm_step_drop:
  "asm_inv st \<Longrightarrow> asm_step_ok key st (st\<lparr>as_assemblies := hm_remove key (hm_insert key p (as_assemblies st))\<rparr>)"
  using asm_inv_drop by (simp add: asm_step_ok_def same_config_def hm.lookup_insert hm.lookup_remove)

lemma asm_step_store:
  assumes "asm_inv st" and "assembly_ok (as_max_message_size st) k p"
    and "assemblies_within (as_budgets st) (hm_insert k p (as_assemblies st))"
  shows "asm_step_ok k st (st\<lparr>as_assemblies := hm_insert k p (as_assemblies st)\<rparr>)"
  using asm_inv_store [OF assms] by (simp add: asm_step_ok_def same_config_def hm.lookup_insert)

lemma accept_first_step_ok:
  assumes "asm_inv st0" and "accept_first_frame_at st0 input now = (st', res)"
    and "assembly_purge_expired_at st0 now = (st, ev)"
  shows "asm_step_ok (ffh_message_key (ffi_header input)) st st'"
proof -
  have inv: "asm_inv st" by (rule assembly_purge_inv [OF assms(1,3)])
  from assms(2,3) show ?thesis
  proof (cases rule: accept_first_cases)
    case start
    let ?k = "ffh_message_key (ffi_header input)" and ?p = "partial_from_first_frame input now"
    have hm: "hm_invar (as_assemblies st)" and max: "as_max_message_size st < usize_max"
      using inv by (simp_all add: asm_inv_def)
    have ok: "assembly_ok (as_max_message_size st) ?k ?p"
      by (rule first_frame_ok [OF start(4,5,1) max])
    have w: "partial_buffered_bytes ?p = saturating_add_usize (length (ffi_body input)) (length (ffi_metadata input))"
      by (simp add: partial_buffered_bytes_def partial_from_first_frame_def saturating_add_usize_def add.commute)
    have "assemblies_within (as_budgets st) (hm_insert ?k ?p (as_assemblies st))"
    proof (rule assemblies_within_grow)
      show "assemblies_within (as_budgets st) (as_assemblies st)" using inv by (simp add: asm_inv_def)
      show "budgets_enabled (as_budgets st) \<Longrightarrow> check_aggregate_budgets ?k
          (entries_weight partial_buffered_bytes (as_assemblies st) mod (usize_max + 1))
          (partial_buffered_bytes ?p) (as_budgets st) = Inr ()"
        using start(6) by (simp only: w total_buffered_bytes_def)
    qed (simp add: aw.weight_insert_fresh [OF hm start(3)])
    from asm_step_store [OF inv ok this] show ?thesis by (simp add: start(7))
  qed (simp_all add: asm_step_refl [OF inv])
qed

lemma accept_continuation_step_ok:
  assumes "asm_inv st0" and "accept_continuation_frame_at st0 h body now = (st', res)"
    and "assembly_purge_expired_at st0 now = (st, ev)"
  shows "asm_step_ok (cfh_message_key h) st st'"
proof -
  have inv: "asm_inv st" by (rule assembly_purge_inv [OF assms(1,3)])
  then have hm: "hm_invar (as_assemblies st)" and within: "assemblies_within (as_budgets st) (as_assemblies st)"
    by (simp_all add: asm_inv_def)
  from assms(2,3) show ?thesis
  proof (cases rule: accept_continuation_cases)
    case (order p e)
    have "assembly_ok (as_max_message_size st) (cfh_message_key h) p"
      using inv order(1) by (auto simp: asm_inv_def)
    moreover have "assemblies_within (as_budgets st) (hm_insert (cfh_message_key h) p (as_assemblies st))"
      using within aw.weight_replace [OF hm order(1), of p] by (auto intro: assemblies_within_mono)
    ultimately show ?thesis using asm_step_drop [OF inv] asm_step_store [OF inv] by (simp add: order(4))
  next
    case (more p s)
    let ?p = "push_body body (p\<lparr>pa_series := s\<rparr>)"
    have "assembly_ok (as_max_message_size st) (cfh_message_key h) p"
      using inv more(1) by (auto simp: asm_inv_def)
    from push_body_ok [OF this more(2,3)]
    have ok: "assembly_ok (as_max_message_size st) (cfh_message_key h) ?p" .
    have grow: "entries_weight partial_buffered_bytes (hm_insert (cfh_message_key h) ?p (as_assemblies st))
        \<le> entries_weight partial_buffered_bytes (as_assemblies st) + length body"
      using aw.weight_replace [OF hm more(1), of ?p] partial_buffered_bytes_push [of body "p\<lparr>pa_series := s\<rparr>"]
      by simp
    have "assemblies_within (as_budgets st) (hm_insert (cfh_message_key h) ?p (as_assemblies st))"
      using admit_continuation_Inr(2) [OF more(3)]
      by (intro assemblies_within_grow [OF within _ grow]) (simp add: total_buffered_bytes_def)
    from asm_step_store [OF inv ok this] show ?thesis by (simp add: more(5))
  qed (simp_all add: asm_step_refl [OF inv] asm_step_drop [OF inv])
qed


section \<open>The assembler as a transition system\<close>

datatype assembly_event =
    FirstFrame first_frame_input instant
  | ContinuationFrame continuation_frame_header bytes instant
  | PurgeAssemblies instant

fun assembly_handle :: "assembly_state \<Rightarrow> assembly_event \<Rightarrow> assembly_state \<times> assembly_result" where
  "assembly_handle st (FirstFrame input now) = accept_first_frame_at st input now"
| "assembly_handle st (ContinuationFrame h body now) = accept_continuation_frame_at st h body now"
| "assembly_handle st (PurgeAssemblies now) = (fst (assembly_purge_expired_at st now), Inr None)"

fun event_key :: "assembly_event \<Rightarrow> message_key option" where
  "event_key (FirstFrame input _) = Some (ffh_message_key (ffi_header input))"
| "event_key (ContinuationFrame h _ _) = Some (cfh_message_key h)"
| "event_key (PurgeAssemblies _) = None"

fun event_time :: "assembly_event \<Rightarrow> instant" where
  "event_time (FirstFrame _ now) = now"
| "event_time (ContinuationFrame _ _ now) = now"
| "event_time (PurgeAssemblies now) = now"

inductive assembly_step :: "assembly_state \<Rightarrow> assembly_event \<Rightarrow> assembly_state \<Rightarrow> bool" where
  handle: "assembly_handle st e = (st', res) \<Longrightarrow> assembly_step st e st'"

inductive_cases assembly_stepE [elim!]: "assembly_step st e st'"

definition assembly_start ::
    "usize \<Rightarrow> duration \<Rightarrow> usize option \<Rightarrow> usize option \<Rightarrow> assembly_state \<Rightarrow> bool" where
  "assembly_start m t c f st \<longleftrightarrow> m < usize_max \<and> st = assembly_with_budgets m t c f"

definition asm_inv_for ::
    "usize \<Rightarrow> duration \<Rightarrow> usize option \<Rightarrow> usize option \<Rightarrow> assembly_state \<Rightarrow> bool" where
  "asm_inv_for m t c f st \<longleftrightarrow> asm_inv st \<and> same_config (assembly_with_budgets m t c f) st"

text \<open>What every event does to the assemblies of other keys.\<close>

lemma assembly_handle_frame:
  assumes "asm_inv st" and "assembly_handle st e = (st', res)"
  shows "asm_inv st' \<and> same_config st st' \<and>
    (\<forall>k. event_key e \<noteq> Some k \<longrightarrow>
       hm_lookup (as_assemblies st') k = (case hm_lookup (as_assemblies st) k of None \<Rightarrow> None
         | Some p \<Rightarrow> if assembly_expired (event_time e) (as_timeout st) p then None else Some p))"
proof -
  obtain st1 ev where purge: "assembly_purge_expired_at st (event_time e) = (st1, ev)" by fastforce
  note p = assembly_purge_inv [OF assms(1) purge]
  show ?thesis
  proof (cases e)
    case (FirstFrame input now)
    from accept_first_step_ok [OF assms(1), of input now st' res st1 ev] assms(2) purge p
    show ?thesis by (auto simp: FirstFrame asm_step_ok_def same_config_def)
  next
    case (ContinuationFrame h body now)
    from accept_continuation_step_ok [OF assms(1), of h body now st' res st1 ev] assms(2) purge p
    show ?thesis by (auto simp: ContinuationFrame asm_step_ok_def same_config_def)
  next
    case (PurgeAssemblies now)
    with assms(2) purge p show ?thesis by simp
  qed
qed

interpretation assembly: transition_system
  "assembly_start m t c f" assembly_step "asm_inv_for m t c f"
  for m t c f
proof unfold_locales
  fix st st' e
  show "assembly_start m t c f st \<Longrightarrow> asm_inv_for m t c f st"
    by (auto simp: assembly_start_def asm_inv_for_def asm_inv_def assembly_with_budgets_def same_config_def
        assemblies_within_def within_limit_def split: option.splits)
  show "asm_inv_for m t c f st \<Longrightarrow> assembly_step st e st' \<Longrightarrow> asm_inv_for m t c f st'"
    using assembly_handle_frame by (auto simp: asm_inv_for_def same_config_def)
qed

section \<open>What the assemblies hold\<close>

type_synonym cont = "continuation_frame_header \<times> bytes \<times> instant"

definition frames_of :: "first_frame_input \<Rightarrow> instant \<Rightarrow> cont list \<Rightarrow> assembly_event list" where
  "frames_of input now conts = FirstFrame input now # map (\<lambda>(h, body, t). ContinuationFrame h body t) conts"

definition cont_bytes :: "cont list \<Rightarrow> bytes" where
  "cont_bytes conts = concat (map (\<lambda>(_, body, _). body) conts)"

definition assembly_tracks :: "assembly_event list \<Rightarrow> message_key \<Rightarrow> partial_assembly \<Rightarrow> bool" where
  "assembly_tracks past k p \<longleftrightarrow>
     (\<exists>input now conts. subseq (frames_of input now conts) past \<and>
        ffh_message_key (ffi_header input) = k \<and> \<not> ffh_is_last (ffi_header input) \<and>
        pa_routing p = ffi_routing input \<and> pa_metadata p = ffi_metadata input \<and>
        pa_body p = ffi_body input @ cont_bytes conts \<and>
        ms_message_key (pa_series p) = k \<and> declared_total p = ffh_total_body_len (ffi_header input) \<and>
        \<not> ms_complete (pa_series p) \<and> tracker_inv (pa_series p) (map fst conts))"

text \<open>A message put together from a first frame and its continuations, in the order received.\<close>

definition assembled_from :: "assembly_event list \<Rightarrow> assembled_message \<Rightarrow> bool" where
  "assembled_from past msg \<longleftrightarrow>
     (\<exists>input now conts. subseq (frames_of input now conts) past \<and>
        am_message_key msg = ffh_message_key (ffi_header input) \<and>
        am_routing msg = ffi_routing input \<and> am_metadata msg = ffi_metadata input \<and>
        am_body msg = ffi_body input @ cont_bytes conts \<and>
        list_all (\<lambda>h. cfh_message_key h = am_message_key msg) (map fst conts) \<and>
        consecutive (map cfh_sequence (map fst conts)) \<and>
        ffh_is_last (ffi_header input) # map cfh_is_last (map fst conts) =
          replicate (length conts) False @ [True] \<and>
        (\<forall>d. ffh_total_body_len (ffi_header input) = Some d \<longrightarrow> length (am_body msg) = d))"

lemma assembly_tracks_mono: "assembly_tracks past k p \<Longrightarrow> assembly_tracks (past @ later) k p"
  unfolding assembly_tracks_def by (blast intro: subseq_rev_drop_many)

lemma frames_of_snoc:
  "frames_of input now (conts @ [(h, body, t)]) = frames_of input now conts @ [ContinuationFrame h body t]"
  by (simp add: frames_of_def)

lemma cont_bytes_snoc [simp]: "cont_bytes (conts @ [(h, body, t)]) = cont_bytes conts @ body"
  by (simp add: cont_bytes_def)

lemma first_frame_tracks:
  assumes "asm_inv st" and "accept_first_frame_at st input now = (st', res)"
    and "\<And>k p. hm_lookup (as_assemblies st) k = Some p \<Longrightarrow> assembly_tracks past k p"
  shows "(hm_lookup (as_assemblies st') (ffh_message_key (ffi_header input)) = Some p \<longrightarrow>
      assembly_tracks (past @ [FirstFrame input now]) (ffh_message_key (ffi_header input)) p) \<and>
    (res = Inr (Some msg) \<longrightarrow> assembled_from (past @ [FirstFrame input now]) msg)"
proof -
  obtain st1 ev where purge: "assembly_purge_expired_at st now = (st1, ev)" by fastforce
  have old: "assembly_tracks (past @ [FirstFrame input now]) k p" if "hm_lookup (as_assemblies st1) k = Some p" for k p
    using assembly_purge_inv(3) [OF assms(1) purge, of k] that assms(3)
    by (auto intro: assembly_tracks_mono split: option.splits if_splits)
  have new: "subseq (frames_of input now []) (past @ [FirstFrame input now])"
    by (simp add: frames_of_def) (rule subseq_drop_many, simp)
  from assms(2) purge show ?thesis
  proof (cases rule: accept_first_cases)
    case (reject e)
    with old show ?thesis by simp
  next
    case single
    have "assembled_from (past @ [FirstFrame input now])
        (assembled_message_new (ffh_message_key (ffi_header input)) (ffi_routing input) (ffi_metadata input) (ffi_body input))"
      unfolding assembled_from_def
      using new single(2,3)
      by (intro exI [of _ input] exI [of _ now] exI [of _ "[]"])
         (auto simp: assembled_message_new_def cont_bytes_def validate_first_frame_def split: if_splits)
    with single old show ?thesis by auto
  next
    case start
    have "assembly_tracks (past @ [FirstFrame input now]) (ffh_message_key (ffi_header input)) (partial_from_first_frame input now)"
      unfolding assembly_tracks_def
      using new start(1) tracker_inv_new [OF start(1)]
      by (intro exI [of _ input] exI [of _ now] exI [of _ "[]"])
         (simp add: partial_from_first_frame_def series_from_first_frame_def cont_bytes_def declared_total_def)
    with start show ?thesis by (auto simp: hm.lookup_insert)
  qed
qed


lemma into_message_Inr:
  assumes "into_message p = Inr (Some msg)"
  shows "msg = assembled_message_new (ms_message_key (pa_series p)) (pa_routing p) (pa_metadata p) (pa_body p)"
    "\<And>d. declared_total p = Some d \<Longrightarrow> length (pa_body p) = d"
  using assms
  by (auto simp: into_message_def declared_total_def validate_completion_def Let_def
      split: option.splits if_splits sum.splits)

text \<open>An assembly after one more accepted continuation.\<close>

lemma extend_tracks:
  fixes body :: bytes
  assumes "assembly_tracks past (cfh_message_key h) p"
    and acc: "series_accept_continuation (pa_series p) h = (s, Inr status)"
  defines "p' \<equiv> push_body body (p\<lparr>pa_series := s\<rparr>)"
  obtains input now conts where
    "subseq (frames_of input now (conts @ [(h, body, t)])) (past @ [ContinuationFrame h body t])"
    "ffh_message_key (ffi_header input) = cfh_message_key h" "\<not> ffh_is_last (ffi_header input)"
    "pa_routing p' = ffi_routing input" "pa_metadata p' = ffi_metadata input"
    "pa_body p' = ffi_body input @ cont_bytes (conts @ [(h, body, t)])"
    "ms_message_key (pa_series p') = cfh_message_key h"
    "declared_total p' = ffh_total_body_len (ffi_header input)"
    "ms_complete (pa_series p') = cfh_is_last h"
    "tracker_inv (pa_series p') (map fst (conts @ [(h, body, t)]))"
proof -
  obtain input now conts where c: "subseq (frames_of input now conts) past"
    "ffh_message_key (ffi_header input) = cfh_message_key h" "\<not> ffh_is_last (ffi_header input)"
    "pa_routing p = ffi_routing input" "pa_metadata p = ffi_metadata input"
    "pa_body p = ffi_body input @ cont_bytes conts" "ms_message_key (pa_series p) = cfh_message_key h"
    "declared_total p = ffh_total_body_len (ffi_header input)" "tracker_inv (pa_series p) (map fst conts)"
    using assms(1) unfolding assembly_tracks_def by blast
  note a = accept_continuation_Inr [OF acc]
  have "subseq (frames_of input now (conts @ [(h, body, t)])) (past @ [ContinuationFrame h body t])"
    using c(1) by (simp add: frames_of_snoc)
  then show ?thesis
    using c tracker_inv_accept [OF c(9) acc] a(3,4,5)
    by (intro that [of input now conts]) (simp_all add: p'_def push_body_def declared_total_def)
qed

lemma continuation_tracks:
  assumes "asm_inv st" and "accept_continuation_frame_at st h body now = (st', res)"
    and "\<And>k p. hm_lookup (as_assemblies st) k = Some p \<Longrightarrow> assembly_tracks past k p"
  shows "(hm_lookup (as_assemblies st') (cfh_message_key h) = Some p \<longrightarrow>
      assembly_tracks (past @ [ContinuationFrame h body now]) (cfh_message_key h) p) \<and>
    (res = Inr (Some msg) \<longrightarrow> assembled_from (past @ [ContinuationFrame h body now]) msg)"
proof -
  obtain st1 ev where purge: "assembly_purge_expired_at st now = (st1, ev)" by fastforce
  have old: "assembly_tracks past k p" if "hm_lookup (as_assemblies st1) k = Some p" for k p
    using assembly_purge_inv(3) [OF assms(1) purge, of k] that assms(3)
    by (auto split: option.splits if_splits)
  note mono = assembly_tracks_mono [OF old]
  from assms(2) purge show ?thesis
  proof (cases rule: accept_continuation_cases)
    case (more q s)
    have "\<not> cfh_is_last h" using accept_continuation_Inr(6) [OF more(2)] by (auto split: if_splits)
    have "assembly_tracks (past @ [ContinuationFrame h body now]) (cfh_message_key h) (push_body body (q\<lparr>pa_series := s\<rparr>))"
    proof (rule extend_tracks [OF old [OF more(1)] more(2), of body now])
      fix input t0 conts
      assume "subseq (frames_of input t0 (conts @ [(h, body, now)])) (past @ [ContinuationFrame h body now])"
        "ffh_message_key (ffi_header input) = cfh_message_key h" "\<not> ffh_is_last (ffi_header input)"
        "pa_routing (push_body body (q\<lparr>pa_series := s\<rparr>)) = ffi_routing input"
        "pa_metadata (push_body body (q\<lparr>pa_series := s\<rparr>)) = ffi_metadata input"
        "pa_body (push_body body (q\<lparr>pa_series := s\<rparr>)) = ffi_body input @ cont_bytes (conts @ [(h, body, now)])"
        "ms_message_key (pa_series (push_body body (q\<lparr>pa_series := s\<rparr>))) = cfh_message_key h"
        "declared_total (push_body body (q\<lparr>pa_series := s\<rparr>)) = ffh_total_body_len (ffi_header input)"
        "ms_complete (pa_series (push_body body (q\<lparr>pa_series := s\<rparr>))) = cfh_is_last h"
        "tracker_inv (pa_series (push_body body (q\<lparr>pa_series := s\<rparr>))) (map fst (conts @ [(h, body, now)]))"
      with \<open>\<not> cfh_is_last h\<close> show ?thesis
        unfolding assembly_tracks_def
        by (intro exI [of _ input] exI [of _ t0] exI [of _ "conts @ [(h, body, now)]"] conjI) simp_all
    qed
    with more show ?thesis by (auto simp: hm.lookup_insert)
  next
    case (final q s)
    let ?p = "push_body body (q\<lparr>pa_series := s\<rparr>)"
    have last: "cfh_is_last h" using accept_continuation_Inr(6) [OF final(2)] by (auto split: if_splits)
    obtain input t0 conts where x:
      "subseq (frames_of input t0 (conts @ [(h, body, now)])) (past @ [ContinuationFrame h body now])"
      "ffh_message_key (ffi_header input) = cfh_message_key h" "\<not> ffh_is_last (ffi_header input)"
      "pa_routing ?p = ffi_routing input" "pa_metadata ?p = ffi_metadata input"
      "pa_body ?p = ffi_body input @ cont_bytes (conts @ [(h, body, now)])"
      "ms_message_key (pa_series ?p) = cfh_message_key h"
      "declared_total ?p = ffh_total_body_len (ffi_header input)"
      "ms_complete (pa_series ?p) = cfh_is_last h"
      "tracker_inv (pa_series ?p) (map fst (conts @ [(h, body, now)]))"
      by (rule extend_tracks [OF old [OF final(1)] final(2), of body now])
    have "assembled_from (past @ [ContinuationFrame h body now]) msg" if "res = Inr (Some msg)"
    proof -
      note m = into_message_Inr [OF final(4) [symmetric, unfolded that]]
      let ?cs = "conts @ [(h, body, now)]"
      have cons: "consecutive (map cfh_sequence (map fst ?cs))"
        by (rule tracker_inv_consecutive [OF x(10)])
      have lasts: "map cfh_is_last (map fst ?cs) = replicate (length conts) False @ [True]"
        and keys: "list_all (\<lambda>h'. cfh_message_key h' = cfh_message_key h) (map fst ?cs)"
        using x(7,9,10) last by (simp_all add: tracker_inv_def)
      show ?thesis
        unfolding assembled_from_def using x m cons lasts keys
        by (intro exI [of _ input] exI [of _ t0] exI [of _ ?cs]) (simp add: assembled_message_new_def)
    qed
    with final show ?thesis by (simp add: hm.lookup_remove)
  next
    case (order q e)
    with mono show ?thesis by (auto simp: hm.lookup_insert hm.lookup_remove split: if_splits)
  qed (use mono in \<open>auto simp: hm.lookup_remove\<close>)
qed


section \<open>Properties\<close>

fun assembly_run :: "assembly_state \<Rightarrow> assembly_event list \<Rightarrow> assembly_state \<times> assembly_result list" where
  "assembly_run st [] = (st, [])"
| "assembly_run st (e # es) =
     (let (st', res) = assembly_handle st e; (st'', rs) = assembly_run st' es in (st'', res # rs))"

lemma assembly_run_snoc:
  "assembly_run st (es @ [e]) =
     (let (st', rs) = assembly_run st es; (st'', res) = assembly_handle st' e in (st'', rs @ [res]))"
  by (induction es arbitrary: st) (auto split: prod.split)

lemma assembly_handle_tracks:
  assumes "asm_inv st" and "\<And>k p. hm_lookup (as_assemblies st) k = Some p \<Longrightarrow> assembly_tracks past k p"
    and "assembly_handle st e = (st', res)"
  shows "(\<forall>k p. hm_lookup (as_assemblies st') k = Some p \<longrightarrow> assembly_tracks (past @ [e]) k p) \<and>
    (\<forall>msg. res = Inr (Some msg) \<longrightarrow> assembled_from (past @ [e]) msg)"
proof -
  have others: "assembly_tracks (past @ [e]) k p"
    if "event_key e \<noteq> Some k" "hm_lookup (as_assemblies st') k = Some p" for k p
    using assembly_handle_frame [OF assms(1,3)] that assms(2)
    by (auto intro: assembly_tracks_mono split: option.splits if_splits)
  show ?thesis
  proof (cases e)
    case (FirstFrame input now)
    have "accept_first_frame_at st input now = (st', res)" using assms(3) FirstFrame by simp
    note own = first_frame_tracks [OF assms(1) this assms(2)]
    show ?thesis
    proof (intro conjI allI impI)
      fix k p assume "hm_lookup (as_assemblies st') k = Some p"
      then show "assembly_tracks (past @ [e]) k p"
        using own others [of k p] by (cases "k = ffh_message_key (ffi_header input)") (simp_all add: FirstFrame)
    qed (use own in \<open>simp add: FirstFrame\<close>)
  next
    case (ContinuationFrame h body now)
    have "accept_continuation_frame_at st h body now = (st', res)" using assms(3) ContinuationFrame by simp
    note own = continuation_tracks [OF assms(1) this assms(2)]
    show ?thesis
    proof (intro conjI allI impI)
      fix k p assume "hm_lookup (as_assemblies st') k = Some p"
      then show "assembly_tracks (past @ [e]) k p"
        using own others [of k p] by (cases "k = cfh_message_key h") (simp_all add: ContinuationFrame)
    qed (use own in \<open>simp add: ContinuationFrame\<close>)
  next
    case (PurgeAssemblies now)
    with others assms(3) show ?thesis by auto
  qed
qed

lemma assembly_run_tracks:
  assumes "asm_inv st" and "\<And>k p. hm_lookup (as_assemblies st) k = Some p \<Longrightarrow> assembly_tracks past k p"
    and "assembly_run st es = (st', rs)"
  shows "asm_inv st' \<and> (\<forall>k p. hm_lookup (as_assemblies st') k = Some p \<longrightarrow> assembly_tracks (past @ es) k p)"
  using assms
proof (induction es arbitrary: st past rs)
  case Nil
  then show ?case by simp
next
  case (Cons e es)
  obtain st1 res where step: "assembly_handle st e = (st1, res)" by fastforce
  with Cons.prems(3) obtain rs' where run: "assembly_run st1 es = (st', rs')" by (auto split: prod.splits)
  have "asm_inv st1" using assembly_handle_frame [OF Cons.prems(1) step] by blast
  moreover have "hm_lookup (as_assemblies st1) k = Some p \<Longrightarrow> assembly_tracks (past @ [e]) k p" for k p
    using assembly_handle_tracks [OF Cons.prems(1,2) step] by blast
  ultimately show ?case using Cons.IH [OF _ _ run, of "past @ [e]"] by simp
qed

text \<open>
  C3: An assembled message is never corrupt. Whatever frames arrived before it, of however many
  interleaved messages, with duplicates, gaps and time-outs, a message that is delivered consists
  of one first frame and continuation frames of the same key received after it, in that order: its
  key, routing and metadata are those of the first frame, its body is the concatenation of their
  bodies, their sequence numbers are consecutive, only the last of them is flagged final, and a
  declared total is met exactly.
\<close>

theorem assembled_message_sound:
  assumes "m < usize_max" and "assembly_run (assembly_with_budgets m t c f) (es @ [e]) = (st, rs)"
    and "last rs = Inr (Some msg)"
  shows "assembled_from (es @ [e]) msg"
proof -
  let ?st0 = "assembly_with_budgets m t c f"
  obtain st1 rs1 where run: "assembly_run ?st0 es = (st1, rs1)" by fastforce
  obtain res where step: "assembly_handle st1 e = (st, res)" "rs = rs1 @ [res]"
    using assms(2) by (auto simp: assembly_run_snoc run split: prod.splits)
  have "asm_inv_for m t c f ?st0"
    by (rule assembly.inv_init) (simp add: assembly_start_def assms(1))
  then have "asm_inv ?st0" by (simp add: asm_inv_for_def)
  from assembly_run_tracks [OF this _ run, of "[]"]
  have inv: "asm_inv st1" "\<And>k p. hm_lookup (as_assemblies st1) k = Some p \<Longrightarrow> assembly_tracks es k p"
    by (simp_all add: assembly_with_budgets_def)
  from assembly_handle_tracks [OF inv step(1)] assms(3) step(2) show ?thesis by simp
qed


text \<open>Frames of message 3, for evaluating the assembler on concrete traffic.\<close>

definition sample_first :: "bytes \<Rightarrow> bytes \<Rightarrow> first_frame_input" where
  "sample_first metadata body =
     \<lparr>ffi_header = \<lparr>ffh_message_key = 3, ffh_metadata_len = length metadata, ffh_body_len = length body,
        ffh_total_body_len = None, ffh_is_last = False\<rparr>,
      ffi_routing = \<lparr>er_envelope_id = 1, er_correlation_id = Some 9\<rparr>,
      ffi_metadata = metadata, ffi_body = body\<rparr>"

definition sample_cont :: "frame_sequence \<Rightarrow> nat \<Rightarrow> bool \<Rightarrow> continuation_frame_header" where
  "sample_cont q n l = \<lparr>cfh_message_key = 3, cfh_sequence = Some q, cfh_body_len = n, cfh_is_last = l\<rparr>"

lemmas assembly_eval =
  assembly_with_budgets_def sample_first_def sample_cont_def accept_first_frame_at_def
  accept_continuation_frame_at_def assembly_purge_expired_at_def assembly_expired_def
  saturating_duration_since_def hm_retain_def hm_insert_def hm_remove_def validate_first_frame_def
  saturating_add_usize_def usize_max_def budgets_enabled_def partial_from_first_frame_def
  partial_accept_continuation_def series_from_first_frame_def message_series_defs checked_inc_u32_def
  admit_continuation_def check_size_limit_def checked_add_usize_def check_aggregate_budgets_def
  declared_total_def push_body_def into_message_def assembled_message_new_def
  total_buffered_bytes_def partial_buffered_bytes_def entries_weight_def Let_def

theorem assembled_message_sound_witness:
  "\<exists>msg. am_body msg = [10, 20, 30] \<and> am_metadata msg = [5] \<and>
     assembled_from ([FirstFrame (sample_first [5] [10]) 0, ContinuationFrame (sample_cont 7 1 False) [20] 1,
       ContinuationFrame (sample_cont 7 1 False) [20] 2] @ [ContinuationFrame (sample_cont 8 1 True) [30] 3]) msg"
proof -
  let ?es = "[FirstFrame (sample_first [5] [10]) 0, ContinuationFrame (sample_cont 7 1 False) [20] 1,
       ContinuationFrame (sample_cont 7 1 False) [20] 2]" and ?e = "ContinuationFrame (sample_cont 8 1 True) [30] 3"
  let ?msg = "\<lparr>am_message_key = 3, am_routing = \<lparr>er_envelope_id = 1, er_correlation_id = Some 9\<rparr>,
    am_metadata = [5], am_body = [10, 20, 30]\<rparr>"
  obtain st rs where run: "assembly_run (assembly_with_budgets 8 100 None None) (?es @ [?e]) = (st, rs)" by fastforce
  then have "last rs = Inr (Some ?msg)" by (auto simp: assembly_eval)
  from assembled_message_sound [OF _ run this] show ?thesis
    by (intro exI [of _ ?msg]) (simp add: usize_max_def)
qed

text \<open>
  C13: In every state the assembler can reach, the bytes it retains for incomplete messages
  (metadata and bodies) are within the connection budget and within the in-flight budget, no body
  and no metadata block is longer than the maximum message size, an assembly with a declared
  total never holds more than it, and the sum the budget checks use has not wrapped around when a
  budget is set. A budget of \<open>usize::MAX\<close> is not enforced, since the checked sums saturate there.
\<close>

theorem assembly_within_limits:
  assumes "reachable (assembly_start m t c f) assembly_step st"
  shows "within_limit c (\<Sum>(k, p) \<leftarrow> as_assemblies st. partial_buffered_bytes p) \<and>
    within_limit f (\<Sum>(k, p) \<leftarrow> as_assemblies st. partial_buffered_bytes p) \<and>
    (\<forall>l. c = Some l \<or> f = Some l \<longrightarrow> l < usize_max \<longrightarrow>
       total_buffered_bytes st = (\<Sum>(k, p) \<leftarrow> as_assemblies st. partial_buffered_bytes p)) \<and>
    (\<forall>k p. hm_lookup (as_assemblies st) k = Some p \<longrightarrow>
       length (pa_body p) \<le> m \<and> length (pa_metadata p) \<le> m \<and>
       (\<forall>d. declared_total p = Some d \<longrightarrow> length (pa_body p) \<le> d \<and> d + length (pa_metadata p) \<le> m))"
proof -
  have inv: "asm_inv st" and config: "as_max_message_size st = m" "ab_connection (as_budgets st) = c"
    "ab_in_flight (as_budgets st) = f"
    using assembly.inv_reachable [OF assms]
    by (simp_all add: asm_inv_for_def same_config_def assembly_with_budgets_def)
  let ?w = "entries_weight partial_buffered_bytes (as_assemblies st)"
  have within: "within_limit c ?w" "within_limit f ?w"
    using inv config by (simp_all add: asm_inv_def assemblies_within_def)
  then have "total_buffered_bytes st = ?w" if "c = Some l \<or> f = Some l" "l < usize_max" for l
    using that by (auto simp: total_buffered_bytes_def within_limit_def)
  moreover have "length (pa_body p) \<le> m \<and> length (pa_metadata p) \<le> m \<and>
      (\<forall>d. declared_total p = Some d \<longrightarrow> length (pa_body p) \<le> d \<and> d + length (pa_metadata p) \<le> m)"
    if "hm_lookup (as_assemblies st) k = Some p" for k p
  proof -
    have "assembly_ok m k p" using that inv config by (auto simp: asm_inv_def)
    then show ?thesis by (auto simp: assembly_ok_def)
  qed
  ultimately show ?thesis using within by (auto simp: entries_weight_def)
qed

theorem assembly_within_limits_witness:
  "\<exists>st. reachable (assembly_start 8 100 (Some 6) (Some 4)) assembly_step st \<and>
     as_assemblies st \<noteq> [] \<and> total_buffered_bytes st = 3 \<and>
     within_limit (Some 4) (\<Sum>(k, p) \<leftarrow> as_assemblies st. partial_buffered_bytes p)"
proof -
  let ?st0 = "assembly_with_budgets 8 100 (Some 6) (Some 4)"
  obtain st res where step: "assembly_handle ?st0 (FirstFrame (sample_first [5] [10, 20]) 0) = (st, res)" by fastforce
  have "reachable (assembly_start 8 100 (Some 6) (Some 4)) assembly_step ?st0"
    by (rule reachable.start) (simp add: assembly_start_def usize_max_def)
  from reachable.move [OF this assembly_step.handle [OF step]]
  have reach: "reachable (assembly_start 8 100 (Some 6) (Some 4)) assembly_step st" .
  moreover have "as_assemblies st \<noteq> [] \<and> total_buffered_bytes st = 3"
    using step by (auto simp: assembly_eval)
  ultimately show ?thesis using assembly_within_limits [OF reach] by blast
qed


text \<open>
  C33: A rejected continuation frame of a live assembly. A frame out of order, a duplicate and a
  frame whose header misstates its body length leave the assembly exactly as it was, so the right
  frame can still follow; every other error (sequence overflow, a missing sequence number, a limit
  or a declared total exceeded, a wrong total at completion) discards the assembly. Assemblies of
  other keys are kept unless they expired. So \<open>ContinuationBodyLengthMismatch\<close>, which
  \<open>is_unrecoverable_continuity_error\<close> lists, does not discard the assembly.
\<close>

theorem continuation_error_retention:
  assumes "reachable (assembly_start m t c f) assembly_step st"
    and "accept_continuation_frame_at st h body now = (st', Inl e)"
    and "hm_lookup (as_assemblies st) (cfh_message_key h) = Some p" and "\<not> t \<le> now - pa_started_at p"
  shows "hm_lookup (as_assemblies st') (cfh_message_key h) =
      (case e of
         AsmSeries (SequenceMismatch _ _) \<Rightarrow> Some p
       | AsmSeries (DuplicateFrame _ _) \<Rightarrow> Some p
       | AsmSeries (ContinuationBodyLengthMismatch _ _ _) \<Rightarrow> Some p
       | _ \<Rightarrow> None) \<and>
    (\<forall>k. k \<noteq> cfh_message_key h \<longrightarrow> hm_lookup (as_assemblies st') k =
       (case hm_lookup (as_assemblies st) k of None \<Rightarrow> None
        | Some q \<Rightarrow> if t \<le> now - pa_started_at q then None else Some q))"
proof -
  have inv: "asm_inv st" and t: "as_timeout st = t"
    using assembly.inv_reachable [OF assms(1)]
    by (simp_all add: asm_inv_for_def same_config_def assembly_with_budgets_def)
  obtain st1 ev where purge: "assembly_purge_expired_at st now = (st1, ev)" by fastforce
  have look: "hm_lookup (as_assemblies st1) (cfh_message_key h) = Some p"
    using assembly_purge_inv(3) [OF inv purge, of "cfh_message_key h"] assms(3,4) t
    by (simp add: assembly_expired_def saturating_duration_since_def)
  have ok: "\<not> ms_complete (pa_series p)" "hm_invar (as_assemblies st1)"
    using inv assms(3) assembly_purge_inv(1) [OF inv purge] by (auto simp: asm_inv_def assembly_ok_def)
  from assms(2) purge have own: "hm_lookup (as_assemblies st') (cfh_message_key h) =
      (case e of AsmSeries (SequenceMismatch _ _) \<Rightarrow> Some p | AsmSeries (DuplicateFrame _ _) \<Rightarrow> Some p
       | AsmSeries (ContinuationBodyLengthMismatch _ _ _) \<Rightarrow> Some p | _ \<Rightarrow> None)"
  proof (cases rule: accept_continuation_cases)
    case (order q e')
    then have q: "q = p" using look by simp
    have "e' \<noteq> AsmSeriesComplete \<and> (\<forall>k a b. e' \<noteq> ContinuationBodyLengthMismatch k a b)"
      using order(2) ok(1) by (auto simp: q message_series_defs Let_def
          split: if_splits option.splits sequence_tracking.splits)
    with order ok(2) q show ?thesis
      by (cases e') (simp_all add: hm.lookup_insert hm.lookup_remove)
  next
    case (refuse q s status e')
    then show ?thesis using ok(2)
      by (auto simp: hm.lookup_remove admit_continuation_def check_size_limit_def validate_continuation_def
          check_aggregate_budgets_def Let_def split: option.splits sum.splits if_splits)
  next
    case (final q s)
    then show ?thesis using ok(2)
      by (auto simp: hm.lookup_remove into_message_def validate_completion_def Let_def
          split: option.splits sum.splits if_splits)
  qed (use look in simp_all)
  have "assembly_handle st (ContinuationFrame h body now) = (st', Inl e)" using assms(2) by simp
  note others = assembly_handle_frame [OF inv this, unfolded assembly_expired_def saturating_duration_since_def event_time.simps t]
  show ?thesis
  proof (intro conjI allI impI)
    fix k assume "k \<noteq> cfh_message_key h"
    then show "hm_lookup (as_assemblies st') k = (case hm_lookup (as_assemblies st) k of None \<Rightarrow> None
        | Some q \<Rightarrow> if t \<le> now - pa_started_at q then None else Some q)"
      using others by simp
  qed (rule own)
qed

theorem continuation_error_retention_witness:
  "\<exists>st st' p. hm_lookup (as_assemblies st) 3 = Some p \<and>
     accept_continuation_frame_at st (sample_cont 7 4 True) [20] 5 =
       (st', Inl (AsmSeries (ContinuationBodyLengthMismatch 3 4 1))) \<and>
     hm_lookup (as_assemblies st') 3 = Some p"
proof -
  let ?st0 = "assembly_with_budgets 8 100 None None"
  obtain st res where step: "assembly_handle ?st0 (FirstFrame (sample_first [5] [10, 20]) 0) = (st, res)" by fastforce
  have "reachable (assembly_start 8 100 None None) assembly_step ?st0"
    by (rule reachable.start) (simp add: assembly_start_def usize_max_def)
  from reachable.move [OF this assembly_step.handle [OF step]]
  have reach: "reachable (assembly_start 8 100 None None) assembly_step st" .
  let ?p = "partial_from_first_frame (sample_first [5] [10, 20]) 0" and ?h = "sample_cont 7 4 True"
  have look: "hm_lookup (as_assemblies st) (cfh_message_key ?h) = Some ?p"
    using step by (auto simp: assembly_eval)
  obtain st' where err: "accept_continuation_frame_at st ?h [20] 5 =
      (st', Inl (AsmSeries (ContinuationBodyLengthMismatch 3 4 1)))"
    by (simp add: accept_continuation_frame_at_def sample_cont_def Let_def)
  have "\<not> 100 \<le> 5 - pa_started_at ?p" by simp
  from continuation_error_retention [OF reach err look this] err look show ?thesis
    by (intro exI [of _ st] exI [of _ st'] exI [of _ ?p]) (simp add: sample_cont_def)
qed


text \<open>
  C34: The size of a delivered message. Its metadata and its body are each at most the maximum
  message size. Their sum is too when the message is a single frame or declares its total length.
  For a message of several frames without a declared total the metadata is not counted against
  later frames, and the sum can exceed the limit: the witness delivers 7 bytes under a limit of 4.
\<close>

theorem delivered_message_size:
  assumes "reachable (assembly_start m t c f) assembly_step st"
    and "assembly_handle st e = (st', Inr (Some msg))"
  shows "length (am_body msg) \<le> m \<and> length (am_metadata msg) \<le> m \<and>
    (case e of
       ContinuationFrame h _ _ \<Rightarrow>
         (\<forall>p. hm_lookup (as_assemblies st) (cfh_message_key h) = Some p \<longrightarrow> declared_total p \<noteq> None \<longrightarrow>
            length (am_metadata msg) + length (am_body msg) \<le> m)
     | _ \<Rightarrow> length (am_metadata msg) + length (am_body msg) \<le> m)"
proof -
  have inv: "asm_inv st" and m: "as_max_message_size st = m" "m < usize_max"
    using assembly.inv_reachable [OF assms(1)]
    by (auto simp: asm_inv_for_def asm_inv_def same_config_def assembly_with_budgets_def)
  obtain st1 ev where purge: "assembly_purge_expired_at st (event_time e) = (st1, ev)" by fastforce
  have m1: "as_max_message_size st1 = m"
    using assembly_purge_inv(2) [OF inv purge] m by (simp add: same_config_def)
  show ?thesis
  proof (cases e)
    case (FirstFrame input now)
    then have acc: "accept_first_frame_at st input now = (st', Inr (Some msg))" using assms(2) by simp
    have "assembly_purge_expired_at st now = (st1, ev)" using purge FirstFrame by simp
    with acc show ?thesis
      by (cases rule: accept_first_cases)
         (use m m1 in \<open>auto simp: FirstFrame assembled_message_new_def validate_first_frame_def
           saturating_add_usize_def split: option.splits if_splits\<close>)
  next
    case (ContinuationFrame h body now)
    then have acc: "accept_continuation_frame_at st h body now = (st', Inr (Some msg))" using assms(2) by simp
    have purge': "assembly_purge_expired_at st now = (st1, ev)" using purge ContinuationFrame by simp
    with acc show ?thesis
    proof (cases rule: accept_continuation_cases)
      case (final p s)
      let ?p = "push_body body (p\<lparr>pa_series := s\<rparr>)"
      have old: "hm_lookup (as_assemblies st) (cfh_message_key h) = Some p"
        using final(1) assembly_purge_inv(3) [OF inv purge, of "cfh_message_key h"]
        by (auto split: option.splits if_splits)
      then have ok: "assembly_ok m (cfh_message_key h) p" using inv m by (auto simp: asm_inv_def)
      have msg: "am_metadata msg = pa_metadata p" "am_body msg = pa_body p @ body"
        using into_message_Inr [OF final(4) [symmetric]]
        by (simp_all add: push_body_def assembled_message_new_def)
      note sz = admit_continuation_Inr [OF final(3)]
      have "ms_expected_total s = ms_expected_total (pa_series p)"
        by (rule accept_continuation_Inr(5) [OF final(2)])
      then have "length (pa_metadata p) + length (pa_body p @ body) \<le> m" if "declared_total p = Some d" for d
        using that ok sz(3) [of d] by (simp add: assembly_ok_def declared_total_def)
      then show ?thesis using ok sz(1) old m1 by (auto simp: ContinuationFrame msg assembly_ok_def)
    qed auto
  qed (use assms(2) in auto)
qed

theorem delivered_message_size_witness:
  "\<exists>st st' msg. reachable (assembly_start 4 100 None None) assembly_step st \<and>
     assembly_handle st (ContinuationFrame (sample_cont 7 3 True) [20, 30, 40] 5) = (st', Inr (Some msg)) \<and>
     length (am_metadata msg) = 3 \<and> length (am_body msg) = 4 \<and> length (am_body msg) \<le> 4"
proof -
  let ?st0 = "assembly_with_budgets 4 100 None None"
    and ?e = "ContinuationFrame (sample_cont 7 3 True) [20, 30, 40] 5"
  let ?msg = "\<lparr>am_message_key = 3, am_routing = \<lparr>er_envelope_id = 1, er_correlation_id = Some 9\<rparr>,
    am_metadata = [5, 6, 7], am_body = [10, 20, 30, 40]\<rparr>"
  obtain st res where step: "assembly_handle ?st0 (FirstFrame (sample_first [5, 6, 7] [10]) 0) = (st, res)" by fastforce
  have "reachable (assembly_start 4 100 None None) assembly_step ?st0"
    by (rule reachable.start) (simp add: assembly_start_def usize_max_def)
  from reachable.move [OF this assembly_step.handle [OF step]]
  have reach: "reachable (assembly_start 4 100 None None) assembly_step st" .
  obtain st' where deliver: "assembly_handle st ?e = (st', Inr (Some ?msg))"
    using step by (auto simp: assembly_eval)
  from delivered_message_size [OF reach deliver] reach deliver show ?thesis
    by (intro exI [of _ st] exI [of _ st'] exI [of _ ?msg]) simp
qed

end
