(* ===== verification/Fairness.thy ===== *)
theory Fairness
  imports Prelude
begin

text \<open>
  The fairness counters of the connection actor: \<open>src/fairness.rs\<close>. The readings of the clock are
  arguments; \<open>tokio::time::Instant::duration_since\<close> saturates at zero.
\<close>

record fairness_config =
  fc_max_high_before_low :: usize
  fc_time_slice :: "duration option"

definition fairness_config_default :: fairness_config where
  "fairness_config_default = \<lparr>fc_max_high_before_low = 8, fc_time_slice = None\<rparr>"

record fairness_tracker =
  ft_config :: fairness_config
  ft_high_counter :: usize
  ft_high_start :: "instant option"

definition fairness_new :: "fairness_config \<Rightarrow> fairness_tracker" where
  "fairness_new config = \<lparr>ft_config = config, ft_high_counter = 0, ft_high_start = None\<rparr>"

definition fairness_clear :: "fairness_tracker \<Rightarrow> fairness_tracker" where
  "fairness_clear ft = ft\<lparr>ft_high_counter := 0, ft_high_start := None\<rparr>"

definition fairness_reset :: "fairness_tracker \<Rightarrow> fairness_tracker" where
  "fairness_reset ft = fairness_clear ft"

definition fairness_set_config :: "fairness_config \<Rightarrow> fairness_tracker \<Rightarrow> fairness_tracker" where
  "fairness_set_config config ft = fairness_reset (ft\<lparr>ft_config := config\<rparr>)"

definition record_high_priority :: "instant \<Rightarrow> fairness_tracker \<Rightarrow> fairness_tracker" where
  "record_high_priority now ft =
     (let ft' = ft\<lparr>ft_high_counter := ft_high_counter ft + 1\<rparr>
      in if ft_high_counter ft' = 1 then ft'\<lparr>ft_high_start := Some now\<rparr> else ft')"

definition should_yield_to_low_priority :: "instant \<Rightarrow> fairness_tracker \<Rightarrow> bool" where
  "should_yield_to_low_priority now ft \<longleftrightarrow>
     (if 0 < fc_max_high_before_low (ft_config ft) \<and>
         fc_max_high_before_low (ft_config ft) \<le> ft_high_counter ft
      then True
      else case (fc_time_slice (ft_config ft), ft_high_start ft) of
             (Some d, Some start) \<Rightarrow> d \<le> saturating_duration_since now start
           | _ \<Rightarrow> False)"

lemmas fairness_defs =
  fairness_new_def fairness_clear_def fairness_reset_def fairness_set_config_def record_high_priority_def
  should_yield_to_low_priority_def

lemma fairness_counter_simps [simp]:
  "ft_high_counter (fairness_new c) = 0"
  "ft_high_counter (fairness_reset ft) = 0"
  "ft_high_counter (record_high_priority now ft) = Suc (ft_high_counter ft)"
  "ft_config (fairness_new c) = c"
  "ft_config (fairness_reset ft) = ft_config ft"
  "ft_config (record_high_priority now ft) = ft_config ft"
  by (simp_all add: fairness_defs Let_def)

text \<open>A burst timer runs exactly while the counter is positive.\<close>

definition fairness_ok :: "fairness_tracker \<Rightarrow> bool" where
  "fairness_ok ft \<longleftrightarrow> (ft_high_start ft = None \<longleftrightarrow> ft_high_counter ft = 0)"

lemma fairness_ok_ops [simp, intro]:
  "fairness_ok (fairness_new c)" "fairness_ok (fairness_reset ft)"
  "fairness_ok ft \<Longrightarrow> fairness_ok (record_high_priority now ft)"
  by (auto simp: fairness_ok_def fairness_defs Let_def)

text \<open>A burst: high-priority frames recorded at the given times, with no reset in between.\<close>

definition record_burst :: "instant list \<Rightarrow> fairness_tracker \<Rightarrow> fairness_tracker" where
  "record_burst ts ft = fold record_high_priority ts ft"

lemma record_burst_counter:
  "ft_high_counter (record_burst ts ft) = ft_high_counter ft + length ts"
  "ft_config (record_burst ts ft) = ft_config ft"
  unfolding record_burst_def by (induction ts arbitrary: ft) simp_all

lemma record_burst_start_late:
  "0 < ft_high_counter ft \<Longrightarrow> ft_high_start (record_burst ts ft) = ft_high_start ft"
proof (induction ts arbitrary: ft)
  case (Cons t ts)
  then show ?case using Cons.IH [of "record_high_priority t ft"]
    by (simp add: record_burst_def) (simp add: record_high_priority_def Let_def)
qed (simp add: record_burst_def)

lemma record_burst_start:
  "ft_high_counter ft = 0 \<Longrightarrow> ft_high_start (record_burst (t # ts) ft) = Some t"
  using record_burst_start_late [of "record_high_priority t ft" ts]
  by (simp add: record_burst_def) (simp add: record_high_priority_def Let_def)

text \<open>
  When the low-priority queue must be looked at. After a reset and a burst of high-priority
  frames, the policy asks to yield exactly when the burst has reached the configured number of
  frames (if that is not zero), or the configured time slice has passed since the first frame of
  the burst. Without a burst it never asks to yield.
\<close>

lemma fairness_yields_iff:
  assumes "ft = record_burst ts (fairness_reset ft0)"
  shows "should_yield_to_low_priority now ft \<longleftrightarrow>
    (0 < fc_max_high_before_low (ft_config ft0) \<and> fc_max_high_before_low (ft_config ft0) \<le> length ts) \<or>
    (\<exists>d. fc_time_slice (ft_config ft0) = Some d \<and> ts \<noteq> [] \<and> d \<le> now - hd ts)"
proof (cases ts)
  case Nil
  then show ?thesis
    by (simp add: assms record_burst_def should_yield_to_low_priority_def)
       (auto simp: fairness_defs split: option.split)
next
  case (Cons t us)
  have "ft_high_start ft = Some t" using record_burst_start [of "fairness_reset ft0" t us] by (simp add: assms Cons)
  then show ?thesis
    by (auto simp: should_yield_to_low_priority_def assms record_burst_counter Cons saturating_duration_since_def
        split: option.split)
qed

end
