(* ===== verification/Channel.thy ===== *)
theory Channel
  imports Prelude
begin

text \<open>
  Bounded channels. The crate uses \<open>tokio::sync::mpsc\<close>; its operations are the argument
  \<open>mp :: ('c, 'f) mpsc_lib\<close> of every definition that calls them, over an opaque channel type \<open>'c\<close>.
  The record \<open>chan\<close> and the functions \<open>chan_recv\<close>, \<open>chan_try_send\<close> and so on state what the library
  documents of a channel; \<open>mpsc_documented mp v\<close> says that the view \<open>v\<close> of the library's
  channels behaves like that. \<open>reference_mpsc\<close> is the library whose channels are their own view.
\<close>

section \<open>Operations of the library\<close>

datatype 'a poll = Pending | Ready 'a

datatype try_recv_error = TryRecvEmpty | TryRecvDisconnected

datatype 'f try_send_error = TrySendFull 'f | TrySendClosed 'f

record ('c, 'f) mpsc_lib =
  mp_channel :: "usize \<Rightarrow> 'c"
  mp_recv :: "'c \<Rightarrow> 'c \<times> 'f option poll"
  mp_try_recv :: "'c \<Rightarrow> 'c \<times> (try_recv_error + 'f)"
  mp_close :: "'c \<Rightarrow> 'c"
  mp_try_send :: "'c \<Rightarrow> 'f \<Rightarrow> 'c \<times> ('f try_send_error + unit)"
  mp_try_reserve :: "'c \<Rightarrow> 'c \<times> (unit try_send_error + unit)"
  mp_permit_send :: "'c \<Rightarrow> 'f \<Rightarrow> 'c"
  mp_poll_send :: "'c \<Rightarrow> 'f \<Rightarrow> 'c \<times> (unit + unit) poll"

section \<open>Documented behaviour\<close>

text \<open>
  Queued frames, capacity, slots reserved but not yet filled, whether the receiver has been closed
  or dropped, and whether a sender is alive.
\<close>

record 'f chan =
  ch_queue :: "'f list"
  ch_capacity :: nat
  ch_reserved :: nat
  ch_closed :: bool
  ch_senders :: bool

definition chan_live :: "'f chan \<Rightarrow> bool" where
  "chan_live c \<longleftrightarrow> ch_senders c \<and> (\<not> ch_closed c \<or> 0 < ch_reserved c)"

definition chan_room :: "'f chan \<Rightarrow> bool" where
  "chan_room c \<longleftrightarrow> length (ch_queue c) + ch_reserved c < ch_capacity c"

definition chan_new :: "usize \<Rightarrow> 'f chan" where
  "chan_new n = \<lparr>ch_queue = [], ch_capacity = n, ch_reserved = 0, ch_closed = False, ch_senders = True\<rparr>"

definition chan_recv :: "'f chan \<Rightarrow> 'f chan \<times> 'f option poll" where
  "chan_recv c =
     (case ch_queue c of
        f # fs \<Rightarrow> (c\<lparr>ch_queue := fs\<rparr>, Ready (Some f))
      | [] \<Rightarrow> (c, if chan_live c then Pending else Ready None))"

definition chan_try_recv :: "'f chan \<Rightarrow> 'f chan \<times> (try_recv_error + 'f)" where
  "chan_try_recv c =
     (case ch_queue c of
        f # fs \<Rightarrow> (c\<lparr>ch_queue := fs\<rparr>, Inr f)
      | [] \<Rightarrow> (c, Inl (if chan_live c then TryRecvEmpty else TryRecvDisconnected)))"

definition chan_close :: "'f chan \<Rightarrow> 'f chan" where
  "chan_close c = c\<lparr>ch_closed := True\<rparr>"

definition chan_try_send :: "'f chan \<Rightarrow> 'f \<Rightarrow> 'f chan \<times> ('f try_send_error + unit)" where
  "chan_try_send c f =
     (if ch_closed c then (c, Inl (TrySendClosed f))
      else if chan_room c then (c\<lparr>ch_queue := ch_queue c @ [f]\<rparr>, Inr ())
      else (c, Inl (TrySendFull f)))"

definition chan_try_reserve :: "'f chan \<Rightarrow> 'f chan \<times> (unit try_send_error + unit)" where
  "chan_try_reserve c =
     (if ch_closed c then (c, Inl (TrySendClosed ()))
      else if chan_room c then (c\<lparr>ch_reserved := ch_reserved c + 1\<rparr>, Inr ())
      else (c, Inl (TrySendFull ())))"

definition chan_permit_send :: "'f chan \<Rightarrow> 'f \<Rightarrow> 'f chan" where
  "chan_permit_send c f = c\<lparr>ch_reserved := ch_reserved c - 1, ch_queue := ch_queue c @ [f]\<rparr>"

definition chan_poll_send :: "'f chan \<Rightarrow> 'f \<Rightarrow> 'f chan \<times> (unit + unit) poll" where
  "chan_poll_send c f =
     (if ch_closed c then (c, Ready (Inl ()))
      else if chan_room c then (c\<lparr>ch_queue := ch_queue c @ [f]\<rparr>, Ready (Inr ()))
      else (c, Pending))"

text \<open>What other holders of the channel may do to it between two uses of the receiver.\<close>

definition chan_sent :: "'f list \<Rightarrow> 'f chan \<Rightarrow> 'f chan \<Rightarrow> bool" where
  "chan_sent fs c c' \<longleftrightarrow>
     ch_queue c' = ch_queue c @ fs \<and> ch_capacity c' = ch_capacity c \<and> ch_closed c' = ch_closed c \<and>
     (ch_senders c' \<longrightarrow> ch_senders c) \<and> (ch_closed c \<longrightarrow> ch_reserved c' + length fs \<le> ch_reserved c) \<and>
     (fs \<noteq> [] \<longrightarrow> chan_live c)"

definition mpsc_documented :: "('c, 'f) mpsc_lib \<Rightarrow> ('c \<Rightarrow> 'f chan) \<Rightarrow> bool" where
  "mpsc_documented mp v \<longleftrightarrow>
     (\<forall>n. v (mp_channel mp n) = chan_new n) \<and>
     (\<forall>c. map_prod v id (mp_recv mp c) = chan_recv (v c)) \<and>
     (\<forall>c. map_prod v id (mp_try_recv mp c) = chan_try_recv (v c)) \<and>
     (\<forall>c. v (mp_close mp c) = chan_close (v c)) \<and>
     (\<forall>c f. map_prod v id (mp_try_send mp c f) = chan_try_send (v c) f) \<and>
     (\<forall>c. map_prod v id (mp_try_reserve mp c) = chan_try_reserve (v c)) \<and>
     (\<forall>c f. v (mp_permit_send mp c f) = chan_permit_send (v c) f) \<and>
     (\<forall>c f. map_prod v id (mp_poll_send mp c f) = chan_poll_send (v c) f)"

definition reference_mpsc :: "('f chan, 'f) mpsc_lib" where
  "reference_mpsc =
     \<lparr>mp_channel = chan_new, mp_recv = chan_recv, mp_try_recv = chan_try_recv, mp_close = chan_close,
      mp_try_send = chan_try_send, mp_try_reserve = chan_try_reserve, mp_permit_send = chan_permit_send,
      mp_poll_send = chan_poll_send\<rparr>"

lemma reference_mpsc_documented [simp]: "mpsc_documented reference_mpsc (\<lambda>c. c)"
  by (simp add: mpsc_documented_def reference_mpsc_def map_prod_def)

section \<open>Using the documentation\<close>

lemma mpsc_recvD:
  assumes "mpsc_documented mp v" and "mp_recv mp c = (c', r)"
  shows "chan_recv (v c) = (v c', r)"
  using assms by (auto simp: mpsc_documented_def dest: spec [of _ c])

lemma mpsc_try_recvD:
  assumes "mpsc_documented mp v" and "mp_try_recv mp c = (c', r)"
  shows "chan_try_recv (v c) = (v c', r)"
proof -
  have "map_prod v id (mp_try_recv mp c) = chan_try_recv (v c)" using assms(1) by (simp add: mpsc_documented_def)
  with assms(2) show ?thesis by simp
qed

lemma mpsc_closeD: "mpsc_documented mp v \<Longrightarrow> v (mp_close mp c) = chan_close (v c)"
  by (simp add: mpsc_documented_def)

lemma mpsc_try_sendD:
  assumes "mpsc_documented mp v" and "mp_try_send mp c f = (c', r)"
  shows "chan_try_send (v c) f = (v c', r)"
proof -
  have "map_prod v id (mp_try_send mp c f) = chan_try_send (v c) f" using assms(1) by (simp add: mpsc_documented_def)
  with assms(2) show ?thesis by simp
qed

lemma mpsc_try_reserveD:
  assumes "mpsc_documented mp v" and "mp_try_reserve mp c = (c', r)"
  shows "chan_try_reserve (v c) = (v c', r)"
proof -
  have "map_prod v id (mp_try_reserve mp c) = chan_try_reserve (v c)" using assms(1) by (simp add: mpsc_documented_def)
  with assms(2) show ?thesis by simp
qed

lemma mpsc_permit_sendD: "mpsc_documented mp v \<Longrightarrow> v (mp_permit_send mp c f) = chan_permit_send (v c) f"
  by (simp add: mpsc_documented_def)

lemma mpsc_poll_sendD:
  assumes "mpsc_documented mp v" and "mp_poll_send mp c f = (c', r)"
  shows "chan_poll_send (v c) f = (v c', r)"
proof -
  have "map_prod v id (mp_poll_send mp c f) = chan_poll_send (v c) f" using assms(1) by (simp add: mpsc_documented_def)
  with assms(2) show ?thesis by simp
qed

lemma mpsc_channelD: "mpsc_documented mp v \<Longrightarrow> v (mp_channel mp n) = chan_new n"
  by (simp add: mpsc_documented_def)

lemma chan_recv_cases:
  assumes "chan_recv c = (c', r)"
  obtains (frame) f where "r = Ready (Some f)" "ch_queue c = f # ch_queue c'" "chan_live c' = chan_live c"
    "ch_closed c' = ch_closed c" "ch_senders c' = ch_senders c" "ch_capacity c' = ch_capacity c"
  | (wait) "r = Pending" "c' = c" "ch_queue c = []" "chan_live c"
  | (ended) "r = Ready None" "c' = c" "ch_queue c = []" "\<not> chan_live c"
  using assms by (auto simp: chan_recv_def chan_live_def split: list.splits if_splits)

lemma chan_try_recv_cases:
  assumes "chan_try_recv c = (c', r)"
  obtains (frame) f where "r = Inr f" "ch_queue c = f # ch_queue c'" "chan_live c' = chan_live c"
    "ch_closed c' = ch_closed c" "ch_senders c' = ch_senders c" "ch_capacity c' = ch_capacity c"
  | (wait) "r = Inl TryRecvEmpty" "c' = c" "ch_queue c = []" "chan_live c"
  | (ended) "r = Inl TryRecvDisconnected" "c' = c" "ch_queue c = []" "\<not> chan_live c"
  using assms by (auto simp: chan_try_recv_def chan_live_def split: list.splits if_splits)

lemma chan_close_simps [simp]:
  "ch_queue (chan_close c) = ch_queue c" "ch_closed (chan_close c)"
  "ch_capacity (chan_close c) = ch_capacity c" "chan_live (chan_close c) \<Longrightarrow> chan_live c"
  "ch_reserved (chan_close c) = ch_reserved c" "ch_senders (chan_close c) = ch_senders c"
  by (auto simp: chan_close_def chan_live_def)

lemma not_live_close: "\<not> chan_live c \<Longrightarrow> \<not> chan_live (chan_close c)"
  by (auto simp: chan_close_def chan_live_def)

end
