(* ===== verification/Hooks.thy ===== *)
theory Hooks
  imports Codec_Error Prelude
begin

text \<open>
  Protocol callbacks: \<open>src/hooks.rs\<close>. A callback is application code; it may keep state of its own,
  so it is a function on an opaque state \<open>'h\<close>, which also holds the (empty) \<open>ConnectionContext\<close>.
\<close>

record ('f, 'e, 'ph, 'h) protocol_hooks =
  ph_on_connection_setup :: "('ph \<Rightarrow> 'h \<Rightarrow> 'h) option"
  ph_before_send :: "('f \<Rightarrow> 'h \<Rightarrow> 'f \<times> 'h) option"
  ph_on_command_end :: "('h \<Rightarrow> 'h) option"
  ph_handle_error :: "('e \<Rightarrow> 'h \<Rightarrow> 'h) option"
  ph_stream_end :: "('h \<Rightarrow> 'f option \<times> 'h) option"
  ph_on_eof :: "(eof_error \<Rightarrow> bytes \<Rightarrow> 'h \<Rightarrow> 'h) option"

text \<open>The trait \<open>WireframeProtocol\<close>, whose methods all take the shared protocol state.\<close>

record ('f, 'e, 'ph, 'h) wireframe_protocol =
  wp_on_connection_setup :: "'ph \<Rightarrow> 'h \<Rightarrow> 'h"
  wp_before_send :: "'f \<Rightarrow> 'h \<Rightarrow> 'f \<times> 'h"
  wp_on_command_end :: "'h \<Rightarrow> 'h"
  wp_handle_error :: "'e \<Rightarrow> 'h \<Rightarrow> 'h"
  wp_stream_end_frame :: "'h \<Rightarrow> 'f option \<times> 'h"
  wp_on_eof :: "eof_error \<Rightarrow> bytes \<Rightarrow> 'h \<Rightarrow> 'h"

text \<open>The methods of the trait have bodies of their own, which an implementation may leave in place.\<close>

definition wireframe_protocol_default :: "('f, 'e, 'ph, 'h) wireframe_protocol" where
  "wireframe_protocol_default =
     \<lparr>wp_on_connection_setup = (\<lambda>handle ctx. ctx), wp_before_send = (\<lambda>frame ctx. (frame, ctx)),
      wp_on_command_end = (\<lambda>ctx. ctx), wp_handle_error = (\<lambda>e ctx. ctx),
      wp_stream_end_frame = (\<lambda>ctx. (None, ctx)), wp_on_eof = (\<lambda>e partial ctx. ctx)\<rparr>"

definition protocol_hooks_default :: "('f, 'e, 'ph, 'h) protocol_hooks" where
  "protocol_hooks_default =
     \<lparr>ph_on_connection_setup = None, ph_before_send = None, ph_on_command_end = None,
      ph_handle_error = None, ph_stream_end = None, ph_on_eof = None\<rparr>"

text \<open>\<open>take\<close> removes the setup callback, which therefore runs at most once.\<close>

definition hook_on_connection_setup ::
    "('f, 'e, 'ph, 'h) protocol_hooks \<Rightarrow> 'ph \<Rightarrow> 'h \<Rightarrow> ('f, 'e, 'ph, 'h) protocol_hooks \<times> 'h" where
  "hook_on_connection_setup hooks handle ctx =
     (case ph_on_connection_setup hooks of
        Some hook \<Rightarrow> (hooks\<lparr>ph_on_connection_setup := None\<rparr>, hook handle ctx)
      | None \<Rightarrow> (hooks, ctx))"

definition hook_before_send :: "('f, 'e, 'ph, 'h) protocol_hooks \<Rightarrow> 'f \<Rightarrow> 'h \<Rightarrow> 'f \<times> 'h" where
  "hook_before_send hooks frame ctx =
     (case ph_before_send hooks of Some hook \<Rightarrow> hook frame ctx | None \<Rightarrow> (frame, ctx))"

definition hook_on_command_end :: "('f, 'e, 'ph, 'h) protocol_hooks \<Rightarrow> 'h \<Rightarrow> 'h" where
  "hook_on_command_end hooks ctx = (case ph_on_command_end hooks of Some hook \<Rightarrow> hook ctx | None \<Rightarrow> ctx)"

definition hook_handle_error :: "('f, 'e, 'ph, 'h) protocol_hooks \<Rightarrow> 'e \<Rightarrow> 'h \<Rightarrow> 'h" where
  "hook_handle_error hooks error ctx =
     (case ph_handle_error hooks of Some hook \<Rightarrow> hook error ctx | None \<Rightarrow> ctx)"

definition hook_stream_end_frame :: "('f, 'e, 'ph, 'h) protocol_hooks \<Rightarrow> 'h \<Rightarrow> 'f option \<times> 'h" where
  "hook_stream_end_frame hooks ctx =
     (case ph_stream_end hooks of Some hook \<Rightarrow> hook ctx | None \<Rightarrow> (None, ctx))"

definition hook_on_eof :: "('f, 'e, 'ph, 'h) protocol_hooks \<Rightarrow> eof_error \<Rightarrow> bytes \<Rightarrow> 'h \<Rightarrow> 'h" where
  "hook_on_eof hooks error partial_data ctx =
     (case ph_on_eof hooks of Some hook \<Rightarrow> hook error partial_data ctx | None \<Rightarrow> ctx)"

definition from_protocol :: "('f, 'e, 'ph, 'h) wireframe_protocol \<Rightarrow> ('f, 'e, 'ph, 'h) protocol_hooks" where
  "from_protocol protocol =
     \<lparr>ph_on_connection_setup = Some (\<lambda>handle ctx. wp_on_connection_setup protocol handle ctx),
      ph_before_send = Some (\<lambda>frame ctx. wp_before_send protocol frame ctx),
      ph_on_command_end = Some (\<lambda>ctx. wp_on_command_end protocol ctx),
      ph_handle_error = Some (\<lambda>e ctx. wp_handle_error protocol e ctx),
      ph_stream_end = Some (\<lambda>ctx. wp_stream_end_frame protocol ctx),
      ph_on_eof = Some (\<lambda>error partial_data ctx. wp_on_eof protocol error partial_data ctx)\<rparr>"

end
