(* ===== verification/Wireframe_Error.thy ===== *)
theory Wireframe_Error
  imports Codec_Error
begin

text \<open>The crate's top-level error: \<open>src/error.rs\<close>. Its texts and error sources are not modelled. The
  constructors carry a prefix because those of \<open>CodecError\<close> have the same names.\<close>

datatype 'e wireframe_error = DuplicateRoute u32 | WfIo io_error | WfProtocol 'e | WfCodec codec_error

definition wireframe_error_from :: "'e \<Rightarrow> 'e wireframe_error" where
  "wireframe_error_from e = WfProtocol e"

definition from_io :: "io_error \<Rightarrow> 'e wireframe_error" where
  "from_io e = WfIo e"

definition from_codec :: "codec_error \<Rightarrow> 'e wireframe_error" where
  "from_codec e = WfCodec e"

fun wireframe_error_is_clean_close :: "'e wireframe_error \<Rightarrow> bool" where
  "wireframe_error_is_clean_close (WfCodec e) = is_clean_close e"
| "wireframe_error_is_clean_close _ = False"

end
