(* ===== verification/Connection_Actor.thy ===== *)
theory Connection_Actor
  imports Fairness Channel Hooks Wireframe_Error Fragment_Adapter "HOL-Library.Monad_Syntax"
begin

text \<open>
  The actor that writes the frames of one connection: \<open>src/connection/*.rs\<close>. Its loop is a
  \<open>tokio::select!\<close> over the shutdown token, two push queues and one active output (a response
  stream or a multi-packet channel). One turn of the loop is \<open>poll_sources\<close>, a function of the
  actor, its lifecycle state and the frames written so far; the clock readings it takes are
  arguments. Channels, streams, callbacks and the frame type are the record \<open>actor_env\<close>.

  An operation that writes frames returns \<open>None\<close> where the code panics, which can only happen when
  the identifiers of the fragmenter are exhausted. The global connection gauge and the metrics
  counters the actor moves are fields of the actor. Log lines, and the connection id and the peer
  address that only they use, are not modelled.
\<close>

section \<open>Lifecycle state\<close>

datatype run_state = Active | ShuttingDown | Finished

record actor_state =
  as_run_state :: run_state
  as_closed_sources :: usize
  as_total_sources :: usize

definition actor_state_new :: "bool \<Rightarrow> bool \<Rightarrow> actor_state" where
  "actor_state_new has_response has_multi_packet =
     \<lparr>as_run_state = Active, as_closed_sources = 1,
      as_total_sources = 3 + of_bool has_response + of_bool has_multi_packet\<rparr>"

definition mark_closed :: "actor_state \<Rightarrow> actor_state" where
  "mark_closed st =
     (let st' = st\<lparr>as_closed_sources := as_closed_sources st + 1\<rparr>
      in if as_total_sources st' \<le> as_closed_sources st' then st'\<lparr>as_run_state := Finished\<rparr> else st')"

definition state_start_shutdown :: "actor_state \<Rightarrow> actor_state" where
  "state_start_shutdown st =
     (if as_run_state st = Active then st\<lparr>as_run_state := ShuttingDown\<rparr> else st)"

definition is_active :: "actor_state \<Rightarrow> bool" where
  "is_active st \<longleftrightarrow> as_run_state st = Active"

definition is_shutting_down :: "actor_state \<Rightarrow> bool" where
  "is_shutting_down st \<longleftrightarrow> as_run_state st = ShuttingDown"

definition is_done :: "actor_state \<Rightarrow> bool" where
  "is_done st \<longleftrightarrow> as_run_state st = Finished"

section \<open>Outputs\<close>

datatype multi_packet_stamp = StampDisabled | StampEnabled "u64 option"

datatype termination_reason = Drained | Disconnected | ShutdownReason

fun termination_reason_as_str :: "termination_reason \<Rightarrow> string" where
  "termination_reason_as_str Drained = ''drained''"
| "termination_reason_as_str Disconnected = ''disconnected''"
| "termination_reason_as_str ShutdownReason = ''shutdown''"

record 'c multi_packet_context =
  mpc_channel :: "'c option"
  mpc_stamp :: multi_packet_stamp

definition multi_packet_context_new :: "'c multi_packet_context" where
  "multi_packet_context_new = \<lparr>mpc_channel = None, mpc_stamp = StampDisabled\<rparr>"

definition multi_packet_install ::
    "'c option \<Rightarrow> u64 option \<Rightarrow> 'c multi_packet_context \<Rightarrow> 'c multi_packet_context" where
  "multi_packet_install channel correlation_id ctx =
     ctx\<lparr>mpc_channel := channel,
         mpc_stamp := (if channel \<noteq> None then StampEnabled correlation_id else StampDisabled)\<rparr>"

definition is_stamping_enabled :: "'c multi_packet_context \<Rightarrow> bool" where
  "is_stamping_enabled ctx = (case mpc_stamp ctx of StampEnabled _ \<Rightarrow> True | StampDisabled \<Rightarrow> False)"

definition mpc_correlation_id :: "'c multi_packet_context \<Rightarrow> u64 option" where
  "mpc_correlation_id ctx = (case mpc_stamp ctx of StampEnabled value \<Rightarrow> value | StampDisabled \<Rightarrow> None)"

datatype ('c, 's) active_output =
    OutputNone | OutputResponse 's | OutputMultiPacket "'c multi_packet_context"

datatype output_availability = AvailableNone | AvailableMultiPacket | AvailableResponse

record event_availability =
  ea_high :: bool
  ea_low :: bool
  ea_output :: output_availability

record shutdown_result =
  sr_correlation_id :: "u64 option"
  sr_source_closed :: bool
  sr_call_on_command_end :: bool

definition available_output :: "bool \<Rightarrow> ('c, 's) active_output \<Rightarrow> output_availability" where
  "available_output shutting_down out =
     (if shutting_down then AvailableNone
      else case out of
             OutputNone \<Rightarrow> AvailableNone
           | OutputResponse _ \<Rightarrow> AvailableResponse
           | OutputMultiPacket _ \<Rightarrow> AvailableMultiPacket)"

definition is_response :: "('c, 's) active_output \<Rightarrow> bool" where
  "is_response out = (case out of OutputResponse _ \<Rightarrow> True | _ \<Rightarrow> False)"

definition is_multi_packet :: "('c, 's) active_output \<Rightarrow> bool" where
  "is_multi_packet out = (case out of OutputMultiPacket _ \<Rightarrow> True | _ \<Rightarrow> False)"

definition multi_packet_mut :: "('c, 's) active_output \<Rightarrow> 'c multi_packet_context option" where
  "multi_packet_mut out = (case out of OutputMultiPacket ctx \<Rightarrow> Some ctx | _ \<Rightarrow> None)"

definition clear_response :: "('c, 's) active_output \<Rightarrow> ('c, 's) active_output" where
  "clear_response out = (if is_response out then OutputNone else out)"

text \<open>The receiver a shutdown closes is dropped with its context, so only the result remains.\<close>

definition output_shutdown :: "('c, 's) active_output \<Rightarrow> ('c, 's) active_output \<times> shutdown_result" where
  "output_shutdown out =
     (OutputNone,
      case out of
        OutputMultiPacket ctx \<Rightarrow>
          \<lparr>sr_correlation_id = mpc_correlation_id ctx, sr_source_closed = mpc_channel ctx \<noteq> None,
           sr_call_on_command_end = True\<rparr>
      | OutputResponse _ \<Rightarrow>
          \<lparr>sr_correlation_id = None, sr_source_closed = True, sr_call_on_command_end = False\<rparr>
      | OutputNone \<Rightarrow>
          \<lparr>sr_correlation_id = None, sr_source_closed = False, sr_call_on_command_end = False\<rparr>)"

definition close_multi_packet ::
    "('c, 'f) mpsc_lib \<Rightarrow> ('c, 's) active_output \<Rightarrow> ('c, 's) active_output \<times> u64 option" where
  "close_multi_packet mp out =
     (let correlation_id = Option.bind (multi_packet_mut out) mpc_correlation_id
      in (case out of
            OutputMultiPacket ctx \<Rightarrow>
              OutputMultiPacket (ctx\<lparr>mpc_channel := map_option (mp_close mp) (mpc_channel ctx)\<rparr>)
          | _ \<Rightarrow> out,
          correlation_id))"


section \<open>The actor\<close>

text \<open>
  What the actor is parametric in: the channel library, the polling of a response stream, the
  callbacks, \<open>CorrelatableFrame::set_correlation_id\<close>, and what fragmentation needs of a packet.
\<close>

record ('c, 'f, 's, 'e, 'ph, 'h) actor_env =
  ae_mpsc :: "('c, 'f) mpsc_lib"
  ae_poll_next :: "'s \<Rightarrow> 's \<times> ('e wireframe_error + 'f) option poll"
  ae_hooks :: "('f, 'e, 'ph, 'h) protocol_hooks"
  ae_set_correlation_id :: "u64 option \<Rightarrow> 'f \<Rightarrow> 'f"
  ae_packet :: "'f fragmentable"
  ae_bytes :: bytes_api
  ae_header_codec :: header_codec

record ('c, 's, 'h) connection_actor =
  ca_high_rx :: "'c option"
  ca_low_rx :: "'c option"
  ca_active_output :: "('c, 's) active_output"
  ca_shutdown :: bool
  ca_counter :: bool
  ca_ctx :: 'h
  ca_fairness :: fairness_tracker
  ca_fragmenter :: "fragmenter option"
  ca_active_connections :: u64
  ca_frames_outbound :: nat
  ca_handler_errors :: nat

datatype connection_state_error = MultiPacketActive | ResponseActive

datatype ('f, 'e) actor_event =
    EvShutdown
  | EvHigh "'f option"
  | EvLow "'f option"
  | EvMultiPacket "'f option"
  | EvResponse "('e wireframe_error + 'f) option"
  | EvIdle

datatype queue_kind = QHigh | QLow | QMulti

definition active_connection_new :: "u64 \<Rightarrow> u64" where
  "active_connection_new gauge = gauge + 1"

definition active_connection_drop :: "u64 \<Rightarrow> u64" where
  "active_connection_drop gauge = gauge - 1"

text \<open>\<open>self.counter.take()\<close>: the guard, when still there, is dropped.\<close>

definition take_counter :: "('c, 's, 'h) connection_actor \<Rightarrow> ('c, 's, 'h) connection_actor" where
  "take_counter a =
     (if ca_counter a
      then a\<lparr>ca_counter := False, ca_active_connections := active_connection_drop (ca_active_connections a)\<rparr>
      else a)"

definition actor_with_hooks ::
    "('f, 'e, 'ph, 'h) protocol_hooks \<Rightarrow> 'h \<Rightarrow> u64 \<Rightarrow> 'c \<Rightarrow> 'c \<Rightarrow> 'ph \<Rightarrow> 's option \<Rightarrow> bool \<Rightarrow>
     ('c, 's, 'h) connection_actor \<times> ('f, 'e, 'ph, 'h) protocol_hooks" where
  "actor_with_hooks hooks ctx gauge high low handle response shutdown =
     (let (hooks', ctx') = hook_on_connection_setup hooks handle ctx
      in (\<lparr>ca_high_rx = Some high, ca_low_rx = Some low,
           ca_active_output = (case response of None \<Rightarrow> OutputNone | Some s \<Rightarrow> OutputResponse s),
           ca_shutdown = shutdown, ca_counter = True, ca_ctx = ctx',
           ca_fairness = fairness_new fairness_config_default, ca_fragmenter = None,
           ca_active_connections = active_connection_new gauge,
           ca_frames_outbound = 0, ca_handler_errors = 0\<rparr>, hooks'))"

definition actor_new ::
    "'h \<Rightarrow> u64 \<Rightarrow> 'c \<Rightarrow> 'c \<Rightarrow> 'ph \<Rightarrow> 's option \<Rightarrow> bool \<Rightarrow>
     ('c, 's, 'h) connection_actor \<times> ('f, 'e, 'ph, 'h) protocol_hooks" where
  "actor_new ctx gauge high low handle response shutdown =
     actor_with_hooks protocol_hooks_default ctx gauge high low handle response shutdown"

definition set_fairness ::
    "fairness_config \<Rightarrow> ('c, 's, 'h) connection_actor \<Rightarrow> ('c, 's, 'h) connection_actor" where
  "set_fairness config a = a\<lparr>ca_fairness := fairness_set_config config (ca_fairness a)\<rparr>"

definition enable_fragmentation ::
    "fragmentation_config \<Rightarrow> ('c, 's, 'h) connection_actor \<Rightarrow> ('c, 's, 'h) connection_actor" where
  "enable_fragmentation config a =
     a\<lparr>ca_fragmenter := Some (fragmenter_new (cfg_fragment_payload_cap config))\<rparr>"

definition set_response ::
    "'s option \<Rightarrow> ('c, 's, 'h) connection_actor \<Rightarrow>
     ('c, 's, 'h) connection_actor \<times> (connection_state_error + unit)" where
  "set_response stream a =
     (if is_multi_packet (ca_active_output a) then (a, Inl MultiPacketActive)
      else (a\<lparr>ca_active_output := (case stream of None \<Rightarrow> OutputNone | Some s \<Rightarrow> OutputResponse s)\<rparr>, Inr ()))"

definition set_multi_packet_with_correlation ::
    "'c option \<Rightarrow> u64 option \<Rightarrow> ('c, 's, 'h) connection_actor \<Rightarrow>
     ('c, 's, 'h) connection_actor \<times> (connection_state_error + unit)" where
  "set_multi_packet_with_correlation channel correlation_id a =
     (if is_response (ca_active_output a) then (a, Inl ResponseActive)
      else (a\<lparr>ca_active_output :=
                (case channel of
                   None \<Rightarrow> OutputNone
                 | Some rx \<Rightarrow>
                     OutputMultiPacket
                       (multi_packet_install (Some rx) correlation_id multi_packet_context_new))\<rparr>, Inr ()))"

definition set_multi_packet ::
    "'c option \<Rightarrow> ('c, 's, 'h) connection_actor \<Rightarrow>
     ('c, 's, 'h) connection_actor \<times> (connection_state_error + unit)" where
  "set_multi_packet channel a = set_multi_packet_with_correlation channel None a"

definition set_low_queue :: "'c option \<Rightarrow> ('c, 's, 'h) connection_actor \<Rightarrow> ('c, 's, 'h) connection_actor" where
  "set_low_queue queue a = a\<lparr>ca_low_rx := queue\<rparr>"

section \<open>Writing frames\<close>

definition push_frame ::
    "('c, 'f, 's, 'e, 'ph, 'h) actor_env \<Rightarrow> 'f \<Rightarrow> ('c, 's, 'h) connection_actor \<times> 'f list \<Rightarrow>
     ('c, 's, 'h) connection_actor \<times> 'f list" where
  "push_frame env frame = (\<lambda>(a, out).
     let (frame', ctx') = hook_before_send (ae_hooks env) frame (ca_ctx a)
     in (a\<lparr>ca_ctx := ctx', ca_frames_outbound := ca_frames_outbound a + 1\<rparr>, out @ [frame']))"

definition process_frame_with_hooks_and_metrics ::
    "('c, 'f, 's, 'e, 'ph, 'h) actor_env \<Rightarrow> 'f \<Rightarrow> ('c, 's, 'h) connection_actor \<times> 'f list \<Rightarrow>
     (('c, 's, 'h) connection_actor \<times> 'f list) option" where
  "process_frame_with_hooks_and_metrics env frame = (\<lambda>(a, out).
     case ca_fragmenter a of
       None \<Rightarrow> Some (push_frame env frame (a, out))
     | Some fragmenter \<Rightarrow>
         (case fragment_packet (ae_bytes env) (ae_header_codec env) (ae_packet env) fragmenter frame of
            None \<Rightarrow> None
          | Some (fragmenter', Inr frames) \<Rightarrow>
              Some (fold (push_frame env) frames (a\<lparr>ca_fragmenter := Some fragmenter'\<rparr>, out))
          | Some (fragmenter', Inl _) \<Rightarrow>
              Some (a\<lparr>ca_fragmenter := Some fragmenter', ca_handler_errors := ca_handler_errors a + 1\<rparr>, out)))"

definition apply_multi_packet_correlation ::
    "('c, 'f, 's, 'e, 'ph, 'h) actor_env \<Rightarrow> ('c, 's, 'h) connection_actor \<Rightarrow> 'f \<Rightarrow> 'f" where
  "apply_multi_packet_correlation env a frame =
     (case multi_packet_mut (ca_active_output a) of
        None \<Rightarrow> frame
      | Some ctx \<Rightarrow>
          if \<not> is_stamping_enabled ctx then frame
          else ae_set_correlation_id env (mpc_correlation_id ctx) frame)"

definition emit_multi_packet_frame ::
    "('c, 'f, 's, 'e, 'ph, 'h) actor_env \<Rightarrow> 'f \<Rightarrow> ('c, 's, 'h) connection_actor \<times> 'f list \<Rightarrow>
     (('c, 's, 'h) connection_actor \<times> 'f list) option" where
  "emit_multi_packet_frame env frame = (\<lambda>(a, out).
     process_frame_with_hooks_and_metrics env (apply_multi_packet_correlation env a frame) (a, out))"

definition after_low :: "('c, 's, 'h) connection_actor \<Rightarrow> ('c, 's, 'h) connection_actor" where
  "after_low a = a\<lparr>ca_fairness := fairness_reset (ca_fairness a)\<rparr>"


section \<open>Sources that close\<close>

text \<open>The actor, its lifecycle state and the frames written so far.\<close>

type_synonym ('c, 'f, 's, 'h) actor_cfg = "('c, 's, 'h) connection_actor \<times> actor_state \<times> 'f list"

text \<open>
  Closing a multi-packet channel. The terminator frame is stamped like the channel's frames, so
  the output is cleared only after it has been written.
\<close>

definition handle_multi_packet_closed ::
    "('c, 'f, 's, 'e, 'ph, 'h) actor_env \<Rightarrow> ('c, 'f, 's, 'h) actor_cfg \<Rightarrow> ('c, 'f, 's, 'h) actor_cfg option" where
  "handle_multi_packet_closed env = (\<lambda>(a, st, out).
     let (output, _) = close_multi_packet (ae_mpsc env) (ca_active_output a);
         a1 = a\<lparr>ca_active_output := output\<rparr>;
         st1 = mark_closed st;
         (terminator, ctx) = hook_stream_end_frame (ae_hooks env) (ca_ctx a1);
         a2 = a1\<lparr>ca_ctx := ctx\<rparr>
     in do {
          (a3, out1) \<leftarrow> (case terminator of
              None \<Rightarrow> Some (a2, out)
            | Some frame \<Rightarrow>
                map_option (\<lambda>(a, out). (after_low a, out)) (emit_multi_packet_frame env frame (a2, out)));
          let a4 = a3\<lparr>ca_active_output := OutputNone\<rparr>;
          Some (a4\<lparr>ca_ctx := hook_on_command_end (ae_hooks env) (ca_ctx a4)\<rparr>, st1, out1)
        })"

definition start_shutdown ::
    "('c, 'f, 's, 'e, 'ph, 'h) actor_env \<Rightarrow> ('c, 's, 'h) connection_actor \<times> actor_state \<Rightarrow>
     ('c, 's, 'h) connection_actor \<times> actor_state" where
  "start_shutdown env = (\<lambda>(a, st).
     let a1 = a\<lparr>ca_high_rx := map_option (mp_close (ae_mpsc env)) (ca_high_rx a),
                ca_low_rx := map_option (mp_close (ae_mpsc env)) (ca_low_rx a)\<rparr>;
         (output, result) = output_shutdown (ca_active_output a1);
         a2 = a1\<lparr>ca_active_output := output\<rparr>;
         st1 = (if sr_source_closed result then mark_closed st else st);
         a3 = (if sr_call_on_command_end result
               then a2\<lparr>ca_ctx := hook_on_command_end (ae_hooks env) (ca_ctx a2)\<rparr> else a2)
     in (a3, st1))"

definition process_shutdown ::
    "('c, 'f, 's, 'e, 'ph, 'h) actor_env \<Rightarrow> ('c, 's, 'h) connection_actor \<times> actor_state \<Rightarrow>
     ('c, 's, 'h) connection_actor \<times> actor_state" where
  "process_shutdown env = (\<lambda>(a, st). start_shutdown env (a, state_start_shutdown st))"

text \<open>\<open>handle_closed_receiver\<close>, on the field it is called with.\<close>

definition close_high_receiver ::
    "('c, 's, 'h) connection_actor \<times> actor_state \<Rightarrow> ('c, 's, 'h) connection_actor \<times> actor_state" where
  "close_high_receiver = (\<lambda>(a, st). (a\<lparr>ca_high_rx := None\<rparr>, mark_closed st))"

definition close_low_receiver ::
    "('c, 's, 'h) connection_actor \<times> actor_state \<Rightarrow> ('c, 's, 'h) connection_actor \<times> actor_state" where
  "close_low_receiver = (\<lambda>(a, st). (a\<lparr>ca_low_rx := None\<rparr>, mark_closed st))"

definition handle_empty_queue ::
    "('c, 'f, 's, 'e, 'ph, 'h) actor_env \<Rightarrow> queue_kind \<Rightarrow> ('c, 'f, 's, 'h) actor_cfg \<Rightarrow>
     ('c, 'f, 's, 'h) actor_cfg option" where
  "handle_empty_queue env kind = (\<lambda>(a, st, out).
     case kind of
       QHigh \<Rightarrow>
         (let (a1, st1) = close_high_receiver (a, st)
          in Some (a1\<lparr>ca_fairness := fairness_reset (ca_fairness a1)\<rparr>, st1, out))
     | QLow \<Rightarrow> (let (a1, st1) = close_low_receiver (a, st) in Some (a1, st1, out))
     | QMulti \<Rightarrow> handle_multi_packet_closed env (a, st, out))"

section \<open>Queues\<close>

text \<open>The boolean of the opportunistic drains tells whether a frame was forwarded.\<close>

definition try_opportunistic_low_drain ::
    "('c, 'f, 's, 'e, 'ph, 'h) actor_env \<Rightarrow> ('c, 'f, 's, 'h) actor_cfg \<Rightarrow>
     (('c, 'f, 's, 'h) actor_cfg \<times> bool) option" where
  "try_opportunistic_low_drain env = (\<lambda>(a, st, out).
     case ca_low_rx a of
       None \<Rightarrow> Some ((a, st, out), False)
     | Some receiver \<Rightarrow>
         (let (receiver', res) = mp_try_recv (ae_mpsc env) receiver;
              a1 = a\<lparr>ca_low_rx := Some receiver'\<rparr>
          in case res of
               Inr frame \<Rightarrow>
                 map_option (\<lambda>(a, out). ((after_low a, st, out), True))
                   (process_frame_with_hooks_and_metrics env frame (a1, out))
             | Inl TryRecvEmpty \<Rightarrow> Some ((a1, st, out), False)
             | Inl TryRecvDisconnected \<Rightarrow>
                 (let (a2, st1) = close_low_receiver (a1, st) in Some ((a2, st1, out), False))))"

definition try_opportunistic_multi_drain ::
    "('c, 'f, 's, 'e, 'ph, 'h) actor_env \<Rightarrow> ('c, 'f, 's, 'h) actor_cfg \<Rightarrow>
     (('c, 'f, 's, 'h) actor_cfg \<times> bool) option" where
  "try_opportunistic_multi_drain env = (\<lambda>(a, st, out).
     case multi_packet_mut (ca_active_output a) of
       None \<Rightarrow> Some ((a, st, out), False)
     | Some ctx \<Rightarrow>
         (case mpc_channel ctx of
            None \<Rightarrow> Some ((a, st, out), False)
          | Some rx \<Rightarrow>
              (let (rx', res) = mp_try_recv (ae_mpsc env) rx;
                   a1 = a\<lparr>ca_active_output := OutputMultiPacket (ctx\<lparr>mpc_channel := Some rx'\<rparr>)\<rparr>
               in case res of
                    Inr frame \<Rightarrow>
                      map_option (\<lambda>(a, out). ((after_low a, st, out), True))
                        (emit_multi_packet_frame env frame (a1, out))
                  | Inl TryRecvEmpty \<Rightarrow> Some ((a1, st, out), False)
                  | Inl TryRecvDisconnected \<Rightarrow>
                      map_option (\<lambda>cfg. (cfg, False)) (handle_multi_packet_closed env (a1, st, out)))))"

definition try_opportunistic_drain ::
    "('c, 'f, 's, 'e, 'ph, 'h) actor_env \<Rightarrow> queue_kind \<Rightarrow> ('c, 'f, 's, 'h) actor_cfg \<Rightarrow>
     (('c, 'f, 's, 'h) actor_cfg \<times> bool) option" where
  "try_opportunistic_drain env kind cfg =
     (case kind of
        QHigh \<Rightarrow> Some (cfg, False)
      | QLow \<Rightarrow> try_opportunistic_low_drain env cfg
      | QMulti \<Rightarrow> try_opportunistic_multi_drain env cfg)"

text \<open>
  The two clock readings of \<open>after_high\<close>: for the start of a burst and for the time slice.
\<close>

definition after_high ::
    "('c, 'f, 's, 'e, 'ph, 'h) actor_env \<Rightarrow> instant \<times> instant \<Rightarrow> ('c, 'f, 's, 'h) actor_cfg \<Rightarrow>
     ('c, 'f, 's, 'h) actor_cfg option" where
  "after_high env now = (\<lambda>(a, st, out).
     let a1 = a\<lparr>ca_fairness := record_high_priority (fst now) (ca_fairness a)\<rparr>
     in if \<not> should_yield_to_low_priority (snd now) (ca_fairness a1) then Some (a1, st, out)
        else do {
          (cfg, drained) \<leftarrow> try_opportunistic_drain env QLow (a1, st, out);
          if drained then Some cfg
          else map_option fst (try_opportunistic_drain env QMulti cfg)
        })"

definition should_emit_multi_packet_frame :: "queue_kind \<Rightarrow> ('c, 's, 'h) connection_actor \<Rightarrow> bool" where
  "should_emit_multi_packet_frame kind a \<longleftrightarrow>
     kind = QMulti \<and>
     (case multi_packet_mut (ca_active_output a) of None \<Rightarrow> False | Some ctx \<Rightarrow> is_stamping_enabled ctx)"

definition forward_queue_frame ::
    "('c, 'f, 's, 'e, 'ph, 'h) actor_env \<Rightarrow> instant \<times> instant \<Rightarrow> queue_kind \<Rightarrow> 'f \<Rightarrow>
     ('c, 'f, 's, 'h) actor_cfg \<Rightarrow> ('c, 'f, 's, 'h) actor_cfg option" where
  "forward_queue_frame env now kind frame = (\<lambda>(a, st, out).
     do {
       (a1, out1) \<leftarrow>
         (if should_emit_multi_packet_frame kind a then emit_multi_packet_frame env frame (a, out)
          else process_frame_with_hooks_and_metrics env frame (a, out));
       case kind of
         QHigh \<Rightarrow> after_high env now (a1, st, out1)
       | QLow \<Rightarrow> Some (after_low a1, st, out1)
       | QMulti \<Rightarrow> Some (after_low a1, st, out1)
     })"

definition process_queue ::
    "('c, 'f, 's, 'e, 'ph, 'h) actor_env \<Rightarrow> instant \<times> instant \<Rightarrow> queue_kind \<Rightarrow> 'f option \<Rightarrow>
     ('c, 'f, 's, 'h) actor_cfg \<Rightarrow> ('c, 'f, 's, 'h) actor_cfg option" where
  "process_queue env now kind res cfg =
     (case res of
        Some frame \<Rightarrow> forward_queue_frame env now kind frame cfg
      | None \<Rightarrow> handle_empty_queue env kind cfg)"


section \<open>Response streams\<close>

text \<open>The error of the inner sum is the one \<open>?\<close> propagates.\<close>

definition handle_response ::
    "('c, 'f, 's, 'e, 'ph, 'h) actor_env \<Rightarrow> ('e wireframe_error + 'f) option \<Rightarrow> ('c, 'f, 's, 'h) actor_cfg \<Rightarrow>
     (('c, 'f, 's, 'h) actor_cfg \<times> ('e wireframe_error + bool)) option" where
  "handle_response env res = (\<lambda>(a, st, out).
     case res of
       Some (Inr frame) \<Rightarrow>
         map_option (\<lambda>(a, out). ((a, st, out), Inr True)) (process_frame_with_hooks_and_metrics env frame (a, out))
     | Some (Inl (WfProtocol e)) \<Rightarrow>
         (let a1 = a\<lparr>ca_ctx := hook_handle_error (ae_hooks env) e (ca_ctx a)\<rparr>;
              a2 = a1\<lparr>ca_active_output := clear_response (ca_active_output a1)\<rparr>;
              a3 = a2\<lparr>ca_ctx := hook_on_command_end (ae_hooks env) (ca_ctx a2),
                      ca_handler_errors := ca_handler_errors a2 + 1\<rparr>
          in Some ((a3, mark_closed st, out), Inr False))
     | Some (Inl e) \<Rightarrow> Some ((a, st, out), Inl e)
     | None \<Rightarrow>
         (let st1 = mark_closed st;
              (terminator, ctx) = hook_stream_end_frame (ae_hooks env) (ca_ctx a);
              a1 = a\<lparr>ca_ctx := ctx\<rparr>
          in do {
               (a2, out1, produced) \<leftarrow> (case terminator of
                   None \<Rightarrow> Some (a1, out, False)
                 | Some frame \<Rightarrow>
                     map_option (\<lambda>(a, out). (a, out, True)) (process_frame_with_hooks_and_metrics env frame (a1, out)));
               Some ((a2\<lparr>ca_ctx := hook_on_command_end (ae_hooks env) (ca_ctx a2)\<rparr>, st1, out1), Inr produced)
             }))"

definition process_response ::
    "('c, 'f, 's, 'e, 'ph, 'h) actor_env \<Rightarrow> ('e wireframe_error + 'f) option \<Rightarrow> ('c, 'f, 's, 'h) actor_cfg \<Rightarrow>
     (('c, 'f, 's, 'h) actor_cfg \<times> ('e wireframe_error + unit)) option" where
  "process_response env res cfg =
     do {
       ((a, st, out), result) \<leftarrow> handle_response env res cfg;
       case result of
         Inl e \<Rightarrow> Some ((a, st, out), Inl e)
       | Inr produced \<Rightarrow>
           (let a1 = (if produced then after_low a else a);
                a2 = (if res = None then a1\<lparr>ca_active_output := clear_response (ca_active_output a1)\<rparr> else a1)
            in Some ((a2, st, out), Inr ()))
     }"

section \<open>The loop\<close>

definition compute_availability :: "('c, 's, 'h) connection_actor \<Rightarrow> actor_state \<Rightarrow> event_availability" where
  "compute_availability a st =
     \<lparr>ea_high = (ca_high_rx a \<noteq> None), ea_low = (ca_low_rx a \<noteq> None),
      ea_output = available_output (is_shutting_down st) (ca_active_output a)\<rparr>"

definition poll_queue :: "('c, 'f) mpsc_lib \<Rightarrow> 'c option \<Rightarrow> 'c option \<times> 'f option poll" where
  "poll_queue mp rx =
     (case rx of
        None \<Rightarrow> (None, Ready None)
      | Some c \<Rightarrow> (let (c', r) = mp_recv mp c in (Some c', r)))"

text \<open>
  \<open>select!\<close> with \<open>biased\<close>: the enabled branches are polled in the order they are written and the
  first that is ready is taken; \<open>else\<close> is taken when no branch is enabled. \<open>Pending\<close> means that
  the task waits.
\<close>

definition poll_output ::
    "('c, 'f, 's, 'e, 'ph, 'h) actor_env \<Rightarrow> event_availability \<Rightarrow> ('c, 's) active_output \<Rightarrow>
     ('c, 's) active_output \<times> ('f, 'e) actor_event poll" where
  "poll_output env avail output =
     (case ea_output avail of
        AvailableNone \<Rightarrow> (output, Pending)
      | AvailableMultiPacket \<Rightarrow>
          (case output of
             OutputMultiPacket ctx \<Rightarrow>
               (let (rx, r) = poll_queue (ae_mpsc env) (mpc_channel ctx)
                in (OutputMultiPacket (ctx\<lparr>mpc_channel := rx\<rparr>),
                    case r of Pending \<Rightarrow> Pending | Ready res \<Rightarrow> Ready (EvMultiPacket res)))
           | _ \<Rightarrow> (output, Ready (EvMultiPacket None)))
      | AvailableResponse \<Rightarrow>
          (case output of
             OutputResponse s \<Rightarrow>
               (let (s', r) = ae_poll_next env s
                in (OutputResponse s', case r of Pending \<Rightarrow> Pending | Ready res \<Rightarrow> Ready (EvResponse res)))
           | _ \<Rightarrow> (output, Ready (EvResponse None))))"

definition next_event ::
    "('c, 'f, 's, 'e, 'ph, 'h) actor_env \<Rightarrow> ('c, 's, 'h) connection_actor \<Rightarrow> actor_state \<Rightarrow>
     ('c, 's, 'h) connection_actor \<times> ('f, 'e) actor_event poll" where
  "next_event env a st =
     (let avail = compute_availability a st
      in if is_active st \<and> ca_shutdown a then (a, Ready EvShutdown)
         else
           let (high, high_res) =
                 (if ea_high avail then poll_queue (ae_mpsc env) (ca_high_rx a) else (ca_high_rx a, Pending));
               a1 = a\<lparr>ca_high_rx := high\<rparr>
           in case high_res of
                Ready res \<Rightarrow> (a1, Ready (EvHigh res))
              | Pending \<Rightarrow>
                  (let (low, low_res) =
                         (if ea_low avail then poll_queue (ae_mpsc env) (ca_low_rx a1) else (ca_low_rx a1, Pending));
                       a2 = a1\<lparr>ca_low_rx := low\<rparr>
                   in case low_res of
                        Ready res \<Rightarrow> (a2, Ready (EvLow res))
                      | Pending \<Rightarrow>
                          (let (output, output_res) = poll_output env avail (ca_active_output a2);
                               a3 = a2\<lparr>ca_active_output := output\<rparr>
                           in case output_res of
                                Ready ev \<Rightarrow> (a3, Ready ev)
                              | Pending \<Rightarrow>
                                  (a3, if is_active st \<or> ea_high avail \<or> ea_low avail \<or>
                                          ea_output avail \<noteq> AvailableNone
                                       then Pending else Ready EvIdle))))"

definition dispatch_event ::
    "('c, 'f, 's, 'e, 'ph, 'h) actor_env \<Rightarrow> instant \<times> instant \<Rightarrow> ('f, 'e) actor_event \<Rightarrow>
     ('c, 'f, 's, 'h) actor_cfg \<Rightarrow> (('c, 'f, 's, 'h) actor_cfg \<times> ('e wireframe_error + unit)) option" where
  "dispatch_event env now ev = (\<lambda>(a, st, out).
     case ev of
       EvShutdown \<Rightarrow> (let (a1, st1) = process_shutdown env (a, st) in Some ((a1, st1, out), Inr ()))
     | EvHigh res \<Rightarrow> map_option (\<lambda>cfg. (cfg, Inr ())) (process_queue env now QHigh res (a, st, out))
     | EvLow res \<Rightarrow> map_option (\<lambda>cfg. (cfg, Inr ())) (process_queue env now QLow res (a, st, out))
     | EvMultiPacket res \<Rightarrow> map_option (\<lambda>cfg. (cfg, Inr ())) (process_queue env now QMulti res (a, st, out))
     | EvResponse res \<Rightarrow> process_response env res (a, st, out)
     | EvIdle \<Rightarrow> Some ((a, st, out), Inr ()))"

text \<open>Where the future of \<open>run\<close> stands.\<close>

datatype ('c, 'f, 's, 'e, 'h) actor_run =
    Running "('c, 's, 'h) connection_actor" actor_state "'f list"
  | Returned "('c, 's, 'h) connection_actor" "'f list"
  | Failed "('c, 's, 'h) connection_actor" "'f list" "'e wireframe_error"
  | Panicked

text \<open>\<open>run\<close> up to its loop, and one turn of the loop (\<open>poll_sources\<close> and the loop condition).\<close>

definition run_start :: "('c, 's, 'h) connection_actor \<Rightarrow> 'f list \<Rightarrow> ('c, 'f, 's, 'e, 'h) actor_run" where
  "run_start a out =
     (if ca_shutdown a then Returned (take_counter a) out
      else Running a (actor_state_new (is_response (ca_active_output a)) (is_multi_packet (ca_active_output a))) out)"

definition poll_sources ::
    "('c, 'f, 's, 'e, 'ph, 'h) actor_env \<Rightarrow> instant \<times> instant \<Rightarrow> ('c, 's, 'h) connection_actor \<Rightarrow>
     actor_state \<Rightarrow> 'f list \<Rightarrow> ('c, 'f, 's, 'e, 'h) actor_run" where
  "poll_sources env now a st out =
     (case next_event env a st of
        (a1, Pending) \<Rightarrow> Running a1 st out
      | (a1, Ready ev) \<Rightarrow>
          (case dispatch_event env now ev (a1, st, out) of
             None \<Rightarrow> Panicked
           | Some ((a2, st2, out2), Inl e) \<Rightarrow> Failed a2 out2 e
           | Some ((a2, st2, out2), Inr _) \<Rightarrow> Running a2 st2 out2))"

fun run_turn ::
    "('c, 'f, 's, 'e, 'ph, 'h) actor_env \<Rightarrow> instant \<times> instant \<Rightarrow> ('c, 'f, 's, 'e, 'h) actor_run \<Rightarrow>
     ('c, 'f, 's, 'e, 'h) actor_run" where
  "run_turn env now (Running a st out) =
     (if is_done st then Returned (take_counter a) out else poll_sources env now a st out)"
| "run_turn env now r = r"

end
