(* ===== verification/Actor_Sources.thy ===== *)
theory Actor_Sources
  imports Connection_Actor
begin

text \<open>
  Which sources of the connection actor are open, and that its lifecycle state counts them: the
  actor finishes exactly when its last source has closed, and its loop never spins idle.
\<close>

section \<open>What writing frames leaves alone\<close>

definition same_sources :: "('c, 's, 'h) connection_actor \<Rightarrow> ('c, 's, 'h) connection_actor \<Rightarrow> bool" where
  "same_sources a a' \<longleftrightarrow>
     ca_high_rx a' = ca_high_rx a \<and> ca_low_rx a' = ca_low_rx a \<and> ca_active_output a' = ca_active_output a \<and>
     ca_shutdown a' = ca_shutdown a \<and> ca_counter a' = ca_counter a \<and>
     ca_active_connections a' = ca_active_connections a"

lemma same_sources_refl [simp]: "same_sources a a"
  by (simp add: same_sources_def)

lemma same_sources_trans [trans]: "same_sources a b \<Longrightarrow> same_sources b c \<Longrightarrow> same_sources a c"
  by (simp add: same_sources_def)

lemma same_sources_simps [simp]:
  "same_sources a (after_low a)" "same_sources a (b\<lparr>ca_ctx := x\<rparr>) = same_sources a b"
  "same_sources a (b\<lparr>ca_fragmenter := y\<rparr>) = same_sources a b"
  "same_sources a (b\<lparr>ca_fairness := z\<rparr>) = same_sources a b"
  "same_sources a (b\<lparr>ca_handler_errors := n\<rparr>) = same_sources a b"
  "same_sources a (b\<lparr>ca_frames_outbound := n\<rparr>) = same_sources a b"
  by (simp_all add: same_sources_def after_low_def)

lemma push_frame_frame:
  "push_frame env f (a, out) = (a', out') \<Longrightarrow>
     same_sources a a' \<and> ca_fairness a' = ca_fairness a \<and> (\<exists>f'. out' = out @ [f'])"
  by (auto simp: push_frame_def same_sources_def split: prod.splits)

lemma fold_push_frame_frame:
  "fold (push_frame env) fs (a, out) = (a', out') \<Longrightarrow>
     same_sources a a' \<and> ca_fairness a' = ca_fairness a \<and> (\<exists>more. out' = out @ more)"
proof (induction fs arbitrary: a out)
  case (Cons f fs)
  obtain a1 out1 where p: "push_frame env f (a, out) = (a1, out1)" by fastforce
  with Cons.prems Cons.IH [of a1 out1] push_frame_frame [OF p] show ?case
    by (auto intro: same_sources_trans)
qed simp

lemma process_frame_frame:
  assumes "process_frame_with_hooks_and_metrics env f (a, out) = Some (a', out')"
  shows "same_sources a a' \<and> ca_fairness a' = ca_fairness a \<and> (\<exists>more. out' = out @ more)"
proof (cases "ca_fragmenter a")
  case None
  with assms push_frame_frame [of env f a out a' out'] show ?thesis
    by (auto simp: process_frame_with_hooks_and_metrics_def)
next
  case (Some fr)
  with assms consider fr' frames where
      "fold (push_frame env) frames (a\<lparr>ca_fragmenter := Some fr'\<rparr>, out) = (a', out')"
    | fr' where "a' = a\<lparr>ca_fragmenter := Some fr', ca_handler_errors := ca_handler_errors a + 1\<rparr>" "out' = out"
    by (auto simp: process_frame_with_hooks_and_metrics_def split: option.splits prod.splits sum.splits)
  then show ?thesis
  proof cases
    case 1
    from fold_push_frame_frame [OF this] show ?thesis by (auto simp: same_sources_def)
  qed simp
qed

lemma emit_frame:
  assumes "emit_multi_packet_frame env f (a, out) = Some (a', out')"
  shows "same_sources a a' \<and> ca_fairness a' = ca_fairness a \<and> (\<exists>more. out' = out @ more)"
  using assms process_frame_frame [of env "apply_multi_packet_correlation env a f" a out a' out']
  by (simp add: emit_multi_packet_frame_def)

section \<open>Open sources\<close>

definition open_sources :: "('c, 's, 'h) connection_actor \<Rightarrow> nat" where
  "open_sources a =
     of_bool (ca_high_rx a \<noteq> None) + of_bool (ca_low_rx a \<noteq> None) + of_bool (ca_active_output a \<noteq> OutputNone)"

text \<open>The lifecycle state counts the closed sources and knows when none is open.\<close>

definition sources_counted :: "('c, 's, 'h) connection_actor \<Rightarrow> actor_state \<Rightarrow> bool" where
  "sources_counted a st \<longleftrightarrow>
     as_closed_sources st + open_sources a = as_total_sources st \<and> (is_done st \<longleftrightarrow> open_sources a = 0)"

definition output_ok :: "('c, 's) active_output \<Rightarrow> bool" where
  "output_ok output \<longleftrightarrow>
     (case output of OutputMultiPacket ctx \<Rightarrow> mpc_channel ctx \<noteq> None \<and> is_stamping_enabled ctx | _ \<Rightarrow> True)"

definition actor_inv :: "('c, 's, 'h) connection_actor \<Rightarrow> actor_state \<Rightarrow> bool" where
  "actor_inv a st \<longleftrightarrow>
     sources_counted a st \<and> output_ok (ca_active_output a) \<and>
     (is_active st \<or> ca_active_output a = OutputNone \<or> is_done st)"

lemma open_sources_cong: "same_sources a a' \<Longrightarrow> open_sources a' = open_sources a"
  by (simp add: same_sources_def open_sources_def)

lemma actor_inv_cong: "same_sources a a' \<Longrightarrow> actor_inv a' st = actor_inv a st"
  by (simp add: actor_inv_def sources_counted_def open_sources_cong) (simp add: same_sources_def)

lemma mark_closed_counted:
  "sources_counted a st \<Longrightarrow> Suc (open_sources a') = open_sources a \<Longrightarrow> sources_counted a' (mark_closed st)"
  by (auto simp: sources_counted_def mark_closed_def is_done_def Let_def)

lemma mark_closed_state: "is_active (mark_closed st) \<Longrightarrow> is_active st" "is_done st \<Longrightarrow> is_done (mark_closed st)"
  "\<not> is_done (mark_closed st) \<Longrightarrow> as_run_state (mark_closed st) = as_run_state st"
  by (auto simp: mark_closed_def is_active_def is_done_def Let_def split: if_splits)

lemma actor_inv_close:
  assumes "actor_inv a st" and "Suc (open_sources a') = open_sources a"
    and "ca_active_output a' = ca_active_output a \<or> ca_active_output a' = OutputNone"
  shows "actor_inv a' (mark_closed st)"
proof -
  have "sources_counted a' (mark_closed st)"
    using assms(1,2) mark_closed_counted by (auto simp: actor_inv_def)
  moreover have "is_active (mark_closed st) \<or> is_done (mark_closed st)" if "is_active st"
    using that mark_closed_state(3) [of st] by (auto simp: is_active_def)
  ultimately show ?thesis
    using assms mark_closed_state(2) [of st] by (auto simp: actor_inv_def output_ok_def)
qed

lemma handle_multi_packet_closed_Some:
  assumes "handle_multi_packet_closed env (a, st, out) = Some (a', st', out')"
  shows "ca_high_rx a' = ca_high_rx a" "ca_low_rx a' = ca_low_rx a" "ca_active_output a' = OutputNone"
    "st' = mark_closed st" "ca_shutdown a' = ca_shutdown a" "ca_counter a' = ca_counter a"
    "ca_active_connections a' = ca_active_connections a"
proof -
  obtain w cid where c: "close_multi_packet (ae_mpsc env) (ca_active_output a) = (w, cid)" by fastforce
  obtain t x where t: "hook_stream_end_frame (ae_hooks env) (ca_ctx a) = (t, x)" by fastforce
  obtain a3 out3 where a3: "same_sources (a\<lparr>ca_active_output := w\<rparr>) a3"
    and a': "a' = a3\<lparr>ca_active_output := OutputNone, ca_ctx := hook_on_command_end (ae_hooks env) (ca_ctx a3)\<rparr>"
    and st': "st' = mark_closed st"
  proof (cases t)
    case None
    with assms c t show ?thesis
      by (intro that [of "a\<lparr>ca_active_output := w, ca_ctx := x\<rparr>"])
         (auto simp: handle_multi_packet_closed_def Let_def)
  next
    case (Some f)
    with assms c t obtain b o' where e: "emit_multi_packet_frame env f
        (a\<lparr>ca_active_output := w, ca_ctx := x\<rparr>, out) = Some (b, o')"
      and rest: "a' = (after_low b)\<lparr>ca_active_output := OutputNone, ca_ctx := hook_on_command_end (ae_hooks env) (ca_ctx (after_low b))\<rparr>"
        "st' = mark_closed st"
      by (auto simp: handle_multi_packet_closed_def Let_def bind_eq_Some_conv)
    from emit_frame [OF e] have "same_sources (a\<lparr>ca_active_output := w\<rparr>) (after_low b)"
      by (auto simp: same_sources_def after_low_def)
    with rest show ?thesis by (intro that [of "after_low b"])
  qed
  then show "ca_high_rx a' = ca_high_rx a" "ca_low_rx a' = ca_low_rx a" "ca_active_output a' = OutputNone"
    "st' = mark_closed st" "ca_shutdown a' = ca_shutdown a" "ca_counter a' = ca_counter a"
    "ca_active_connections a' = ca_active_connections a"
    by (simp_all add: same_sources_def)
qed


section \<open>Outcomes of the operations\<close>

lemma low_drain_cases:
  assumes "try_opportunistic_low_drain env (a, st, out) = Some (cfg, drained)"
  obtains (absent) "ca_low_rx a = None" "cfg = (a, st, out)" "\<not> drained"
  | (frame) c c' f b out' where "ca_low_rx a = Some c" "mp_try_recv (ae_mpsc env) c = (c', Inr f)"
      "process_frame_with_hooks_and_metrics env f (a\<lparr>ca_low_rx := Some c'\<rparr>, out) = Some (b, out')"
      "cfg = (after_low b, st, out')" "drained"
  | (empty) c c' where "ca_low_rx a = Some c" "mp_try_recv (ae_mpsc env) c = (c', Inl TryRecvEmpty)"
      "cfg = (a\<lparr>ca_low_rx := Some c'\<rparr>, st, out)" "\<not> drained"
  | (gone) c c' where "ca_low_rx a = Some c" "mp_try_recv (ae_mpsc env) c = (c', Inl TryRecvDisconnected)"
      "cfg = (a\<lparr>ca_low_rx := None\<rparr>, mark_closed st, out)" "\<not> drained"
  using assms
  by (auto simp: try_opportunistic_low_drain_def close_low_receiver_def Let_def
      split: option.splits prod.splits sum.splits try_recv_error.splits)

lemma multi_drain_cases:
  assumes "try_opportunistic_multi_drain env (a, st, out) = Some (cfg, drained)"
  obtains (absent) "cfg = (a, st, out)" "\<not> drained"
  | (frame) ctx c c' f b out' where "ca_active_output a = OutputMultiPacket ctx" "mpc_channel ctx = Some c"
      "mp_try_recv (ae_mpsc env) c = (c', Inr f)"
      "emit_multi_packet_frame env f
         (a\<lparr>ca_active_output := OutputMultiPacket (ctx\<lparr>mpc_channel := Some c'\<rparr>)\<rparr>, out) = Some (b, out')"
      "cfg = (after_low b, st, out')" "drained"
  | (empty) ctx c c' where "ca_active_output a = OutputMultiPacket ctx" "mpc_channel ctx = Some c"
      "mp_try_recv (ae_mpsc env) c = (c', Inl TryRecvEmpty)"
      "cfg = (a\<lparr>ca_active_output := OutputMultiPacket (ctx\<lparr>mpc_channel := Some c'\<rparr>)\<rparr>, st, out)" "\<not> drained"
  | (gone) ctx c c' where "ca_active_output a = OutputMultiPacket ctx" "mpc_channel ctx = Some c"
      "mp_try_recv (ae_mpsc env) c = (c', Inl TryRecvDisconnected)"
      "handle_multi_packet_closed env
         (a\<lparr>ca_active_output := OutputMultiPacket (ctx\<lparr>mpc_channel := Some c'\<rparr>)\<rparr>, st, out) = Some cfg" "\<not> drained"
  using assms
  by (auto simp: try_opportunistic_multi_drain_def multi_packet_mut_def Let_def
      split: option.splits prod.splits sum.splits try_recv_error.splits active_output.splits)

lemma after_high_cases:
  assumes "after_high env now (a, st, out) = Some cfg"
  obtains (stay) "\<not> should_yield_to_low_priority (snd now) (record_high_priority (fst now) (ca_fairness a))"
      "cfg = (a\<lparr>ca_fairness := record_high_priority (fst now) (ca_fairness a)\<rparr>, st, out)"
  | (low) "should_yield_to_low_priority (snd now) (record_high_priority (fst now) (ca_fairness a))"
      "try_opportunistic_low_drain env
         (a\<lparr>ca_fairness := record_high_priority (fst now) (ca_fairness a)\<rparr>, st, out) = Some (cfg, True)"
  | (multi) cfg1 drained where
      "should_yield_to_low_priority (snd now) (record_high_priority (fst now) (ca_fairness a))"
      "try_opportunistic_low_drain env
         (a\<lparr>ca_fairness := record_high_priority (fst now) (ca_fairness a)\<rparr>, st, out) = Some (cfg1, False)"
      "try_opportunistic_multi_drain env cfg1 = Some (cfg, drained)"
  using assms
  by (auto simp: after_high_def try_opportunistic_drain_def Let_def bind_eq_Some_conv split: if_splits)

lemma forward_cases:
  assumes "forward_queue_frame env now kind f (a, st, out) = Some cfg"
  obtains (forward) b out' where "same_sources a b" "ca_fairness b = ca_fairness a"
      "(if should_emit_multi_packet_frame kind a then emit_multi_packet_frame env f (a, out)
        else process_frame_with_hooks_and_metrics env f (a, out)) = Some (b, out')"
      "(case kind of QHigh \<Rightarrow> after_high env now (b, st, out') = Some cfg | _ \<Rightarrow> cfg = (after_low b, st, out'))"
  using assms process_frame_frame emit_frame
  by (fastforce simp: forward_queue_frame_def bind_eq_Some_conv split: queue_kind.splits if_splits)

section \<open>The count is kept\<close>

lemma actor_inv_low_drain:
  assumes "try_opportunistic_low_drain env (a, st, out) = Some ((a', st', out'), drained)" and "actor_inv a st"
  shows "actor_inv a' st'"
  using assms(1)
proof (cases rule: low_drain_cases)
  case (frame c c' f b o')
  then have "same_sources (a\<lparr>ca_low_rx := Some c'\<rparr>) a'"
    using process_frame_frame [OF frame(3)] by (auto simp: same_sources_def after_low_def)
  moreover have "actor_inv (a\<lparr>ca_low_rx := Some c'\<rparr>) st"
    using assms(2) frame(1) by (auto simp: actor_inv_def sources_counted_def open_sources_def)
  ultimately show ?thesis using frame(4) actor_inv_cong by auto
next
  case (empty c c')
  then show ?thesis using assms(2) by (auto simp: actor_inv_def sources_counted_def open_sources_def)
next
  case (gone c c')
  then show ?thesis using assms(2)
    by (auto intro: actor_inv_close simp: open_sources_def)
qed (use assms(2) in simp)

lemma actor_inv_replace_channel:
  assumes "actor_inv a st" and "ca_active_output a = OutputMultiPacket ctx"
  shows "actor_inv (a\<lparr>ca_active_output := OutputMultiPacket (ctx\<lparr>mpc_channel := Some c\<rparr>)\<rparr>) st"
  using assms by (auto simp: actor_inv_def sources_counted_def open_sources_def output_ok_def is_stamping_enabled_def)

lemma actor_inv_multi_closed:
  assumes "handle_multi_packet_closed env (a, st, out) = Some (a', st', out')"
    and "actor_inv a st" and "ca_active_output a \<noteq> OutputNone"
  shows "actor_inv a' st'"
  using handle_multi_packet_closed_Some [OF assms(1)] assms(2,3)
  by (auto intro!: actor_inv_close [of a] simp: open_sources_def)

lemma actor_inv_multi_drain:
  assumes "try_opportunistic_multi_drain env (a, st, out) = Some ((a', st', out'), drained)" and "actor_inv a st"
  shows "actor_inv a' st'"
  using assms(1)
proof (cases rule: multi_drain_cases)
  case (frame ctx c c' f b o')
  let ?a = "a\<lparr>ca_active_output := OutputMultiPacket (ctx\<lparr>mpc_channel := Some c'\<rparr>)\<rparr>"
  have "same_sources ?a a'" "st' = st"
    using emit_frame [OF frame(4)] frame(5) by (auto simp: same_sources_def after_low_def)
  then show ?thesis using actor_inv_replace_channel [OF assms(2) frame(1)] actor_inv_cong by blast
next
  case (empty ctx c c')
  then show ?thesis using actor_inv_replace_channel [OF assms(2) empty(1)] by simp
next
  case (gone ctx c c')
  show ?thesis
    by (rule actor_inv_multi_closed [OF gone(4) actor_inv_replace_channel [OF assms(2) gone(1)]]) simp
qed (use assms(2) in simp)

lemma actor_inv_after_high:
  assumes "after_high env now (a, st, out) = Some (a', st', out')" and "actor_inv a st"
  shows "actor_inv a' st'"
proof -
  have inv: "actor_inv (a\<lparr>ca_fairness := x\<rparr>) st" for x
    using assms(2) actor_inv_cong [of a "a\<lparr>ca_fairness := x\<rparr>" st] by simp
  from assms(1) show ?thesis
  proof (cases rule: after_high_cases)
    case stay
    then show ?thesis using inv by simp
  next
    case low
    then show ?thesis using actor_inv_low_drain [OF _ inv] by blast
  next
    case (multi cfg1 drained)
    obtain a1 st1 out1 where "cfg1 = (a1, st1, out1)" by (cases cfg1)
    with multi actor_inv_low_drain [OF _ inv] actor_inv_multi_drain show ?thesis by blast
  qed
qed


section \<open>Events\<close>

text \<open>A receiver that was polled without result, or is absent.\<close>

definition polled_pending :: "('c, 'f) mpsc_lib \<Rightarrow> 'c option \<Rightarrow> 'c option \<Rightarrow> bool" where
  "polled_pending mp rx rx' \<longleftrightarrow>
     (case rx of None \<Rightarrow> rx' = None | Some c \<Rightarrow> \<exists>c'. rx' = Some c' \<and> mp_recv mp c = (c', Pending))"

lemma next_event_cases:
  assumes "next_event env a st = (a', r)"
  obtains (shutdown) "is_active st" "ca_shutdown a" "a' = a" "r = Ready EvShutdown"
  | (high) c c' res where "\<not> (is_active st \<and> ca_shutdown a)" "ca_high_rx a = Some c"
      "mp_recv (ae_mpsc env) c = (c', Ready res)" "a' = a\<lparr>ca_high_rx := Some c'\<rparr>" "r = Ready (EvHigh res)"
  | (low) hi c c' res where "\<not> (is_active st \<and> ca_shutdown a)" "polled_pending (ae_mpsc env) (ca_high_rx a) hi"
      "ca_low_rx a = Some c" "mp_recv (ae_mpsc env) c = (c', Ready res)"
      "a' = a\<lparr>ca_high_rx := hi, ca_low_rx := Some c'\<rparr>" "r = Ready (EvLow res)"
  | (outp) hi lo w ev where "\<not> (is_active st \<and> ca_shutdown a)"
      "polled_pending (ae_mpsc env) (ca_high_rx a) hi" "polled_pending (ae_mpsc env) (ca_low_rx a) lo"
      "poll_output env (compute_availability a st) (ca_active_output a) = (w, Ready ev)"
      "a' = a\<lparr>ca_high_rx := hi, ca_low_rx := lo, ca_active_output := w\<rparr>" "r = Ready ev"
  | (wait) hi lo w where "\<not> (is_active st \<and> ca_shutdown a)"
      "polled_pending (ae_mpsc env) (ca_high_rx a) hi" "polled_pending (ae_mpsc env) (ca_low_rx a) lo"
      "poll_output env (compute_availability a st) (ca_active_output a) = (w, Pending)"
      "a' = a\<lparr>ca_high_rx := hi, ca_low_rx := lo, ca_active_output := w\<rparr>"
      "r = (if is_active st \<or> ca_high_rx a \<noteq> None \<or> ca_low_rx a \<noteq> None \<or>
               available_output (is_shutting_down st) (ca_active_output a) \<noteq> AvailableNone
            then Pending else Ready EvIdle)"
proof (cases "is_active st \<and> ca_shutdown a")
  case True
  with assms show ?thesis by (intro shutdown) (auto simp: next_event_def Let_def)
next
  case False
  define hp where "hp = (if ca_high_rx a \<noteq> None then poll_queue (ae_mpsc env) (ca_high_rx a) else (ca_high_rx a, Pending))"
  define lp where "lp = (if ca_low_rx a \<noteq> None then poll_queue (ae_mpsc env) (ca_low_rx a) else (ca_low_rx a, Pending))"
  obtain hi hr where h: "hp = (hi, hr)" by fastforce
  obtain lo lr where l: "lp = (lo, lr)" by fastforce
  obtain w wr where o: "poll_output env (compute_availability a st) (ca_active_output a) = (w, wr)" by fastforce
  have pend: "polled_pending (ae_mpsc env) (ca_high_rx a) hi" if "hr = Pending"
    using h that by (auto simp: hp_def polled_pending_def poll_queue_def split: option.splits prod.splits if_splits)
  have pend': "polled_pending (ae_mpsc env) (ca_low_rx a) lo" if "lr = Pending"
    using l that by (auto simp: lp_def polled_pending_def poll_queue_def split: option.splits prod.splits if_splits)
  have run: "(a', r) = (case hr of Ready res \<Rightarrow> (a\<lparr>ca_high_rx := hi\<rparr>, Ready (EvHigh res))
     | Pending \<Rightarrow> (case lr of Ready res \<Rightarrow> (a\<lparr>ca_high_rx := hi, ca_low_rx := lo\<rparr>, Ready (EvLow res))
     | Pending \<Rightarrow> (case wr of Ready ev \<Rightarrow> (a\<lparr>ca_high_rx := hi, ca_low_rx := lo, ca_active_output := w\<rparr>, Ready ev)
     | Pending \<Rightarrow> (a\<lparr>ca_high_rx := hi, ca_low_rx := lo, ca_active_output := w\<rparr>,
         if is_active st \<or> ca_high_rx a \<noteq> None \<or> ca_low_rx a \<noteq> None \<or>
            available_output (is_shutting_down st) (ca_active_output a) \<noteq> AvailableNone
         then Pending else Ready EvIdle))))"
    unfolding assms [symmetric] next_event_def Let_def
    using False h [unfolded hp_def] l [unfolded lp_def] o
    by (cases "ca_high_rx a"; cases "ca_low_rx a") (auto simp: compute_availability_def split: poll.split)
  show ?thesis
  proof (cases hr)
    case (Ready res)
    then obtain c c' where "ca_high_rx a = Some c" "mp_recv (ae_mpsc env) c = (c', Ready res)" "hi = Some c'"
      using h by (auto simp: hp_def poll_queue_def split: option.splits prod.splits if_splits)
    with Ready run False show ?thesis by (intro high) auto
  next
    case hPending: Pending
    show ?thesis
    proof (cases lr)
      case (Ready res)
      then obtain c c' where "ca_low_rx a = Some c" "mp_recv (ae_mpsc env) c = (c', Ready res)" "lo = Some c'"
        using l by (auto simp: lp_def poll_queue_def split: option.splits prod.splits if_splits)
      with Ready hPending run False pend show ?thesis by (intro low) auto
    next
      case Pending
      with hPending run False pend pend' o show ?thesis by (cases wr) (auto intro: outp wait)
    qed
  qed
qed

lemma poll_output_Ready:
  assumes "poll_output env (compute_availability a st) (ca_active_output a) = (w, Ready ev)"
  obtains (multi) ctx ctx' res where "ca_active_output a = OutputMultiPacket ctx" "w = OutputMultiPacket ctx'"
      "poll_queue (ae_mpsc env) (mpc_channel ctx) = (mpc_channel ctx', Ready res)"
      "ctx' = ctx\<lparr>mpc_channel := mpc_channel ctx'\<rparr>" "ev = EvMultiPacket res" "\<not> is_shutting_down st"
  | (response) s s' res where "ca_active_output a = OutputResponse s" "w = OutputResponse s'"
      "ae_poll_next env s = (s', Ready res)" "ev = EvResponse res" "\<not> is_shutting_down st"
  using assms
  by (auto simp: poll_output_def compute_availability_def available_output_def
      split: active_output.splits if_splits prod.splits poll.splits)

lemma poll_output_Pending:
  assumes "poll_output env (compute_availability a st) (ca_active_output a) = (w, Pending)"
  obtains (multi) ctx c c' where "ca_active_output a = OutputMultiPacket ctx" "mpc_channel ctx = Some c"
      "mp_recv (ae_mpsc env) c = (c', Pending)" "w = OutputMultiPacket (ctx\<lparr>mpc_channel := Some c'\<rparr>)"
  | (response) s s' where "ca_active_output a = OutputResponse s" "w = OutputResponse s'"
      "ae_poll_next env s = (s', Pending)"
  | (none) "w = ca_active_output a" "available_output (is_shutting_down st) (ca_active_output a) = AvailableNone"
  using assms
  by (auto simp: poll_output_def compute_availability_def available_output_def poll_queue_def
      split: active_output.splits if_splits prod.splits poll.splits option.splits)


lemma polled_pending_None: "polled_pending mp rx rx' \<Longrightarrow> (rx' = None) = (rx = None)"
  by (auto simp: polled_pending_def split: option.splits)

lemma poll_output_shape:
  assumes "poll_output env (compute_availability a st) (ca_active_output a) = (w, r)"
  shows "(w = OutputNone) = (ca_active_output a = OutputNone)" "output_ok (ca_active_output a) \<Longrightarrow> output_ok w"
proof -
  have "(w = OutputNone) = (ca_active_output a = OutputNone) \<and> (output_ok (ca_active_output a) \<longrightarrow> output_ok w)"
  proof (cases r)
    case Pending
    from assms [unfolded Pending] show ?thesis
      by (cases rule: poll_output_Pending) (simp_all add: output_ok_def is_stamping_enabled_def)
  next
    case (Ready ev)
    from assms [unfolded Ready] show ?thesis
    proof (cases rule: poll_output_Ready)
      case (multi ctx ctx' res)
      then obtain rx where "ctx' = ctx\<lparr>mpc_channel := rx\<rparr>" "poll_queue (ae_mpsc env) (mpc_channel ctx) = (rx, Ready res)"
        by blast
      then show ?thesis using multi(1,2)
        by (auto simp: output_ok_def is_stamping_enabled_def poll_queue_def split: prod.splits)
    qed (simp_all add: output_ok_def)
  qed
  then show "(w = OutputNone) = (ca_active_output a = OutputNone)" "output_ok (ca_active_output a) \<Longrightarrow> output_ok w"
    by simp_all
qed

lemma actor_inv_shape:
  assumes "actor_inv a st" and "(ca_high_rx a' = None) = (ca_high_rx a = None)"
    and "(ca_low_rx a' = None) = (ca_low_rx a = None)"
    and "(ca_active_output a' = OutputNone) = (ca_active_output a = OutputNone)" and "output_ok (ca_active_output a')"
  shows "actor_inv a' st"
proof -
  have "open_sources a' = open_sources a" using assms(2-4) by (simp add: open_sources_def)
  then show ?thesis using assms(1,4,5) by (auto simp: actor_inv_def sources_counted_def)
qed

lemma next_event_inv:
  assumes "next_event env a st = (a', r)" and "actor_inv a st"
  shows "actor_inv a' st"
  using assms(1)
proof (cases rule: next_event_cases)
  case (outp hi lo w ev)
  show ?thesis
    using polled_pending_None [OF outp(2)] polled_pending_None [OF outp(3)] poll_output_shape [OF outp(4)] outp(5) assms(2)
    by (intro actor_inv_shape [OF assms(2)]) (simp_all add: actor_inv_def)
next
  case (wait hi lo w)
  show ?thesis
    using polled_pending_None [OF wait(2)] polled_pending_None [OF wait(3)] poll_output_shape [OF wait(4)] wait(5) assms(2)
    by (intro actor_inv_shape [OF assms(2)]) (simp_all add: actor_inv_def)
next
  case (low hi c c' res)
  show ?thesis
    using polled_pending_None [OF low(2)] low(3,5) assms(2)
    by (intro actor_inv_shape [OF assms(2)]) (simp_all add: actor_inv_def)
next
  case (high c c' res)
  show ?thesis
    using high(2,4) assms(2) by (intro actor_inv_shape [OF assms(2)]) (simp_all add: actor_inv_def)
qed (use assms(2) in simp)

text \<open>An event a source produced finds that source open.\<close>

definition event_source :: "('c, 's, 'h) connection_actor \<Rightarrow> actor_state \<Rightarrow> ('f, 'e) actor_event \<Rightarrow> bool" where
  "event_source a st ev \<longleftrightarrow>
     (case ev of
        EvShutdown \<Rightarrow> is_active st
      | EvHigh _ \<Rightarrow> ca_high_rx a \<noteq> None
      | EvLow _ \<Rightarrow> ca_low_rx a \<noteq> None
      | EvMultiPacket _ \<Rightarrow> is_multi_packet (ca_active_output a)
      | EvResponse _ \<Rightarrow> is_response (ca_active_output a)
      | EvIdle \<Rightarrow> True)"

lemma next_event_source:
  assumes "next_event env a st = (a', Ready ev)"
  shows "event_source a' st ev"
  using assms
proof (cases rule: next_event_cases)
  case (outp hi lo w ev')
  from outp(4) outp(5,6) show ?thesis
    by (cases rule: poll_output_Ready) (auto simp: event_source_def is_multi_packet_def is_response_def)
qed (auto simp: event_source_def split: if_splits)

lemma process_shutdown_inv:
  assumes "process_shutdown env (a, st) = (a', st')" and "actor_inv a st" and "is_active st"
  shows "actor_inv a' st'"
proof (cases "ca_active_output a = OutputNone")
  case True
  then show ?thesis using assms
    by (auto simp: process_shutdown_def start_shutdown_def output_shutdown_def state_start_shutdown_def Let_def
        actor_inv_def sources_counted_def open_sources_def is_done_def is_active_def output_ok_def)
next
  case False
  let ?st = "state_start_shutdown st"
  have st: "sources_counted a ?st" "\<not> is_done st"
    using assms(2,3) by (auto simp: actor_inv_def sources_counted_def state_start_shutdown_def is_active_def is_done_def)
  have "st' = mark_closed ?st" "ca_active_output a' = OutputNone" "Suc (open_sources a') = open_sources a"
    using assms False
    by (auto simp: process_shutdown_def start_shutdown_def output_shutdown_def Let_def actor_inv_def output_ok_def
        open_sources_def split: active_output.splits)
  then show ?thesis using mark_closed_counted [OF st(1)] by (simp add: actor_inv_def output_ok_def)
qed

lemma process_queue_inv:
  assumes "process_queue env now kind res (a, st, out) = Some (a', st', out')" and "actor_inv a st"
    and "case kind of QHigh \<Rightarrow> ca_high_rx a \<noteq> None | QLow \<Rightarrow> ca_low_rx a \<noteq> None
      | QMulti \<Rightarrow> is_multi_packet (ca_active_output a)"
  shows "actor_inv a' st'"
proof (cases res)
  case None
  show ?thesis
  proof (cases kind)
    case QMulti
    have "ca_active_output a \<noteq> OutputNone" using assms(3) QMulti by (auto simp: is_multi_packet_def)
    moreover have "handle_multi_packet_closed env (a, st, out) = Some (a', st', out')"
      using None QMulti assms(1) by (simp add: process_queue_def handle_empty_queue_def)
    ultimately show ?thesis using actor_inv_multi_closed assms(2) by blast
  qed (use None assms in \<open>auto simp: process_queue_def handle_empty_queue_def close_high_receiver_def
        close_low_receiver_def open_sources_def intro!: actor_inv_close [of a]\<close>)
next
  case (Some f)
  with assms(1) have "forward_queue_frame env now kind f (a, st, out) = Some (a', st', out')"
    by (simp add: process_queue_def)
  then show ?thesis
  proof (cases rule: forward_cases)
    case (forward b o')
    have inv: "actor_inv b st" using assms(2) actor_inv_cong [OF forward(1)] by simp
    show ?thesis
    proof (cases kind)
      case QHigh
      then show ?thesis using forward(4) actor_inv_after_high [OF _ inv] by simp
    qed (use forward(4) inv actor_inv_cong [of b "after_low b" st] in auto)
  qed
qed


lemma process_response_inv:
  assumes "process_response env res (a, st, out) = Some ((a', st', out'), Inr ())" and "actor_inv a st"
    and "is_response (ca_active_output a)"
  shows "actor_inv a' st'"
proof -
  have fewer: "Suc (open_sources b') = open_sources b"
    if "is_response (ca_active_output b)" "ca_high_rx b' = ca_high_rx b" "ca_low_rx b' = ca_low_rx b"
      "ca_active_output b' = OutputNone" for b b' :: "('a, 'b, 'c) connection_actor"
    using that by (auto simp: open_sources_def is_response_def)
  consider (frame) f b o' where "res = Some (Inr f)" "process_frame_with_hooks_and_metrics env f (a, out) = Some (b, o')"
      "a' = after_low b" "st' = st"
    | (fin) "st' = mark_closed st" "ca_high_rx a' = ca_high_rx a" "ca_low_rx a' = ca_low_rx a"
      "ca_active_output a' = OutputNone"
  proof (cases res)
    case None
    obtain t x where t: "hook_stream_end_frame (ae_hooks env) (ca_ctx a) = (t, x)" by fastforce
    show ?thesis
    proof (cases t)
      case None': None
      show ?thesis
        using assms(1,3) None None' t
        by (intro fin) (auto simp: process_response_def handle_response_def clear_response_def Let_def)
    next
      case (Some f)
      with assms(1) None t obtain b o' where
          p: "process_frame_with_hooks_and_metrics env f (a\<lparr>ca_ctx := x\<rparr>, out) = Some (b, o')"
        and r: "st' = mark_closed st" "a' = (after_low (b\<lparr>ca_ctx := hook_on_command_end (ae_hooks env) (ca_ctx b)\<rparr>))
            \<lparr>ca_active_output := clear_response (ca_active_output b)\<rparr>"
        by (auto simp: process_response_def handle_response_def after_low_def Let_def bind_eq_Some_conv)
      have "same_sources a b" using process_frame_frame [OF p] by (simp add: same_sources_def)
      then show ?thesis using r assms(3)
        by (intro fin) (simp_all add: same_sources_def after_low_def clear_response_def)
    qed
  next
    case (Some r)
    then show ?thesis
      using assms(1,3) frame fin
      by (cases r)
         (auto simp: process_response_def handle_response_def clear_response_def Let_def bind_eq_Some_conv
           split: wireframe_error.splits)
  qed
  then show ?thesis
  proof cases
    case frame
    then show ?thesis using assms(2) process_frame_frame [OF frame(2)] actor_inv_cong [of a a' st]
      by (auto simp: same_sources_def after_low_def)
  next
    case fin
    then show ?thesis using fewer [OF assms(3), of a'] actor_inv_close [OF assms(2), of a'] by simp
  qed
qed

lemma dispatch_inv:
  assumes "dispatch_event env now ev (a, st, out) = Some ((a', st', out'), Inr ())" and "actor_inv a st"
    and "event_source a st ev"
  shows "actor_inv a' st'"
  using assms process_shutdown_inv [of env a st a' st'] process_queue_inv [of env now _ _ a st out a' st' out']
    process_response_inv [of env _ a st out a' st' out']
  by (cases ev) (fastforce simp: dispatch_event_def event_source_def split: prod.splits)+

section \<open>The run of an actor among its peers\<close>

text \<open>
  Between two turns of the loop, other tasks may send frames, drop their senders, make a response
  stream progress, or cancel the shutdown token. The view \<open>v\<close> shows the channels as documented.
\<close>

datatype ('f) actor_label =
    Turn "instant \<times> instant" | SentHigh "'f list" | SentLow "'f list" | SentMulti "'f list" | StreamMoves | Cancel

inductive actor_step ::
    "('c, 'f, 's, 'e, 'ph, 'h) actor_env \<Rightarrow> ('c \<Rightarrow> 'f chan) \<Rightarrow> ('c, 'f, 's, 'e, 'h) actor_run \<Rightarrow>
     'f actor_label \<Rightarrow> ('c, 'f, 's, 'e, 'h) actor_run \<Rightarrow> bool" for env v where
  turn: "actor_step env v r (Turn now) (run_turn env now r)"
| high: "ca_high_rx a = Some c \<Longrightarrow> chan_sent fs (v c) (v c') \<Longrightarrow>
    actor_step env v (Running a st out) (SentHigh fs) (Running (a\<lparr>ca_high_rx := Some c'\<rparr>) st out)"
| low: "ca_low_rx a = Some c \<Longrightarrow> chan_sent fs (v c) (v c') \<Longrightarrow>
    actor_step env v (Running a st out) (SentLow fs) (Running (a\<lparr>ca_low_rx := Some c'\<rparr>) st out)"
| multi: "ca_active_output a = OutputMultiPacket ctx \<Longrightarrow> mpc_channel ctx = Some c \<Longrightarrow> chan_sent fs (v c) (v c') \<Longrightarrow>
    actor_step env v (Running a st out) (SentMulti fs)
      (Running (a\<lparr>ca_active_output := OutputMultiPacket (ctx\<lparr>mpc_channel := Some c'\<rparr>)\<rparr>) st out)"
| stream: "ca_active_output a = OutputResponse s \<Longrightarrow>
    actor_step env v (Running a st out) StreamMoves (Running (a\<lparr>ca_active_output := OutputResponse s'\<rparr>) st out)"
| cancel: "actor_step env v (Running a st out) Cancel (Running (a\<lparr>ca_shutdown := True\<rparr>) st out)"

text \<open>An actor with both its queues, as the constructors and the setters of outputs leave it.\<close>

definition actor_ready :: "('c, 's, 'h) connection_actor \<Rightarrow> bool" where
  "actor_ready a \<longleftrightarrow> ca_high_rx a \<noteq> None \<and> ca_low_rx a \<noteq> None \<and> output_ok (ca_active_output a)"

definition run_begins ::
    "('c, 's, 'h) connection_actor \<Rightarrow> ('c, 'f, 's, 'e, 'h) actor_run \<Rightarrow> bool" where
  "run_begins a r \<longleftrightarrow> actor_ready a \<and> r = run_start a []"

fun run_inv :: "('c, 'f, 's, 'e, 'h) actor_run \<Rightarrow> bool" where
  "run_inv (Running a st out) = actor_inv a st"
| "run_inv _ = True"

lemma run_start_inv: "actor_ready a \<Longrightarrow> run_inv (run_start a out)"
  by (auto simp: run_start_def actor_ready_def actor_inv_def sources_counted_def open_sources_def actor_state_new_def
      is_active_def is_done_def is_response_def is_multi_packet_def split: active_output.splits)

lemma run_turn_inv: "run_inv r \<Longrightarrow> run_inv (run_turn env now r)"
proof (cases r)
  case (Running a st out)
  assume "run_inv r"
  then have inv: "actor_inv a st" using Running by simp
  obtain a1 e where n: "next_event env a st = (a1, e)" by fastforce
  have inv1: "actor_inv a1 st" by (rule next_event_inv [OF n inv])
  show ?thesis
  proof (cases e)
    case Pending
    with n inv1 Running show ?thesis by (simp add: poll_sources_def)
  next
    case (Ready ev)
    have src: "event_source a1 st ev" using next_event_source n Ready by blast
    show ?thesis
    proof (cases "is_done st")
      case False
      then show ?thesis using n Ready Running dispatch_inv [OF _ inv1 src, of env now out]
        by (auto simp: poll_sources_def split: option.splits sum.splits)
    qed (simp add: Running)
  qed
qed simp_all

interpretation actor: transition_system "run_begins a0" "actor_step env v" run_inv for a0 env v
proof unfold_locales
  show "run_begins a0 s \<Longrightarrow> run_inv s" for s using run_start_inv by (auto simp: run_begins_def)
  fix s e t
  assume inv: "run_inv s" and step: "actor_step env v s e t"
  from step inv show "run_inv t"
  proof cases
    case (multi a ctx c fs c' st out)
    with inv actor_inv_replace_channel show ?thesis by simp
  qed (use inv run_turn_inv in \<open>auto simp: actor_inv_def sources_counted_def open_sources_def output_ok_def\<close>)
qed


text \<open>
  C28: The actor finishes exactly when it should. In every state its run can reach, the closed
  sources it counts and the sources still open add up to the total it started with, it is
  finished exactly when the push queues and the output are all closed, and while it is not, its
  \<open>select!\<close> has a branch to wait on: the \<open>Idle\<close> fall-back, on which the loop would spin, is never
  taken.
\<close>

theorem actor_counts_sources:
  assumes "reachable (run_begins a0) (actor_step env v) (Running a st out)"
  shows "as_closed_sources st + open_sources a = as_total_sources st \<and>
    (is_done st \<longleftrightarrow> ca_high_rx a = None \<and> ca_low_rx a = None \<and> ca_active_output a = OutputNone) \<and>
    (\<not> is_done st \<longrightarrow> snd (next_event env a st) \<noteq> Ready EvIdle)"
proof -
  have inv: "actor_inv a st" using actor.inv_reachable [OF assms] by simp
  have fin: "is_done st \<longleftrightarrow> ca_high_rx a = None \<and> ca_low_rx a = None \<and> ca_active_output a = OutputNone"
    using inv by (auto simp: actor_inv_def sources_counted_def open_sources_def)
  obtain a' r where n: "next_event env a st = (a', r)" by fastforce
  have "r \<noteq> Ready EvIdle" if busy: "\<not> is_done st"
    using n
  proof (cases rule: next_event_cases)
    case (outp hi lo w ev)
    from outp(4,6) show ?thesis by (cases rule: poll_output_Ready) simp_all
  next
    case (wait hi lo w)
    have "is_active st \<or> ca_active_output a = OutputNone" using inv busy by (auto simp: actor_inv_def)
    then show ?thesis using wait(6) busy fin by (auto split: if_splits)
  qed simp_all
  with fin inv n show ?thesis by (simp add: actor_inv_def sources_counted_def)
qed

text \<open>An environment over documented channels, and an actor with two empty queues.\<close>

definition sample_env :: "(nat chan, nat, unit, unit, unit, nat) actor_env" where
  "sample_env =
     \<lparr>ae_mpsc = reference_mpsc, ae_poll_next = (\<lambda>s. (s, Pending)),
      ae_hooks = protocol_hooks_default\<lparr>ph_on_command_end := Some Suc, ph_stream_end := Some (\<lambda>h. (Some 99, h))\<rparr>,
      ae_set_correlation_id = (\<lambda>_ f. f),
      ae_packet = \<lparr>into_fragment_parts = (\<lambda>_. fragment_parts_new 0 None []), from_fragment_parts = (\<lambda>_. 0)\<rparr>,
      ae_bytes = reference_bytes, ae_header_codec = reference_bincode\<rparr>"

definition sample_chan :: "nat list \<Rightarrow> bool \<Rightarrow> nat chan" where
  "sample_chan fs live = \<lparr>ch_queue = fs, ch_capacity = 8, ch_reserved = 0, ch_closed = False, ch_senders = live\<rparr>"

definition sample_actor :: "nat chan \<Rightarrow> nat chan \<Rightarrow> (nat chan, unit, nat) connection_actor" where
  "sample_actor high low = fst (actor_new 0 0 high low () None False :: _ \<times> (nat, unit, unit, nat) protocol_hooks)"

lemma sample_actor_ready: "actor_ready (sample_actor high low)"
  by (simp add: sample_actor_def actor_new_def actor_with_hooks_def hook_on_connection_setup_def
      protocol_hooks_default_def actor_ready_def output_ok_def)

theorem actor_counts_sources_witness:
  "\<exists>a st out. reachable (run_begins (sample_actor (sample_chan [] True) (sample_chan [] True)))
       (actor_step sample_env (\<lambda>c. c)) (Running a st out) \<and>
     \<not> is_done st \<and> as_closed_sources st + open_sources a = 3"
proof -
  let ?a = "sample_actor (sample_chan [] True) (sample_chan [] True)"
  obtain a st out where r: "run_start ?a [] = (Running a st out :: (nat chan, nat, unit, unit, nat) actor_run)" "\<not> is_done st" "as_total_sources st = 3"
    by (simp add: run_start_def sample_actor_def actor_new_def actor_with_hooks_def hook_on_connection_setup_def
        protocol_hooks_default_def actor_state_new_def is_done_def is_response_def is_multi_packet_def)
  have reach: "reachable (run_begins ?a) (actor_step sample_env (\<lambda>c. c)) (Running a st out)"
    by (rule reachable.start) (simp add: run_begins_def sample_actor_ready r)
  from actor_counts_sources [OF reach] r reach show ?thesis by auto
qed




end
