(* ===== verification/Actor_Delivery.thy ===== *)
theory Actor_Delivery
  imports Actor_Sources "HOL-Library.Sublist"
begin

text \<open>
  What the connection actor writes: every queued frame, once, in the order of its queue, and the
  frames of the queues interleaved as the fairness policy says. Fragmentation is off in this
  theory (a frame then gives one frame); callbacks and correlation stamps may change frames as
  long as they keep the part of a frame that \<open>view\<close> shows.
\<close>

section \<open>Traces\<close>

datatype frame_source = FromHigh | FromLow | FromMulti | FromStream | Terminator

type_synonym 'f trace = "(frame_source \<times> 'f) list"

definition frames_from :: "frame_source \<Rightarrow> 'f trace \<Rightarrow> 'f list" where
  "frames_from s tr = map snd (filter (\<lambda>(t, f). t = s) tr)"

lemma frames_from_simps [simp]:
  "frames_from s [] = []" "frames_from s (tr @ tr') = frames_from s tr @ frames_from s tr'"
  "frames_from s ((t, f) # tr) = (if t = s then f # frames_from s tr else frames_from s tr)"
  by (simp_all add: frames_from_def)

definition queued :: "('c \<Rightarrow> 'f chan) \<Rightarrow> 'c option \<Rightarrow> 'f list" where
  "queued v rx = (case rx of None \<Rightarrow> [] | Some c \<Rightarrow> ch_queue (v c))"

definition output_channel :: "('c, 's) active_output \<Rightarrow> 'c option" where
  "output_channel w = (case w of OutputMultiPacket ctx \<Rightarrow> mpc_channel ctx | _ \<Rightarrow> None)"

definition multi_queued :: "('c \<Rightarrow> 'f chan) \<Rightarrow> ('c, 's, 'h) connection_actor \<Rightarrow> 'f list" where
  "multi_queued v a = queued v (output_channel (ca_active_output a))"

lemma queued_simps [simp]: "queued v None = []" "queued v (Some c) = ch_queue (v c)"
  by (simp_all add: queued_def)

lemma output_channel_simps [simp]:
  "output_channel OutputNone = None" "output_channel (OutputResponse s) = None"
  "output_channel (OutputMultiPacket ctx) = mpc_channel ctx"
  by (simp_all add: output_channel_def)

definition env_faithful ::
    "('c, 'f, 's, 'e, 'ph, 'h) actor_env \<Rightarrow> ('c \<Rightarrow> 'f chan) \<Rightarrow> ('f \<Rightarrow> 'x) \<Rightarrow> bool" where
  "env_faithful env v view \<longleftrightarrow>
     mpsc_documented (ae_mpsc env) v \<and>
     (\<forall>f h. view (fst (hook_before_send (ae_hooks env) f h)) = view f) \<and>
     (\<forall>c f. view (ae_set_correlation_id env c f) = view f)"

text \<open>\<open>tr\<close> explains what happened between two moments of a run.\<close>

definition explains ::
    "('c \<Rightarrow> 'f chan) \<Rightarrow> ('f \<Rightarrow> 'x) \<Rightarrow> 'f trace \<Rightarrow> ('c, 's, 'h) connection_actor \<Rightarrow> 'f list \<Rightarrow>
     ('c, 's, 'h) connection_actor \<Rightarrow> 'f list \<Rightarrow> bool" where
  "explains v view tr a out a' out' \<longleftrightarrow>
     map view out' = map view out @ map (\<lambda>(s, f). view f) tr \<and>
     queued v (ca_high_rx a) = frames_from FromHigh tr @ queued v (ca_high_rx a') \<and>
     queued v (ca_low_rx a) = frames_from FromLow tr @ queued v (ca_low_rx a') \<and>
     multi_queued v a = frames_from FromMulti tr @ multi_queued v a' \<and>
     (ca_active_output a = OutputNone \<longrightarrow> ca_active_output a' = OutputNone) \<and>
     ca_shutdown a' = ca_shutdown a \<and> ca_fragmenter a' = ca_fragmenter a"

lemma explains_refl: "same_sources a a' \<Longrightarrow> ca_fragmenter a' = ca_fragmenter a \<Longrightarrow> explains v view [] a out a' out"
  by (simp add: explains_def same_sources_def multi_queued_def)

lemma explains_trans:
  "explains v view tr a out a1 out1 \<Longrightarrow> explains v view tr' a1 out1 a2 out2 \<Longrightarrow>
   explains v view (tr @ tr') a out a2 out2"
  by (simp add: explains_def)

lemma process_frame_view:
  assumes "env_faithful env v view" and "ca_fragmenter a = None"
    and "process_frame_with_hooks_and_metrics env f (a, out) = Some (b, out')"
  shows "same_sources a b" "ca_fragmenter b = None" "ca_fairness b = ca_fairness a" "map view out' = map view out @ [view f]"
proof -
  obtain f' h' where h: "hook_before_send (ae_hooks env) f (ca_ctx a) = (f', h')" by fastforce
  have "view (fst (hook_before_send (ae_hooks env) f (ca_ctx a))) = view f"
    using assms(1) by (simp add: env_faithful_def)
  then have "view f' = view f" by (simp add: h)
  then show "same_sources a b" "ca_fragmenter b = None" "ca_fairness b = ca_fairness a" "map view out' = map view out @ [view f]"
    using assms(2,3) h by (auto simp: process_frame_with_hooks_and_metrics_def push_frame_def same_sources_def)
qed

lemma emit_view:
  assumes "env_faithful env v view" and "ca_fragmenter a = None"
    and "emit_multi_packet_frame env f (a, out) = Some (b, out')"
  shows "same_sources a b" "ca_fragmenter b = None" "ca_fairness b = ca_fairness a" "map view out' = map view out @ [view f]"
proof -
  have "view (apply_multi_packet_correlation env a f) = view f"
    using assms(1) by (simp add: apply_multi_packet_correlation_def env_faithful_def split: option.split)
  then show "same_sources a b" "ca_fragmenter b = None" "ca_fairness b = ca_fairness a" "map view out' = map view out @ [view f]"
    using process_frame_view [OF assms(1,2), of "apply_multi_packet_correlation env a f" out b out'] assms(3)
    by (simp_all add: emit_multi_packet_frame_def)
qed

text \<open>Without fragmentation nothing panics.\<close>

lemma process_frame_total:
  "ca_fragmenter a = None \<Longrightarrow> \<exists>b out'. process_frame_with_hooks_and_metrics env f (a, out) = Some (b, out')"
  by (simp add: process_frame_with_hooks_and_metrics_def)

lemma emit_total: "ca_fragmenter a = None \<Longrightarrow> \<exists>b out'. emit_multi_packet_frame env f (a, out) = Some (b, out')"
  by (simp add: emit_multi_packet_frame_def process_frame_total)


section \<open>Every operation is explained\<close>

lemma multi_closed_explained:
  assumes "env_faithful env v view" and "ca_fragmenter a = None" and "multi_queued v a = []"
    and "handle_multi_packet_closed env (a, st, out) = Some (a', st', out')"
  shows "\<exists>tr. explains v view tr a out a' out' \<and> set (map fst tr) \<subseteq> {Terminator} \<and>
    ca_fairness a' = (if tr = [] then ca_fairness a else fairness_reset (ca_fairness a))"
proof -
  obtain w cid where c: "close_multi_packet (ae_mpsc env) (ca_active_output a) = (w, cid)" by fastforce
  obtain t x where t: "hook_stream_end_frame (ae_hooks env) (ca_ctx a) = (t, x)" by fastforce
  note src = handle_multi_packet_closed_Some [OF assms(4)]
  show ?thesis
  proof (cases t)
    case None
    with assms c t have "out' = out" "ca_fragmenter a' = None" "ca_fairness a' = ca_fairness a"
      by (auto simp: handle_multi_packet_closed_def Let_def)
    with src assms(2,3) show ?thesis
      by (intro exI [of _ "[]"]) (simp add: explains_def multi_queued_def)
  next
    case (Some f)
    let ?a = "a\<lparr>ca_active_output := w, ca_ctx := x\<rparr>"
    from Some assms c t obtain b where e: "emit_multi_packet_frame env f (?a, out) = Some (b, out')"
      and b: "ca_fragmenter a' = ca_fragmenter b" "ca_fairness a' = fairness_reset (ca_fairness b)"
      by (auto simp: handle_multi_packet_closed_def Let_def bind_eq_Some_conv after_low_def)
    have "ca_fragmenter ?a = None" using assms(2) by simp
    note v = emit_view [OF assms(1) this e]
    with src assms(2,3) b show ?thesis
      by (intro exI [of _ "[(Terminator, f)]"]) (simp add: explains_def multi_queued_def)
  qed
qed

lemma low_drain_explained:
  assumes "env_faithful env v view" and "ca_fragmenter a = None"
    and "try_opportunistic_low_drain env (a, st, out) = Some ((a', st', out'), drained)"
  shows "\<exists>tr. explains v view tr a out a' out' \<and> map fst tr = (if drained then [FromLow] else []) \<and>
    (drained \<longleftrightarrow> queued v (ca_low_rx a) \<noteq> []) \<and>
    ca_fairness a' = (if drained then fairness_reset (ca_fairness a) else ca_fairness a)"
proof -
  have doc: "mpsc_documented (ae_mpsc env) v" using assms(1) by (simp add: env_faithful_def)
  from assms(3) show ?thesis
  proof (cases rule: low_drain_cases)
    case absent
    then show ?thesis by (intro exI [of _ "[]"]) (simp add: explains_def)
  next
    case (frame c c' f b o')
    have "ca_fragmenter (a\<lparr>ca_low_rx := Some c'\<rparr>) = None" using assms(2) by simp
    note p = process_frame_view [OF assms(1) this frame(3)]
    have "ch_queue (v c) = f # ch_queue (v c')"
      using mpsc_try_recvD [OF doc frame(2)] by (cases rule: chan_try_recv_cases) simp_all
    with p frame assms(2) show ?thesis
      by (intro exI [of _ "[(FromLow, f)]"]) (simp add: explains_def same_sources_def multi_queued_def after_low_def)
  next
    case (empty c c')
    have "v c' = v c" "ch_queue (v c) = []"
      using mpsc_try_recvD [OF doc empty(2)] by (cases rule: chan_try_recv_cases; simp)+
    with empty show ?thesis by (intro exI [of _ "[]"]) (simp add: explains_def multi_queued_def)
  next
    case (gone c c')
    have "ch_queue (v c) = []"
      using mpsc_try_recvD [OF doc gone(2)] by (cases rule: chan_try_recv_cases) simp_all
    with gone show ?thesis by (intro exI [of _ "[]"]) (simp add: explains_def multi_queued_def)
  qed
qed

lemma multi_drain_explained:
  assumes "env_faithful env v view" and "ca_fragmenter a = None"
    and "try_opportunistic_multi_drain env (a, st, out) = Some ((a', st', out'), drained)"
  shows "\<exists>tr. explains v view tr a out a' out' \<and> set (map fst tr) \<subseteq> {FromMulti, Terminator} \<and>
    ca_fairness a' = (if tr = [] then ca_fairness a else fairness_reset (ca_fairness a))"
proof -
  have doc: "mpsc_documented (ae_mpsc env) v" using assms(1) by (simp add: env_faithful_def)
  from assms(3) show ?thesis
  proof (cases rule: multi_drain_cases)
    case absent
    then show ?thesis by (intro exI [of _ "[]"]) (simp add: explains_def)
  next
    case (frame ctx c c' f b o')
    let ?a = "a\<lparr>ca_active_output := OutputMultiPacket (ctx\<lparr>mpc_channel := Some c'\<rparr>)\<rparr>"
    have "ca_fragmenter ?a = None" using assms(2) by simp
    note p = emit_view [OF assms(1) this frame(4)]
    have "ch_queue (v c) = f # ch_queue (v c')"
      using mpsc_try_recvD [OF doc frame(3)] by (cases rule: chan_try_recv_cases) simp_all
    with p frame assms(2) show ?thesis
      by (intro exI [of _ "[(FromMulti, f)]"]) (simp add: explains_def same_sources_def multi_queued_def after_low_def)
  next
    case (empty ctx c c')
    have "v c' = v c"
      using mpsc_try_recvD [OF doc empty(3)] by (cases rule: chan_try_recv_cases) simp_all
    with empty show ?thesis by (intro exI [of _ "[]"]) (simp add: explains_def multi_queued_def)
  next
    case (gone ctx c c')
    let ?a = "a\<lparr>ca_active_output := OutputMultiPacket (ctx\<lparr>mpc_channel := Some c'\<rparr>)\<rparr>"
    have q: "ch_queue (v c) = []" "ch_queue (v c') = []"
      using mpsc_try_recvD [OF doc gone(3)] by (cases rule: chan_try_recv_cases; simp)+
    have "ca_fragmenter ?a = None" "multi_queued v ?a = []" using assms(2) q(2) by (simp_all add: multi_queued_def)
    from multi_closed_explained [OF assms(1) this gone(4)] obtain tr where
      "explains v view tr ?a out a' out'" "set (map fst tr) \<subseteq> {Terminator}"
      "ca_fairness a' = (if tr = [] then ca_fairness a else fairness_reset (ca_fairness a))"
      by auto
    with q gone(1,2) show ?thesis
      by (intro exI [of _ tr]) (auto simp: explains_def multi_queued_def)
  qed
qed


text \<open>
  After a high-priority frame: either the burst goes on, or the low-priority queue was asked, and
  the multi-packet channel when that had nothing.
\<close>

lemma after_high_explained:
  assumes "env_faithful env v view" and "ca_fragmenter a = None"
    and "after_high env now (a, st, out) = Some (a', st', out')"
  shows "\<exists>tr. explains v view tr a out a' out' \<and> set (map fst tr) \<subseteq> {FromLow, FromMulti, Terminator} \<and>
    ca_fairness a' =
      (let ft = record_high_priority (fst now) (ca_fairness a) in if tr = [] then ft else fairness_reset ft) \<and>
    (should_yield_to_low_priority (snd now) (record_high_priority (fst now) (ca_fairness a)) \<and>
       queued v (ca_low_rx a) \<noteq> [] \<longrightarrow> map fst tr = [FromLow]) \<and>
    (\<not> should_yield_to_low_priority (snd now) (record_high_priority (fst now) (ca_fairness a)) \<longrightarrow> tr = [])"
proof -
  let ?ft = "record_high_priority (fst now) (ca_fairness a)"
  let ?a = "a\<lparr>ca_fairness := ?ft\<rparr>"
  have frag: "ca_fragmenter ?a = None" using assms(2) by simp
  have start: "explains v view tr a out b o'" if "explains v view tr ?a out b o'" for tr b o'
    using that by (simp add: explains_def multi_queued_def)
  from assms(3) show ?thesis
  proof (cases rule: after_high_cases)
    case stay
    then show ?thesis by (intro exI [of _ "[]"]) (simp add: explains_def multi_queued_def)
  next
    case low
    from low_drain_explained [OF assms(1) frag low(2)] obtain tr where
      tr: "explains v view tr ?a out a' out'" "map fst tr = [FromLow]" "ca_fairness a' = fairness_reset ?ft" by auto
    with start low(1) show ?thesis by (intro exI [of _ tr]) (auto simp: Let_def)
  next
    case (multi cfg1 drained)
    obtain a1 st1 out1 where cfg1: "cfg1 = (a1, st1, out1)" by (cases cfg1)
    from low_drain_explained [OF assms(1) frag multi(2) [unfolded cfg1]] obtain tr where
      t1: "explains v view tr ?a out a1 out1" "tr = []" "queued v (ca_low_rx a) = []" "ca_fairness a1 = ?ft" by auto
    then have "ca_fragmenter a1 = None" using frag by (simp add: explains_def)
    from multi_drain_explained [OF assms(1) this multi(3) [unfolded cfg1]] obtain tr' where
      t2: "explains v view tr' a1 out1 a' out'" "set (map fst tr') \<subseteq> {FromMulti, Terminator}"
        "ca_fairness a' = (if tr' = [] then ?ft else fairness_reset ?ft)" using t1(4) by auto
    have "explains v view tr' a out a' out'" using explains_trans [OF start [OF t1(1)] t2(1)] t1(2) by simp
    with t2 t1(3) multi(1) show ?thesis by (intro exI [of _ tr']) (auto simp: Let_def)
  qed
qed


text \<open>Polling a source that has nothing does not change what it holds.\<close>

lemma polled_pending_queued:
  assumes "mpsc_documented mp v" and "polled_pending mp rx rx'"
  shows "queued v rx' = queued v rx" "queued v rx = []"
proof -
  have "queued v rx' = queued v rx \<and> queued v rx = []"
  proof (cases rx)
    case (Some c)
    with assms(2) obtain c' where r: "rx' = Some c'" "mp_recv mp c = (c', Pending)"
      by (auto simp: polled_pending_def)
    from mpsc_recvD [OF assms(1) r(2)] show ?thesis
      by (cases rule: chan_recv_cases) (simp_all add: Some r(1))
  qed (use assms(2) in \<open>simp add: polled_pending_def\<close>)
  then show "queued v rx' = queued v rx" "queued v rx = []" by simp_all
qed

text \<open>The frame a ready event carries has left its source.\<close>

fun event_frames :: "('f, 'e) actor_event \<Rightarrow> 'f trace" where
  "event_frames (EvHigh (Some f)) = [(FromHigh, f)]"
| "event_frames (EvLow (Some f)) = [(FromLow, f)]"
| "event_frames (EvMultiPacket (Some f)) = [(FromMulti, f)]"
| "event_frames _ = []"

definition taken ::
    "('c \<Rightarrow> 'f chan) \<Rightarrow> 'f trace \<Rightarrow> ('c, 's, 'h) connection_actor \<Rightarrow> ('c, 's, 'h) connection_actor \<Rightarrow> bool" where
  "taken v tr a a' \<longleftrightarrow>
     queued v (ca_high_rx a) = frames_from FromHigh tr @ queued v (ca_high_rx a') \<and>
     queued v (ca_low_rx a) = frames_from FromLow tr @ queued v (ca_low_rx a') \<and>
     multi_queued v a = frames_from FromMulti tr @ multi_queued v a' \<and>
     (ca_active_output a = OutputNone \<longrightarrow> ca_active_output a' = OutputNone) \<and>
     ca_shutdown a' = ca_shutdown a \<and> ca_fragmenter a' = ca_fragmenter a \<and> ca_fairness a' = ca_fairness a"

lemma recv_queued:
  assumes "mpsc_documented mp v" and "mp_recv mp c = (c', Ready res)"
  shows "case res of None \<Rightarrow> ch_queue (v c) = [] \<and> ch_queue (v c') = [] \<and> \<not> chan_live (v c)
    | Some f \<Rightarrow> ch_queue (v c) = f # ch_queue (v c')"
  using mpsc_recvD [OF assms] by (cases rule: chan_recv_cases) simp_all

lemma poll_output_pending_queued:
  assumes "mpsc_documented (ae_mpsc env) v"
    and "poll_output env (compute_availability a st) (ca_active_output a) = (w, Pending)"
  shows "queued v (output_channel w) = multi_queued v a"
  using assms(2)
proof (cases rule: poll_output_Pending)
  case (multi ctx c c')
  from mpsc_recvD [OF assms(1) multi(3)] show ?thesis
    by (cases rule: chan_recv_cases) (simp_all add: multi multi_queued_def)
qed (simp_all add: multi_queued_def)

lemma next_event_waits:
  assumes "mpsc_documented (ae_mpsc env) v" and "next_event env a st = (a', r)" and "r = Pending \<or> r = Ready EvIdle"
  shows "taken v [] a a'"
  using assms(2)
proof (cases rule: next_event_cases)
  case (wait hi lo w)
  with polled_pending_queued [OF assms(1) wait(2)] polled_pending_queued [OF assms(1) wait(3)]
    poll_output_pending_queued [OF assms(1) wait(4)] poll_output_shape(1) [OF wait(4)]
  show ?thesis by (simp add: taken_def multi_queued_def)
next
  case (outp hi lo w ev)
  from outp(4,6) assms(3) show ?thesis by (cases rule: poll_output_Ready) simp_all
qed (use assms(3) in simp_all)

lemma next_event_taken:
  assumes "mpsc_documented (ae_mpsc env) v" and "next_event env a st = (a', Ready ev)"
  shows "taken v (event_frames ev) a a'" "ev = EvHigh None \<longrightarrow> queued v (ca_high_rx a') = []"
    "ev = EvLow None \<longrightarrow> queued v (ca_low_rx a') = []" "ev = EvMultiPacket None \<longrightarrow> multi_queued v a' = []"
    "ev = EvLow res \<longrightarrow> queued v (ca_high_rx a) = []"
proof -
  have "taken v (event_frames ev) a a' \<and> (ev = EvHigh None \<longrightarrow> queued v (ca_high_rx a') = []) \<and>
    (ev = EvLow None \<longrightarrow> queued v (ca_low_rx a') = []) \<and> (ev = EvMultiPacket None \<longrightarrow> multi_queued v a' = []) \<and>
    (ev = EvLow res \<longrightarrow> queued v (ca_high_rx a) = [])"
    using assms(2)
  proof (cases rule: next_event_cases)
    case (high c c' r)
    with recv_queued [OF assms(1) high(3)] show ?thesis
      by (cases r) (simp_all add: taken_def multi_queued_def)
  next
    case (low hi c c' r)
    with recv_queued [OF assms(1) low(4)] polled_pending_queued [OF assms(1) low(2)] show ?thesis
      by (cases r) (simp_all add: taken_def multi_queued_def)
  next
    case (outp hi lo w ev')
    note q = polled_pending_queued [OF assms(1) outp(2)] polled_pending_queued [OF assms(1) outp(3)]
    from outp(4) show ?thesis
    proof (cases rule: poll_output_Ready)
      case (multi ctx ctx' r)
      show ?thesis
      proof (cases "mpc_channel ctx")
        case None
        with multi outp q show ?thesis
          by (auto simp: taken_def multi_queued_def poll_queue_def)
      next
        case (Some c)
        with multi(3) obtain c' where rc: "mp_recv (ae_mpsc env) c = (c', Ready r)" "mpc_channel ctx' = Some c'"
          by (auto simp: poll_queue_def split: prod.splits)
        with recv_queued [OF assms(1) rc(1)] multi(1,2,5) outp Some q show ?thesis
          by (cases r) (simp_all add: taken_def multi_queued_def)
      qed
    next
      case (response s s' r)
      with outp q show ?thesis by (simp add: taken_def multi_queued_def)
    qed
  next
    case (wait hi lo w)
    then have "ev = EvIdle" by (simp split: if_splits)
    with next_event_waits [OF assms(1,2)] show ?thesis by simp
  qed (simp add: taken_def multi_queued_def)
  then show "taken v (event_frames ev) a a'" "ev = EvHigh None \<longrightarrow> queued v (ca_high_rx a') = []"
    "ev = EvLow None \<longrightarrow> queued v (ca_low_rx a') = []" "ev = EvMultiPacket None \<longrightarrow> multi_queued v a' = []"
    "ev = EvLow res \<longrightarrow> queued v (ca_high_rx a) = []"
    by simp_all
qed


section \<open>Turns of the loop\<close>

lemma forward_explained:
  assumes "env_faithful env v view" and "ca_fragmenter a = None"
    and "forward_queue_frame env now kind f (a, st, out) = Some (a', st', out')"
  shows "\<exists>tr. explains v view tr a (out @ [f]) a' out' \<and> set (map fst tr) \<subseteq> {FromLow, FromMulti, Terminator} \<and>
    (kind \<noteq> QHigh \<longrightarrow> tr = [] \<and> ca_fairness a' = fairness_reset (ca_fairness a)) \<and>
    (kind = QHigh \<longrightarrow>
      ca_fairness a' = (let ft = record_high_priority (fst now) (ca_fairness a) in if tr = [] then ft else fairness_reset ft) \<and>
      (should_yield_to_low_priority (snd now) (record_high_priority (fst now) (ca_fairness a)) \<and>
         queued v (ca_low_rx a) \<noteq> [] \<longrightarrow> map fst tr = [FromLow]) \<and>
      (\<not> should_yield_to_low_priority (snd now) (record_high_priority (fst now) (ca_fairness a)) \<longrightarrow> tr = []))"
  using assms(3)
proof (cases rule: forward_cases)
  case (forward b out1)
  have "same_sources a b \<and> ca_fragmenter b = None \<and> ca_fairness b = ca_fairness a \<and> map view out1 = map view out @ [view f]"
    using forward(3) process_frame_view [OF assms(1,2), of f out b out1] emit_view [OF assms(1,2), of f out b out1]
    by (auto split: if_splits)
  then have b: "same_sources a b" "ca_fragmenter b = None" "ca_fairness b = ca_fairness a"
    "map view out1 = map view out @ [view f]" by simp_all
  have via: "explains v view tr a (out @ [f]) c o'" if "explains v view tr b out1 c o'" for tr c o'
    using that b assms(2) by (simp add: explains_def same_sources_def multi_queued_def)
  show ?thesis
  proof (cases "kind = QHigh")
    case True
    with forward(4) have "after_high env now (b, st, out1) = Some (a', st', out')" by simp
    have low_rx: "ca_low_rx b = ca_low_rx a" using b(1) by (simp add: same_sources_def)
    from after_high_explained [OF assms(1) b(2) \<open>after_high env now (b, st, out1) = Some (a', st', out')\<close>,
        unfolded b(3) low_rx] obtain tr where "explains v view tr b out1 a' out'"
      "set (map fst tr) \<subseteq> {FromLow, FromMulti, Terminator}"
      "ca_fairness a' = (let ft = record_high_priority (fst now) (ca_fairness a) in if tr = [] then ft else fairness_reset ft)"
      "should_yield_to_low_priority (snd now) (record_high_priority (fst now) (ca_fairness a)) \<and>
         queued v (ca_low_rx a) \<noteq> [] \<longrightarrow> map fst tr = [FromLow]"
      "\<not> should_yield_to_low_priority (snd now) (record_high_priority (fst now) (ca_fairness a)) \<longrightarrow> tr = []"
      by (elim exE conjE) (rule that)
    with True via show ?thesis by (intro exI [of _ tr]) simp
  next
    case False
    then have "a' = after_low b" "out' = out1" using forward(4) by (auto split: queue_kind.splits)
    moreover have "explains v view [] b out1 (after_low b) out1"
      by (rule explains_refl) (simp_all add: after_low_def)
    ultimately show ?thesis using False via b(3) by (intro exI [of _ "[]"]) (simp add: after_low_def)
  qed
qed

text \<open>The frames of a response stream and its terminator.\<close>

definition stream_explained ::
    "('c \<Rightarrow> 'f chan) \<Rightarrow> ('f \<Rightarrow> 'x) \<Rightarrow> ('c, 's, 'h) connection_actor \<Rightarrow> 'f list \<Rightarrow>
     ('c, 's, 'h) connection_actor \<Rightarrow> 'f list \<Rightarrow> bool" where
  "stream_explained v view a out a' out' \<longleftrightarrow>
     (\<exists>tr. explains v view tr a out a' out' \<and> set (map fst tr) \<subseteq> {FromStream, Terminator} \<and>
        ca_fairness a' = (if tr = [] then ca_fairness a else fairness_reset (ca_fairness a)))"

lemma stream_frame_explained:
  assumes "env_faithful env v view" and "ca_fragmenter a = None" and "ca_active_output a = OutputResponse z"
    and "process_frame_with_hooks_and_metrics env f (a\<lparr>ca_ctx := x\<rparr>, out) = Some (b, out')"
    and "ca_high_rx c = ca_high_rx b" "ca_low_rx c = ca_low_rx b" "multi_queued v c = []" "ca_shutdown c = ca_shutdown b"
    and "ca_fragmenter c = ca_fragmenter b" "ca_fairness c = fairness_reset (ca_fairness b)"
    and "s \<in> {FromStream, Terminator}"
  shows "stream_explained v view a out c out'"
proof -
  have "ca_fragmenter (a\<lparr>ca_ctx := x\<rparr>) = None" using assms(2) by simp
  note p = process_frame_view [OF assms(1) this assms(4)]
  have "explains v view [(s, f)] a out c out'"
    using p assms(2,3,5-11) by (auto simp: explains_def same_sources_def multi_queued_def [of v a])
  then show ?thesis using p(3) assms(10,11) unfolding stream_explained_def
    by (intro exI [of _ "[(s, f)]"]) simp
qed

lemma stream_quiet_explained:
  assumes "ca_high_rx c = ca_high_rx a" "ca_low_rx c = ca_low_rx a" "ca_active_output a = OutputResponse z" "multi_queued v c = []"
    and "ca_shutdown c = ca_shutdown a" "ca_fragmenter c = ca_fragmenter a" "ca_fairness c = ca_fairness a"
  shows "stream_explained v view a out c out"
  using assms unfolding stream_explained_def
  by (intro exI [of _ "[]"]) (simp add: explains_def multi_queued_def [of v a])

lemma response_explained:
  assumes "env_faithful env v view" and "ca_fragmenter a = None" and "is_response (ca_active_output a)"
    and "process_response env res (a, st, out) = Some ((a', st', out'), r)"
  shows "stream_explained v view a out a' out'"
proof -
  obtain s where s: "ca_active_output a = OutputResponse s" using assms(3) by (auto simp: is_response_def split: active_output.splits)
  show ?thesis
  proof (cases res)
    case None
    obtain t x where t: "hook_stream_end_frame (ae_hooks env) (ca_ctx a) = (t, x)" by fastforce
    show ?thesis
    proof (cases t)
      case None': None
      from None None' t assms(4) s have "out' = out"
        and "a' = a\<lparr>ca_ctx := hook_on_command_end (ae_hooks env) x, ca_active_output := OutputNone\<rparr>"
        by (auto simp: process_response_def handle_response_def clear_response_def is_response_def Let_def)
      with s stream_quiet_explained [of a' a s v view out] show ?thesis by (simp add: multi_queued_def)
    next
      case (Some f)
      with None t assms(4) obtain b where
        p: "process_frame_with_hooks_and_metrics env f (a\<lparr>ca_ctx := x\<rparr>, out) = Some (b, out')" and
        a': "a' = (after_low (b\<lparr>ca_ctx := hook_on_command_end (ae_hooks env) (ca_ctx b)\<rparr>))
            \<lparr>ca_active_output := clear_response (ca_active_output b)\<rparr>"
        by (auto simp: process_response_def handle_response_def after_low_def Let_def bind_eq_Some_conv)
      have "ca_active_output b = OutputResponse s" using process_frame_frame [OF p] s by (simp add: same_sources_def)
      then show ?thesis
        by (intro stream_frame_explained [OF assms(1,2) s p, where s = Terminator])
           (simp_all add: a' after_low_def multi_queued_def clear_response_def is_response_def)
    qed
  next
    case (Some rr)
    show ?thesis
    proof (cases rr)
      case (Inr f)
      with Some assms(4) obtain b where
        p: "process_frame_with_hooks_and_metrics env f (a\<lparr>ca_ctx := ca_ctx a\<rparr>, out) = Some (b, out')"
        and a': "a' = after_low b"
        by (auto simp: process_response_def handle_response_def Let_def bind_eq_Some_conv)
      have "ca_active_output b = OutputResponse s" using process_frame_frame [OF p] s by (simp add: same_sources_def)
      then show ?thesis
        by (intro stream_frame_explained [OF assms(1,2) s p, where s = FromStream])
           (simp_all add: a' after_low_def multi_queued_def)
    next
      case (Inl e)
      with Some assms(4) s have "out' = out \<and> ca_high_rx a' = ca_high_rx a \<and> ca_low_rx a' = ca_low_rx a \<and>
          output_channel (ca_active_output a') = None \<and> ca_shutdown a' = ca_shutdown a \<and>
          ca_fragmenter a' = ca_fragmenter a \<and> ca_fairness a' = ca_fairness a"
        by (cases e) (auto simp: process_response_def handle_response_def clear_response_def is_response_def Let_def)
      with s stream_quiet_explained [of a' a s v view out] show ?thesis by (simp add: multi_queued_def)
    qed
  qed
qed


lemma explains_taken:
  "taken v (event_frames ev) a a1 \<Longrightarrow> explains v view tr a1 (out @ map snd (event_frames ev)) a' out' \<Longrightarrow>
   explains v view (event_frames ev @ tr) a out a' out'"
  by (auto simp: explains_def taken_def)

text \<open>
  What a turn does to the burst counter: a high-priority frame counts, and a frame of any other
  source, or the end of the high-priority queue, resets it.
\<close>

definition burst_updated ::
    "'f trace \<Rightarrow> ('f, 'e) actor_event \<Rightarrow> instant \<times> instant \<Rightarrow> fairness_tracker \<Rightarrow> fairness_tracker \<Rightarrow> bool" where
  "burst_updated tr ev now ft ft' \<longleftrightarrow>
     (case ev of
        EvHigh (Some _) \<Rightarrow> ft' = (let r = record_high_priority (fst now) ft in if tr = [] then r else fairness_reset r)
      | _ \<Rightarrow> ft' = fairness_reset ft \<or> ft' = ft \<and> event_frames ev @ tr = [])"

lemma dispatch_explained:
  assumes "env_faithful env v view" and "ca_fragmenter a = None" and "event_source a st ev" and "ev \<noteq> EvShutdown"
    and "ev = EvHigh None \<longrightarrow> queued v (ca_high_rx a) = []" and "ev = EvLow None \<longrightarrow> queued v (ca_low_rx a) = []"
    and "ev = EvMultiPacket None \<longrightarrow> multi_queued v a = []"
    and "dispatch_event env now ev (a, st, out) = Some ((a', st', out'), r)"
  shows "\<exists>tr. explains v view tr a (out @ map snd (event_frames ev)) a' out' \<and>
    set (map fst tr) \<subseteq> {FromLow, FromMulti, FromStream, Terminator} \<and>
    burst_updated tr ev now (ca_fairness a) (ca_fairness a') \<and>
    (\<forall>f. ev = EvHigh (Some f) \<and> queued v (ca_low_rx a) \<noteq> [] \<longrightarrow>
       map fst tr =
         (if should_yield_to_low_priority (snd now) (record_high_priority (fst now) (ca_fairness a)) then [FromLow] else []))"
proof -
  have queue: ?thesis if ev: "ev = EvHigh (Some f) \<and> kind = QHigh \<or> ev = EvLow (Some f) \<and> kind = QLow \<or>
      ev = EvMultiPacket (Some f) \<and> kind = QMulti" for f kind
  proof -
    have "forward_queue_frame env now kind f (a, st, out) = Some (a', st', out')"
      using assms(8) ev by (auto simp: dispatch_event_def process_queue_def)
    from forward_explained [OF assms(1,2) this] obtain tr where
      tr: "explains v view tr a (out @ [f]) a' out'" "set (map fst tr) \<subseteq> {FromLow, FromMulti, Terminator}"
        "kind \<noteq> QHigh \<longrightarrow> tr = [] \<and> ca_fairness a' = fairness_reset (ca_fairness a)"
        "kind = QHigh \<longrightarrow>
          ca_fairness a' = (let ft = record_high_priority (fst now) (ca_fairness a) in if tr = [] then ft else fairness_reset ft) \<and>
          (should_yield_to_low_priority (snd now) (record_high_priority (fst now) (ca_fairness a)) \<and>
            queued v (ca_low_rx a) \<noteq> [] \<longrightarrow> map fst tr = [FromLow]) \<and>
          (\<not> should_yield_to_low_priority (snd now) (record_high_priority (fst now) (ca_fairness a)) \<longrightarrow> tr = [])"
      by (elim exE conjE) (rule that)
    then show ?thesis using ev by (intro exI [of _ tr]) (auto simp: burst_updated_def)
  qed
  have quiet: ?thesis if "explains v view [] a out a' out'" "event_frames ev = []"
      "ca_fairness a' = fairness_reset (ca_fairness a) \<or> ca_fairness a' = ca_fairness a"
    using that by (intro exI [of _ "[]"]) (auto simp: burst_updated_def split: actor_event.splits option.splits)
  show ?thesis
  proof (cases ev)
    case (EvHigh res)
    show ?thesis
    proof (cases res)
      case None
      with EvHigh assms(5,8) show ?thesis
        by (intro quiet) (auto simp: dispatch_event_def process_queue_def handle_empty_queue_def close_high_receiver_def
            explains_def multi_queued_def)
    qed (use EvHigh queue in blast)
  next
    case (EvLow res)
    show ?thesis
    proof (cases res)
      case None
      with EvLow assms(6,8) show ?thesis
        by (intro quiet) (auto simp: dispatch_event_def process_queue_def handle_empty_queue_def close_low_receiver_def
            explains_def multi_queued_def)
    qed (use EvLow queue in blast)
  next
    case (EvMultiPacket res)
    show ?thesis
    proof (cases res)
      case None
      then have "handle_multi_packet_closed env (a, st, out) = Some (a', st', out')" "multi_queued v a = []"
        using EvMultiPacket assms(7,8) by (auto simp: dispatch_event_def process_queue_def handle_empty_queue_def)
      from multi_closed_explained [OF assms(1,2) this(2,1)] obtain tr where
        "explains v view tr a out a' out'" "set (map fst tr) \<subseteq> {Terminator}"
        "ca_fairness a' = (if tr = [] then ca_fairness a else fairness_reset (ca_fairness a))" by blast
      with EvMultiPacket None show ?thesis by (intro exI [of _ tr]) (auto simp: burst_updated_def)
    qed (use EvMultiPacket queue in blast)
  next
    case (EvResponse res)
    have "stream_explained v view a out a' out'"
      using EvResponse assms(3,8) by (intro response_explained [OF assms(1,2)]) (auto simp: event_source_def dispatch_event_def)
    then obtain tr where "explains v view tr a out a' out'" "set (map fst tr) \<subseteq> {FromStream, Terminator}"
      "ca_fairness a' = (if tr = [] then ca_fairness a else fairness_reset (ca_fairness a))"
      by (auto simp: stream_explained_def)
    with EvResponse show ?thesis by (intro exI [of _ tr]) (auto simp: burst_updated_def)
  next
    case EvIdle
    with assms(8) explains_refl [of a a v view out] show ?thesis by (intro quiet) (auto simp: dispatch_event_def)
  qed (use assms(4) in simp)
qed


lemma turn_cases:
  assumes "env_faithful env v view" and "ca_fragmenter a = None" and "poll_sources env now a st out = Running a' st' out'"
  obtains (shutdown) "is_active st" "ca_shutdown a" "(a', st') = process_shutdown env (a, st)" "out' = out"
  | (wait) "next_event env a st = (a', Pending)" "taken v [] a a'" "out' = out" "st' = st"
  | (event) a1 ev tr where "next_event env a st = (a1, Ready ev)" "taken v (event_frames ev) a a1"
      "explains v view (event_frames ev @ tr) a out a' out'"
      "set (map fst tr) \<subseteq> {FromLow, FromMulti, FromStream, Terminator}"
      "burst_updated tr ev now (ca_fairness a) (ca_fairness a')" "ev \<noteq> EvShutdown"
      "\<And>f. ev = EvHigh (Some f) \<Longrightarrow> queued v (ca_low_rx a) \<noteq> [] \<Longrightarrow> map fst tr =
         (if should_yield_to_low_priority (snd now) (record_high_priority (fst now) (ca_fairness a)) then [FromLow] else [])"
      "dispatch_event env now ev (a1, st, out) = Some ((a', st', out'), Inr ())"
proof -
  have doc: "mpsc_documented (ae_mpsc env) v" using assms(1) by (simp add: env_faithful_def)
  obtain a1 r where n: "next_event env a st = (a1, r)" by fastforce
  show ?thesis
  proof (cases r)
    case Pending
    with n assms(3) next_event_waits [OF doc n] show ?thesis by (intro wait) (auto simp: poll_sources_def)
  next
    case (Ready ev)
    have d: "dispatch_event env now ev (a1, st, out) = Some ((a', st', out'), Inr ())"
      using assms(3) n Ready by (auto simp: poll_sources_def split: option.splits sum.splits)
    have n': "next_event env a st = (a1, Ready ev)" using n Ready by simp
    note t = next_event_taken [OF doc n']
    show ?thesis
    proof (cases "ev = EvShutdown")
      case True
      have "is_active st \<and> ca_shutdown a \<and> a1 = a" using n'
      proof (cases rule: next_event_cases)
        case (outp hi lo w e)
        from outp(4,6) True show ?thesis by (cases rule: poll_output_Ready) simp_all
      qed (simp_all add: True split: if_splits)
      with d True show ?thesis by (intro shutdown) (auto simp: dispatch_event_def split: prod.splits)
    next
      case False
      have t1: "taken v (event_frames ev) a a1" by (rule t(1))
      then have a1: "ca_fragmenter a1 = None" "ca_fairness a1 = ca_fairness a" using assms(2) by (simp_all add: taken_def)
      from dispatch_explained [OF assms(1) a1(1) next_event_source [OF n'] False t(2,3,4) d] obtain tr where
        tr: "explains v view tr a1 (out @ map snd (event_frames ev)) a' out'"
          "set (map fst tr) \<subseteq> {FromLow, FromMulti, FromStream, Terminator}"
          "burst_updated tr ev now (ca_fairness a1) (ca_fairness a')"
          "\<forall>f. ev = EvHigh (Some f) \<and> queued v (ca_low_rx a1) \<noteq> [] \<longrightarrow> map fst tr =
             (if should_yield_to_low_priority (snd now) (record_high_priority (fst now) (ca_fairness a1)) then [FromLow] else [])"
        by (elim exE conjE) (rule that)
      show ?thesis
      proof (rule event [OF n' t1 explains_taken [OF t1 tr(1)] tr(2) _ False _ d])
        show "burst_updated tr ev now (ca_fairness a) (ca_fairness a')" using tr(3) a1(2) by simp
        fix f assume "ev = EvHigh (Some f)" "queued v (ca_low_rx a) \<noteq> []"
        then show "map fst tr =
          (if should_yield_to_low_priority (snd now) (record_high_priority (fst now) (ca_fairness a)) then [FromLow] else [])"
          using tr(4) t1 a1(2) by (simp add: taken_def)
      qed
    qed
  qed
qed

lemma process_shutdown_actor:
  assumes "process_shutdown env (a, st) = (a', st')"
  obtains x where "a' = a\<lparr>ca_high_rx := map_option (mp_close (ae_mpsc env)) (ca_high_rx a),
    ca_low_rx := map_option (mp_close (ae_mpsc env)) (ca_low_rx a), ca_active_output := OutputNone, ca_ctx := x\<rparr>"
proof (rule that [of "ca_ctx a'"])
  show "a' = a\<lparr>ca_high_rx := map_option (mp_close (ae_mpsc env)) (ca_high_rx a),
    ca_low_rx := map_option (mp_close (ae_mpsc env)) (ca_low_rx a), ca_active_output := OutputNone, ca_ctx := ca_ctx a'\<rparr>"
    using assms
    by (cases "ca_active_output a") (auto simp: process_shutdown_def start_shutdown_def output_shutdown_def Let_def)
qed

lemma process_shutdown_queues:
  assumes "mpsc_documented (ae_mpsc env) v" and "process_shutdown env (a, st) = (a', st')"
  shows "queued v (ca_high_rx a') = queued v (ca_high_rx a)" "queued v (ca_low_rx a') = queued v (ca_low_rx a)"
    "ca_active_output a' = OutputNone" "ca_shutdown a' = ca_shutdown a" "ca_fragmenter a' = ca_fragmenter a"
    "ca_fairness a' = ca_fairness a"
proof -
  have close: "queued v (map_option (mp_close (ae_mpsc env)) rx) = queued v rx" for rx
    using mpsc_closeD [OF assms(1)] by (cases rx) simp_all
  obtain x where "a' = a\<lparr>ca_high_rx := map_option (mp_close (ae_mpsc env)) (ca_high_rx a),
      ca_low_rx := map_option (mp_close (ae_mpsc env)) (ca_low_rx a), ca_active_output := OutputNone, ca_ctx := x\<rparr>"
    by (rule process_shutdown_actor [OF assms(2)])
  then show "queued v (ca_high_rx a') = queued v (ca_high_rx a)" "queued v (ca_low_rx a') = queued v (ca_low_rx a)"
    "ca_active_output a' = OutputNone" "ca_shutdown a' = ca_shutdown a" "ca_fragmenter a' = ca_fragmenter a"
    "ca_fairness a' = ca_fairness a"
    by (simp_all add: close)
qed

section \<open>Histories\<close>

text \<open>
  A run together with everything that was sent to the three channels: what they held at the
  start and what the steps of other tasks added.
\<close>

inductive actor_history ::
    "('c, 'f, 's, 'e, 'ph, 'h) actor_env \<Rightarrow> ('c \<Rightarrow> 'f chan) \<Rightarrow> ('c, 's, 'h) connection_actor \<Rightarrow>
     ('c, 'f, 's, 'e, 'h) actor_run \<Rightarrow> 'f list \<Rightarrow> 'f list \<Rightarrow> 'f list \<Rightarrow> bool" for env v a0 where
  start: "actor_ready a0 \<Longrightarrow> actor_history env v a0 (run_start a0 [])
    (queued v (ca_high_rx a0)) (queued v (ca_low_rx a0)) (multi_queued v a0)"
| turn: "actor_history env v a0 r h l m \<Longrightarrow> actor_history env v a0 (run_turn env now r) h l m"
| high: "actor_history env v a0 r h l m \<Longrightarrow> actor_step env v r (SentHigh fs) r' \<Longrightarrow> actor_history env v a0 r' (h @ fs) l m"
| low: "actor_history env v a0 r h l m \<Longrightarrow> actor_step env v r (SentLow fs) r' \<Longrightarrow> actor_history env v a0 r' h (l @ fs) m"
| multi: "actor_history env v a0 r h l m \<Longrightarrow> actor_step env v r (SentMulti fs) r' \<Longrightarrow> actor_history env v a0 r' h l (m @ fs)"
| stream: "actor_history env v a0 r h l m \<Longrightarrow> actor_step env v r StreamMoves r' \<Longrightarrow> actor_history env v a0 r' h l m"
| cancel: "actor_history env v a0 r h l m \<Longrightarrow> actor_step env v r Cancel r' \<Longrightarrow> actor_history env v a0 r' h l m"

lemma history_reachable: "actor_history env v a0 r h l m \<Longrightarrow> reachable (run_begins a0) (actor_step env v) r"
proof (induction rule: actor_history.induct)
  case start
  then show ?case by (intro reachable.start) (simp add: run_begins_def)
next
  case (turn r h l m now)
  from turn.IH actor_step.turn show ?case by (rule reachable.move)
next
  case (high r h l m fs r')
  from high.IH high.hyps(2) show ?case by (rule reachable.move)
next
  case (low r h l m fs r')
  from low.IH low.hyps(2) show ?case by (rule reachable.move)
next
  case (multi r h l m fs r')
  from multi.IH multi.hyps(2) show ?case by (rule reachable.move)
next
  case (stream r h l m r')
  from stream.IH stream.hyps(2) show ?case by (rule reachable.move)
next
  case (cancel r h l m r')
  from cancel.IH cancel.hyps(2) show ?case by (rule reachable.move)
qed

inductive_cases SentHighE: "actor_step env v r (SentHigh fs) r'"
inductive_cases SentLowE: "actor_step env v r (SentLow fs) r'"
inductive_cases SentMultiE: "actor_step env v r (SentMulti fs) r'"
inductive_cases StreamMovesE: "actor_step env v r StreamMoves r'"
inductive_cases CancelE: "actor_step env v r Cancel r'"

definition history_explained ::
    "('c \<Rightarrow> 'f chan) \<Rightarrow> ('f \<Rightarrow> 'x) \<Rightarrow> ('c, 'f, 's, 'e, 'h) actor_run \<Rightarrow> 'f list \<Rightarrow> 'f list \<Rightarrow> 'f list \<Rightarrow> 'f trace \<Rightarrow> bool" where
  "history_explained v view r h l m tr \<longleftrightarrow>
     (case r of
        Running a st out \<Rightarrow>
          ca_fragmenter a = None \<and> map view out = map (\<lambda>(s, f). view f) tr \<and>
          h = frames_from FromHigh tr @ queued v (ca_high_rx a) \<and>
          l = frames_from FromLow tr @ queued v (ca_low_rx a) \<and>
          (m = frames_from FromMulti tr @ multi_queued v a \<or>
           prefix (frames_from FromMulti tr) m \<and> ca_shutdown a \<and> ca_active_output a = OutputNone)
      | _ \<Rightarrow> True)"


lemma turn_history_explained:
  assumes "env_faithful env v view" and "history_explained v view (Running a st out) h l m tr"
    and "poll_sources env now a st out = Running a' st' out'"
  shows "\<exists>tr'. history_explained v view (Running a' st' out') h l m tr'"
proof -
  have doc: "mpsc_documented (ae_mpsc env) v" using assms(1) by (simp add: env_faithful_def)
  have frag: "ca_fragmenter a = None" using assms(2) by (simp add: history_explained_def)
  have step: "\<exists>tr'. history_explained v view (Running a' st' out') h l m tr'" if "explains v view t a out a' out'" for t
    using that assms(2)
    by (intro exI [of _ "tr @ t"]) (auto simp: history_explained_def explains_def multi_queued_def)
  from assms(1) frag assms(3) show ?thesis
  proof (cases rule: turn_cases)
    case shutdown
    with process_shutdown_queues [OF doc shutdown(3) [symmetric]] assms(2) show ?thesis
      by (intro exI [of _ tr]) (auto simp: history_explained_def)
  next
    case wait
    then have "explains v view [] a out a' out'" by (simp add: explains_def taken_def)
    then show ?thesis by (rule step)
  next
    case (event a1 ev t)
    show ?thesis by (rule step [OF event(3)])
  qed
qed

lemma history_is_explained:
  assumes "env_faithful env v view" and "actor_history env v a0 r h l m" and "ca_fragmenter a0 = None"
  shows "\<exists>tr. history_explained v view r h l m tr"
  using assms(2)
proof (induction rule: actor_history.induct)
  case start
  then show ?case using assms(3)
    by (intro exI [of _ "[]"]) (simp add: history_explained_def run_start_def)
next
  case (turn r h l m now)
  then obtain tr where tr: "history_explained v view r h l m tr" by blast
  show ?case
  proof (cases r)
    case (Running a st out)
    show ?thesis
    proof (cases "is_done st")
      case False
      show ?thesis
      proof (cases "poll_sources env now a st out")
        case (Running a' st' out')
        with turn_history_explained [OF assms(1) tr [unfolded \<open>r = Running a st out\<close>] this] False \<open>r = Running a st out\<close>
        show ?thesis by simp
      qed (simp_all add: Running False history_explained_def)
    qed (simp add: Running history_explained_def)
  qed (simp_all add: history_explained_def)
next
  case (high r h l m fs r')
  then obtain tr where "history_explained v view r h l m tr" by blast
  with high(2) show ?case
    by (intro exI [of _ tr]) (auto elim!: SentHighE simp: history_explained_def chan_sent_def multi_queued_def)
next
  case (low r h l m fs r')
  then obtain tr where "history_explained v view r h l m tr" by blast
  with low(2) show ?case
    by (intro exI [of _ tr]) (auto elim!: SentLowE simp: history_explained_def chan_sent_def multi_queued_def)
next
  case (multi r h l m fs r')
  then obtain tr where "history_explained v view r h l m tr" by blast
  with multi(2) show ?case
    by (intro exI [of _ tr]) (auto elim!: SentMultiE simp: history_explained_def chan_sent_def multi_queued_def)
next
  case (stream r h l m r')
  then obtain tr where "history_explained v view r h l m tr" by blast
  with stream(2) show ?case
    by (intro exI [of _ tr]) (auto elim!: StreamMovesE simp: history_explained_def multi_queued_def)
next
  case (cancel r h l m r')
  then obtain tr where "history_explained v view r h l m tr" by blast
  with cancel(2) show ?case
    by (intro exI [of _ tr]) (auto elim!: CancelE simp: history_explained_def multi_queued_def)
qed



lemmas actor_eval =
  sample_env_def sample_chan_def sample_actor_def actor_new_def actor_with_hooks_def hook_on_connection_setup_def
  protocol_hooks_default_def run_start_def actor_state_new_def is_done_def is_active_def is_shutting_down_def
  is_response_def is_multi_packet_def poll_sources_def next_event_def compute_availability_def available_output_def
  poll_queue_def poll_output_def dispatch_event_def process_queue_def handle_empty_queue_def close_high_receiver_def
  close_low_receiver_def forward_queue_frame_def should_emit_multi_packet_frame_def
  process_frame_with_hooks_and_metrics_def push_frame_def hook_before_send_def after_high_def after_low_def
  try_opportunistic_drain_def try_opportunistic_low_drain_def try_opportunistic_multi_drain_def multi_packet_mut_def
  reference_mpsc_def chan_recv_def chan_try_recv_def chan_live_def mark_closed_def take_counter_def fairness_defs
  fairness_config_default_def Let_def

lemma sample_env_faithful: "env_faithful sample_env (\<lambda>c. c) (\<lambda>f. f)"
  by (simp add: env_faithful_def sample_env_def hook_before_send_def protocol_hooks_default_def)



section \<open>Low-priority frames are not starved\<close>

text \<open>Turns that may pass before a waiting low-priority frame is written.\<close>

definition starve_bound :: "('c, 's, 'h) connection_actor \<Rightarrow> actor_state \<Rightarrow> nat" where
  "starve_bound a st =
     of_bool (is_active st) +
     (if ca_high_rx a \<noteq> None
      then Suc (fc_max_high_before_low (ft_config (ca_fairness a)) - ft_high_counter (ca_fairness a)) else 0)"

lemma next_event_low_waiting:
  assumes "mpsc_documented (ae_mpsc env) v" and "next_event env a st = (a1, r)" and "queued v (ca_low_rx a) \<noteq> []"
  obtains (shutdown) "r = Ready EvShutdown" | (high) res where "r = Ready (EvHigh res)" | (low) f where "r = Ready (EvLow (Some f))"
  using assms(2)
proof (cases rule: next_event_cases)
  case (low hi c c' res)
  with recv_queued [OF assms(1) low(4)] assms(3) that(3) show ?thesis by (cases res) simp_all
next
  case (outp hi lo w ev)
  with polled_pending_queued [OF assms(1) outp(3)] assms(3) show ?thesis by simp
next
  case (wait hi lo w)
  with polled_pending_queued [OF assms(1) wait(3)] assms(3) show ?thesis by simp
qed (use that in simp_all)

lemma low_drain_active:
  "try_opportunistic_low_drain env (a, st, out) = Some ((a', st', out'), d) \<Longrightarrow> is_active st' \<Longrightarrow> is_active st"
  by (erule low_drain_cases) (auto dest: mark_closed_state(1))

lemma multi_drain_active:
  "try_opportunistic_multi_drain env (a, st, out) = Some ((a', st', out'), d) \<Longrightarrow> is_active st' \<Longrightarrow> is_active st"
  by (erule multi_drain_cases) (auto dest: mark_closed_state(1) handle_multi_packet_closed_Some(4))

lemma forward_active:
  assumes "forward_queue_frame env now kind f (a, st, out) = Some (a', st', out')" and "is_active st'"
  shows "is_active st"
  using assms(1)
proof (cases rule: forward_cases)
  case (forward b out1)
  show ?thesis
  proof (cases "kind = QHigh")
    case True
    with forward(4) have "after_high env now (b, st, out1) = Some (a', st', out')" by simp
    then show ?thesis
    proof (cases rule: after_high_cases)
      case low
      then show ?thesis using low_drain_active assms(2) by blast
    next
      case (multi cfg1 drained)
      obtain a1 st1 out1' where "cfg1 = (a1, st1, out1')" by (cases cfg1)
      with multi low_drain_active multi_drain_active assms(2) show ?thesis by blast
    qed (use assms(2) in simp)
  qed (use forward(4) assms(2) in \<open>auto split: queue_kind.splits\<close>)
qed

lemma next_event_high_open:
  assumes "next_event env a st = (a1, r)"
  shows "(ca_high_rx a1 = None) = (ca_high_rx a = None)"
  using assms
proof (cases rule: next_event_cases)
  case (low hi c c' res)
  then show ?thesis using polled_pending_None [OF low(2)] by simp
next
  case (outp hi lo w ev)
  then show ?thesis using polled_pending_None [OF outp(2)] by simp
next
  case (wait hi lo w)
  then show ?thesis using polled_pending_None [OF wait(2)] by simp
qed simp_all

text \<open>A turn while a low-priority frame waits: it is written, or the bound decreases.\<close>

definition low_waits :: "('c \<Rightarrow> 'f chan) \<Rightarrow> nat \<Rightarrow> 'f \<Rightarrow> ('c, 's, 'h) connection_actor \<Rightarrow> bool" where
  "low_waits v n f a \<longleftrightarrow>
     ca_fragmenter a = None \<and> fc_max_high_before_low (ft_config (ca_fairness a)) = n \<and>
     (\<exists>fs. queued v (ca_low_rx a) = f # fs)"

lemma low_progress:
  assumes "env_faithful env v view" and "low_waits v n f a" and "0 < n"
    and "poll_sources env now a st out = Running a' st' out'"
  shows "\<exists>pre. map view out' = map view out @ pre \<and>
    (view f \<in> set pre \<or> low_waits v n f a' \<and> starve_bound a' st' < starve_bound a st)"
proof -
  have doc: "mpsc_documented (ae_mpsc env) v" using assms(1) by (simp add: env_faithful_def)
  obtain fs where q: "ca_fragmenter a = None" "fc_max_high_before_low (ft_config (ca_fairness a)) = n"
    "queued v (ca_low_rx a) = f # fs" using assms(2) by (auto simp: low_waits_def)
  have ne: "queued v (ca_low_rx a) \<noteq> []" using q(3) by simp
  from assms(1) q(1) assms(4) show ?thesis
  proof (cases rule: turn_cases)
    case shutdown
    note s = process_shutdown_queues [OF doc shutdown(3) [symmetric]]
    have "\<not> is_active st'" using shutdown(1,3)
      by (auto simp: process_shutdown_def start_shutdown_def Let_def state_start_shutdown_def mark_closed_def
          is_active_def split: prod.splits if_splits)
    moreover obtain x where "a' = a\<lparr>ca_high_rx := map_option (mp_close (ae_mpsc env)) (ca_high_rx a),
        ca_low_rx := map_option (mp_close (ae_mpsc env)) (ca_low_rx a), ca_active_output := OutputNone, ca_ctx := x\<rparr>"
      by (rule process_shutdown_actor [OF shutdown(3) [symmetric]])
    ultimately have "starve_bound a' st' < starve_bound a st" using shutdown(1) by (simp add: starve_bound_def)
    with s q shutdown(4) show ?thesis by (intro exI [of _ "[]"]) (auto simp: low_waits_def)
  next
    case wait
    from doc wait(1) ne show ?thesis by (cases rule: next_event_low_waiting) simp_all
  next
    case (event a1 ev tr)
    have out: "map view out' = map view out @ map (\<lambda>(s, f). view f) (event_frames ev @ tr)"
      and low: "frames_from FromLow (event_frames ev @ tr) @ queued v (ca_low_rx a') = f # fs"
      and frag: "ca_fragmenter a' = None"
      using event(3) q by (simp_all add: explains_def)
    have written: ?thesis if some: "frames_from FromLow (event_frames ev @ tr) \<noteq> []"
    proof -
      obtain g gs where g: "frames_from FromLow (event_frames ev @ tr) = g # gs"
        using some by (cases "frames_from FromLow (event_frames ev @ tr)") blast+
      then have "f = g" using low by (simp del: frames_from_simps)
      then have "f \<in> set (frames_from FromLow (event_frames ev @ tr))" by (simp only: g list.set insertI1)
      then have "view f \<in> set (map (\<lambda>(s, f). view f) (event_frames ev @ tr))" by (auto simp: frames_from_def)
      with out show ?thesis by blast
    qed
    from doc event(1) ne show ?thesis
    proof (cases rule: next_event_low_waiting)
      case (high res)
      then have ev: "ev = EvHigh res" by simp
      have high_open: "ca_high_rx a \<noteq> None"
        using next_event_source [OF event(1)] next_event_high_open [OF event(1)] by (simp add: event_source_def ev)
      show ?thesis
      proof (cases res)
        case None
        from ev None event(8) have d: "ca_high_rx a' = None" "is_active st' \<longrightarrow> is_active st"
          using mark_closed_state(1) [of st]
          by (auto simp: dispatch_event_def process_queue_def handle_empty_queue_def close_high_receiver_def)
        with high_open have "starve_bound a' st' < starve_bound a st" by (auto simp: starve_bound_def)
        moreover have "low_waits v n f a'" if "frames_from FromLow (event_frames ev @ tr) = []"
          using that low frag q(2) event(5) by (auto simp: low_waits_def burst_updated_def ev None)
        ultimately show ?thesis using written out by blast
      next
        case (Some g)
        show ?thesis
        proof (cases "tr = []")
          case True
          then have "\<not> should_yield_to_low_priority (snd now) (record_high_priority (fst now) (ca_fairness a))"
            using event(7) [OF ev [unfolded Some] ne] by (auto split: if_splits)
          then have "Suc (ft_high_counter (ca_fairness a)) < n"
            using assms(3) q(2) by (auto simp: should_yield_to_low_priority_def split: if_splits)
          moreover have "ca_fairness a' = record_high_priority (fst now) (ca_fairness a)"
            using event(5) by (simp add: burst_updated_def ev Some True)
          moreover have "is_active st' \<longrightarrow> is_active st"
            using event(8) forward_active [of env now QHigh g a1 st out a' st' out']
            by (auto simp: dispatch_event_def process_queue_def ev Some)
          ultimately have "starve_bound a' st' < starve_bound a st"
            using q(2) high_open by (auto simp: starve_bound_def)
          moreover have "low_waits v n f a'"
            using low frag q(2) event(5) by (auto simp: low_waits_def burst_updated_def ev Some True)
          ultimately show ?thesis using out by blast
        next
          case False
          then have "map fst tr = [FromLow]" using event(7) [OF ev [unfolded Some] ne] by (auto split: if_splits)
          then show ?thesis by (intro written) (auto simp: frames_from_def)
        qed
      qed
    next
      case (low g)
      then show ?thesis by (intro written) simp
    qed (use event(6) in simp)
  qed
qed


fun actor_path ::
    "('c, 'f, 's, 'e, 'ph, 'h) actor_env \<Rightarrow> ('c \<Rightarrow> 'f chan) \<Rightarrow> ('c, 'f, 's, 'e, 'h) actor_run \<Rightarrow>
     'f actor_label list \<Rightarrow> ('c, 'f, 's, 'e, 'h) actor_run \<Rightarrow> bool" where
  "actor_path env v r [] r' \<longleftrightarrow> r = r'"
| "actor_path env v r (x # xs) r' \<longleftrightarrow> (\<exists>r1. actor_step env v r x r1 \<and> actor_path env v r1 xs r')"

fun is_turn :: "'f actor_label \<Rightarrow> bool" where
  "is_turn (Turn _) = True"
| "is_turn _ = False"

definition turns :: "'f actor_label list \<Rightarrow> nat" where
  "turns xs = length (filter is_turn xs)"

fun is_running :: "('c, 'f, 's, 'e, 'h) actor_run \<Rightarrow> bool" where
  "is_running (Running _ _ _) = True"
| "is_running _ = False"

lemma path_running: "actor_path env v r xs r' \<Longrightarrow> is_running r' \<Longrightarrow> is_running r"
proof (induction xs arbitrary: r)
  case (Cons x xs)
  then obtain r1 where r1: "actor_step env v r x r1" "is_running r1" by auto
  from r1(1) show ?case by cases (use r1(2) in \<open>cases r; simp_all\<close>)+
qed simp

text \<open>Steps of other tasks do not touch what has been written nor the fairness state.\<close>

lemma peer_step:
  assumes "actor_step env v (Running a st out) x r" and "\<And>now. x \<noteq> Turn now"
  obtains a' where "r = Running a' st out" "ca_fairness a' = ca_fairness a" "ca_fragmenter a' = ca_fragmenter a"
    "(ca_high_rx a' = None) = (ca_high_rx a = None)" "prefix (queued v (ca_low_rx a)) (queued v (ca_low_rx a'))"
  using assms by cases (auto simp: chan_sent_def)

lemma turn_running:
  assumes "actor_step env v (Running a st out) (Turn now) r" and "is_running r" and "\<not> is_done st"
  obtains a' st' out' where "r = Running a' st' out'" "poll_sources env now a st out = Running a' st' out'"
  using assms by cases (cases "poll_sources env now a st out"; simp)

lemma turn_extends:
  assumes "env_faithful env v view" and "ca_fragmenter a = None" and "poll_sources env now a st out = Running a' st' out'"
  shows "ca_fragmenter a' = None \<and> (\<exists>pre. map view out' = map view out @ pre)"
  using assms
proof (cases rule: turn_cases)
  case shutdown
  have "mpsc_documented (ae_mpsc env) v" using assms(1) by (simp add: env_faithful_def)
  from process_shutdown_queues [OF this shutdown(3) [symmetric]] show ?thesis
    using shutdown(4) assms(2) by simp
next
  case wait
  then show ?thesis using assms(2) by (simp add: taken_def)
next
  case (event a1 ev tr)
  then show ?thesis using assms(2) by (simp add: explains_def)
qed

lemma path_extends:
  assumes "env_faithful env v view" and "actor_path env v r xs r'" and "r = Running a st out" and "r' = Running a' st' out'"
    and "ca_fragmenter a = None"
  shows "\<exists>pre. map view out' = map view out @ pre"
  using assms(2-5)
proof (induction xs arbitrary: r a st out)
  case (Cons x xs)
  then obtain r1 where r1: "actor_step env v (Running a st out) x r1" "actor_path env v r1 xs r'" by auto
  then have run: "is_running r1" using path_running Cons.prems(3) by fastforce
  obtain a1 st1 out1 pre where s: "r1 = Running a1 st1 out1" "ca_fragmenter a1 = None" "map view out1 = map view out @ pre"
  proof (cases "\<exists>now. x = Turn now")
    case True
    then obtain now where x: "x = Turn now" by blast
    show ?thesis
    proof (cases "is_done st")
      case True
      with r1(1) run x show ?thesis by (auto elim: actor_step.cases)
    next
      case False
      from r1(1) [unfolded x] run False obtain a' st' out' where t: "r1 = Running a' st' out'"
        "poll_sources env now a st out = Running a' st' out'" by (rule turn_running)
      from turn_extends [OF assms(1) Cons.prems(4) t(2)] t(1) show ?thesis using that by blast
    qed
  next
    case False
    from peer_step [OF r1(1)] False obtain a' where "r1 = Running a' st out" "ca_fragmenter a' = ca_fragmenter a" by metis
    with Cons.prems(4) show ?thesis by (intro that [of a' st out "[]"]) simp_all
  qed
  from Cons.IH [OF r1(2) s(1) Cons.prems(3) s(2)] s(3) show ?case by auto
qed simp


lemma low_written:
  assumes "env_faithful env v view" and "0 < n" and "actor_path env v r xs r'" and "r = Running a st out"
    and "r' = Running a' st' out'" and "actor_inv a st" and "low_waits v n f a" and "starve_bound a st < turns xs"
  shows "\<exists>pre. map view out' = map view out @ pre \<and> view f \<in> set pre"
  using assms(3-8)
proof (induction xs arbitrary: r a st out)
  case Nil
  then show ?case by (simp add: turns_def)
next
  case (Cons x xs)
  then obtain r1 where r1: "actor_step env v (Running a st out) x r1" "actor_path env v r1 xs r'" by auto
  then have run: "is_running r1" using path_running Cons.prems(3) by fastforce
  have inv1: "run_inv r1" using actor.inv_step [of "Running a st out"] r1(1) Cons.prems(4) by auto
  show ?case
  proof (cases "\<exists>now. x = Turn now")
    case True
    then obtain now where x: "x = Turn now" by blast
    have "ca_low_rx a \<noteq> None" using Cons.prems(5) by (cases "ca_low_rx a") (auto simp: low_waits_def)
    then have "\<not> is_done st" using Cons.prems(4) by (auto simp: actor_inv_def sources_counted_def open_sources_def)
    from r1(1) [unfolded x] run this obtain a1 st1 out1 where t: "r1 = Running a1 st1 out1"
      "poll_sources env now a st out = Running a1 st1 out1" by (rule turn_running)
    from low_progress [OF assms(1) Cons.prems(5) assms(2) t(2)] obtain pre where pre: "map view out1 = map view out @ pre"
      "view f \<in> set pre \<or> low_waits v n f a1 \<and> starve_bound a1 st1 < starve_bound a st" by blast
    have frag: "ca_fragmenter a1 = None"
      using turn_extends [OF assms(1) _ t(2)] Cons.prems(5) by (auto simp: low_waits_def)
    show ?thesis
    proof (cases "view f \<in> set pre")
      case True
      from path_extends [OF assms(1) r1(2) t(1) Cons.prems(3) frag] pre(1) True show ?thesis by auto
    next
      case False
      then have l: "low_waits v n f a1" "starve_bound a1 st1 < turns xs"
        using pre(2) Cons.prems(6) x by (auto simp: turns_def)
      have "actor_inv a1 st1" using inv1 t(1) by simp
      from Cons.IH [OF r1(2) t(1) Cons.prems(3) this l] pre(1) show ?thesis by auto
    qed
  next
    case False
    from peer_step [OF r1(1)] False obtain a1 where a1: "r1 = Running a1 st out" "ca_fairness a1 = ca_fairness a"
      "ca_fragmenter a1 = ca_fragmenter a" "(ca_high_rx a1 = None) = (ca_high_rx a = None)"
      "prefix (queued v (ca_low_rx a)) (queued v (ca_low_rx a1))" by metis
    have "low_waits v n f a1" using Cons.prems(5) a1 by (auto simp: low_waits_def prefix_def)
    moreover have "turns (x # xs) = turns xs" using False by (cases x) (simp_all add: turns_def)
    moreover have "starve_bound a1 st = starve_bound a st" using a1 by (simp add: starve_bound_def del: not_None_eq)
    moreover have "actor_inv a1 st" using inv1 a1(1) by simp
    ultimately show ?thesis using Cons.IH [OF r1(2) a1(1) Cons.prems(3)] Cons.prems(6) by simp
  qed
qed




end
