(* ===== verification/Actor_Termination.thy ===== *)
theory Actor_Termination
  imports Actor_Delivery
begin

text \<open>
  The connection actor returns: once nobody can send to its channels any more, it drains what is
  left and its loop ends after a number of turns bounded by what was left.
\<close>

section \<open>Lifecycle states only advance\<close>

definition later :: "actor_state \<Rightarrow> actor_state \<Rightarrow> bool" where
  "later st st' \<longleftrightarrow>
     as_closed_sources st \<le> as_closed_sources st' \<and> as_total_sources st' = as_total_sources st \<and>
     (is_active st' \<longrightarrow> is_active st)"

lemma later_refl [simp]: "later st st"
  by (simp add: later_def)

lemma later_trans: "later st st1 \<Longrightarrow> later st1 st2 \<Longrightarrow> later st st2"
  by (auto simp: later_def)

lemma later_mark_closed [simp]: "later st (mark_closed st)"
  by (auto simp: later_def mark_closed_def is_active_def Let_def)

lemma low_drain_later:
  "try_opportunistic_low_drain env (a, st, out) = Some ((a', st', out'), d) \<Longrightarrow> later st st'"
  by (erule low_drain_cases) simp_all

lemma multi_drain_later:
  "try_opportunistic_multi_drain env (a, st, out) = Some ((a', st', out'), d) \<Longrightarrow> later st st'"
  by (erule multi_drain_cases) (auto dest: handle_multi_packet_closed_Some(4))

lemma after_high_later: "after_high env now (a, st, out) = Some (a', st', out') \<Longrightarrow> later st st'"
proof (erule after_high_cases)
  fix cfg1 drained
  assume l: "try_opportunistic_low_drain env
      (a\<lparr>ca_fairness := record_high_priority (fst now) (ca_fairness a)\<rparr>, st, out) = Some (cfg1, False)"
    and m: "try_opportunistic_multi_drain env cfg1 = Some ((a', st', out'), drained)"
  obtain a1 st1 out1 where c: "cfg1 = (a1, st1, out1)" by (cases cfg1)
  from low_drain_later [OF l [unfolded c]] multi_drain_later [OF m [unfolded c]] show "later st st'" by (rule later_trans)
qed (auto dest: low_drain_later)

lemma forward_later: "forward_queue_frame env now kind f (a, st, out) = Some (a', st', out') \<Longrightarrow> later st st'"
  by (erule forward_cases) (auto dest: after_high_later split: queue_kind.splits)

section \<open>Nothing panics without fragmentation\<close>

lemma process_frame_not_None [simp]:
  "ca_fragmenter a = None \<Longrightarrow> (process_frame_with_hooks_and_metrics env f (a, out) = None) = False"
  by (simp add: process_frame_with_hooks_and_metrics_def)

lemma emit_not_None [simp]: "ca_fragmenter a = None \<Longrightarrow> (emit_multi_packet_frame env f (a, out) = None) = False"
  by (simp add: emit_multi_packet_frame_def)

lemma multi_closed_not_None [simp]:
  "ca_fragmenter a = None \<Longrightarrow> (handle_multi_packet_closed env (a, st, out) = None) = False"
  by (auto simp: handle_multi_packet_closed_def Let_def bind_eq_None_conv simp del: not_None_eq
      split: prod.splits option.splits)

lemma low_drain_not_None [simp]:
  "ca_fragmenter a = None \<Longrightarrow> (try_opportunistic_low_drain env (a, st, out) = None) = False"
  by (auto simp: try_opportunistic_low_drain_def close_low_receiver_def Let_def simp del: not_None_eq
      split: prod.splits option.splits sum.splits try_recv_error.splits)

lemma multi_drain_not_None [simp]:
  "ca_fragmenter a = None \<Longrightarrow> (try_opportunistic_multi_drain env (a, st, out) = None) = False"
  by (auto simp: try_opportunistic_multi_drain_def Let_def simp del: not_None_eq
      split: prod.splits option.splits sum.splits try_recv_error.splits)

lemma after_high_not_None:
  assumes "env_faithful env v view" and "ca_fragmenter a = None"
  shows "after_high env now (a, st, out) \<noteq> None"
proof
  let ?a = "a\<lparr>ca_fairness := record_high_priority (fst now) (ca_fairness a)\<rparr>"
  assume none: "after_high env now (a, st, out) = None"
  have frag: "ca_fragmenter ?a = None" using assms(2) by simp
  obtain a1 st1 out1 d where l: "try_opportunistic_low_drain env (?a, st, out) = Some ((a1, st1, out1), d)"
    using low_drain_not_None [OF frag, of env st out] by (cases "try_opportunistic_low_drain env (?a, st, out)") auto
  have "ca_fragmenter a1 = None" using low_drain_explained [OF assms(1) frag l] frag by (auto simp: explains_def)
  with none l show False by (auto simp: after_high_def try_opportunistic_drain_def Let_def split: if_splits)
qed

lemma forward_not_None:
  assumes "env_faithful env v view" and "ca_fragmenter a = None"
  shows "forward_queue_frame env now kind f (a, st, out) \<noteq> None"
proof -
  let ?e = "if should_emit_multi_packet_frame kind a then emit_multi_packet_frame env f (a, out)
    else process_frame_with_hooks_and_metrics env f (a, out)"
  obtain b o' where e: "?e = Some (b, o')" using assms(2) by (cases ?e) (auto split: if_splits)
  have "ca_fragmenter b = None"
    using e process_frame_view(2) [OF assms, of f out b o'] emit_view(2) [OF assms, of f out b o'] by (simp split: if_splits)
  from after_high_not_None [OF assms(1) this, of now st o'] show ?thesis
    unfolding forward_queue_frame_def prod.case e by (cases kind) simp_all
qed

lemma dispatch_total:
  assumes "env_faithful env v view" and "ca_fragmenter a = None" and "\<nexists>res. ev = EvResponse res"
  obtains a' st' out' where "dispatch_event env now ev (a, st, out) = Some ((a', st', out'), Inr ())"
proof -
  have queue: "process_queue env now kind res (a, st, out) \<noteq> None" for kind res
    using forward_not_None [OF assms(1,2)] assms(2)
    by (cases res; cases kind) (simp_all add: process_queue_def handle_empty_queue_def close_high_receiver_def close_low_receiver_def)
  have "\<exists>cfg. dispatch_event env now ev (a, st, out) = Some (cfg, Inr ())"
    using queue assms(3) by (cases ev) (auto simp: dispatch_event_def split: prod.splits)
  then show ?thesis using that by auto
qed


section \<open>Sources nobody feeds\<close>

definition unfed :: "('c \<Rightarrow> 'f chan) \<Rightarrow> 'c option \<Rightarrow> bool" where
  "unfed v rx \<longleftrightarrow> (case rx of None \<Rightarrow> True | Some c \<Rightarrow> \<not> chan_live (v c))"

definition sources_unfed :: "('c \<Rightarrow> 'f chan) \<Rightarrow> ('c, 's, 'h) connection_actor \<Rightarrow> bool" where
  "sources_unfed v a \<longleftrightarrow>
     unfed v (ca_high_rx a) \<and> unfed v (ca_low_rx a) \<and> unfed v (output_channel (ca_active_output a)) \<and>
     \<not> is_response (ca_active_output a)"

lemma unfed_simps [simp]: "unfed v None" "unfed v (Some c) = (\<not> chan_live (v c))"
  by (simp_all add: unfed_def)

lemma unfed_same_sources: "same_sources a b \<Longrightarrow> sources_unfed v b = sources_unfed v a"
  by (simp add: same_sources_def sources_unfed_def)

lemma unfed_recv:
  assumes "mpsc_documented mp v" and "mp_recv mp c = (c', r)" and "\<not> chan_live (v c)"
  shows "\<not> chan_live (v c')" "r \<noteq> Pending"
  using mpsc_recvD [OF assms(1,2)] assms(3) by (cases rule: chan_recv_cases; simp)+

lemma unfed_try_recv:
  assumes "mpsc_documented mp v" and "mp_try_recv mp c = (c', r)" and "\<not> chan_live (v c)"
  shows "\<not> chan_live (v c')"
  using mpsc_try_recvD [OF assms(1,2)] assms(3) by (cases rule: chan_try_recv_cases) simp_all

lemma unfed_pending:
  assumes "mpsc_documented mp v" and "polled_pending mp rx rx'" and "unfed v rx"
  shows "rx = None \<and> rx' = None"
  using assms unfed_recv(2) [OF assms(1)] by (cases rx) (auto simp: polled_pending_def)

lemma low_drain_unfed:
  assumes "mpsc_documented (ae_mpsc env) v" and "sources_unfed v a"
    and "try_opportunistic_low_drain env (a, st, out) = Some ((a', st', out'), d)"
  shows "sources_unfed v a'"
  using assms(3)
proof (cases rule: low_drain_cases)
  case (frame c c' f b o')
  then have "sources_unfed v (a\<lparr>ca_low_rx := Some c'\<rparr>)"
    using assms(2) unfed_try_recv [OF assms(1) frame(2)] by (simp add: sources_unfed_def)
  moreover have "same_sources (a\<lparr>ca_low_rx := Some c'\<rparr>) a'"
    using process_frame_frame [OF frame(3)] frame(4) by (auto simp: same_sources_def after_low_def)
  ultimately show ?thesis using unfed_same_sources by blast
next
  case (empty c c')
  then show ?thesis using assms(2) unfed_try_recv [OF assms(1) empty(2)] by (simp add: sources_unfed_def)
qed (use assms(2) in \<open>simp_all add: sources_unfed_def\<close>)

lemma multi_closed_unfed:
  assumes "handle_multi_packet_closed env (a, st, out) = Some (a', st', out')" and "sources_unfed v a"
  shows "sources_unfed v a'"
  using handle_multi_packet_closed_Some [OF assms(1)] assms(2) by (simp add: sources_unfed_def is_response_def)

lemma multi_drain_unfed:
  assumes "mpsc_documented (ae_mpsc env) v" and "sources_unfed v a"
    and "try_opportunistic_multi_drain env (a, st, out) = Some ((a', st', out'), d)"
  shows "sources_unfed v a'"
  using assms(3)
proof (cases rule: multi_drain_cases)
  case (frame ctx c c' f b o')
  let ?a = "a\<lparr>ca_active_output := OutputMultiPacket (ctx\<lparr>mpc_channel := Some c'\<rparr>)\<rparr>"
  have "sources_unfed v ?a"
    using assms(2) frame(1,2) unfed_try_recv [OF assms(1) frame(3)] by (simp add: sources_unfed_def is_response_def)
  moreover have "same_sources ?a a'"
    using emit_frame [OF frame(4)] frame(5) by (auto simp: same_sources_def after_low_def)
  ultimately show ?thesis using unfed_same_sources by blast
next
  case (empty ctx c c')
  then show ?thesis using assms(2) unfed_try_recv [OF assms(1) empty(3)] by (simp add: sources_unfed_def is_response_def)
next
  case (gone ctx c c')
  show ?thesis using assms(2) unfed_try_recv [OF assms(1) gone(3)] gone(1,2)
    by (intro multi_closed_unfed [OF gone(4)]) (simp add: sources_unfed_def is_response_def)
qed (use assms(2) in simp)

lemma after_high_unfed:
  assumes "mpsc_documented (ae_mpsc env) v" and "sources_unfed v a" and "after_high env now (a, st, out) = Some (a', st', out')"
  shows "sources_unfed v a'"
proof -
  have start: "sources_unfed v (a\<lparr>ca_fairness := x\<rparr>)" for x using assms(2) by (simp add: sources_unfed_def)
  from assms(3) show ?thesis
  proof (cases rule: after_high_cases)
    case low
    show ?thesis by (rule low_drain_unfed [OF assms(1) start low(2)])
  next
    case (multi cfg1 drained)
    obtain a1 st1 out1 where c: "cfg1 = (a1, st1, out1)" by (cases cfg1)
    have "sources_unfed v a1" by (rule low_drain_unfed [OF assms(1) start multi(2) [unfolded c]])
    from multi_drain_unfed [OF assms(1) this multi(3) [unfolded c]] show ?thesis .
  qed (use start in simp)
qed

lemma dispatch_unfed:
  assumes "mpsc_documented (ae_mpsc env) v" and "sources_unfed v a" and "\<nexists>res. ev = EvResponse res"
    and "dispatch_event env now ev (a, st, out) = Some ((a', st', out'), Inr ())"
  shows "sources_unfed v a'"
proof -
  have queue: "sources_unfed v a'" if "process_queue env now kind res (a, st, out) = Some (a', st', out')" for kind res
  proof (cases res)
    case None
    then show ?thesis using that assms(2) multi_closed_unfed [OF _ assms(2), of env st out a' st' out']
      by (cases kind)
         (auto simp: process_queue_def handle_empty_queue_def close_high_receiver_def close_low_receiver_def
           sources_unfed_def [of v "a\<lparr>ca_low_rx := None\<rparr>"] sources_unfed_def [of v "a\<lparr>ca_high_rx := None, ca_fairness := _\<rparr>"]
           sources_unfed_def [of v a])
  next
    case (Some f)
    then have "forward_queue_frame env now kind f (a, st, out) = Some (a', st', out')"
      using that by (simp add: process_queue_def)
    then show ?thesis
    proof (cases rule: forward_cases)
      case (forward b o')
      have b: "sources_unfed v b" using unfed_same_sources [OF forward(1), of v] assms(2) by simp
      show ?thesis
      proof (cases "kind = QHigh")
        case True
        with forward(4) after_high_unfed [OF assms(1) b] show ?thesis by simp
      next
        case False
        then have "same_sources b a'" using forward(4) by (auto split: queue_kind.splits)
        then show ?thesis using unfed_same_sources b by blast
      qed
    qed
  qed
  have shutdown: "sources_unfed v a'" if p: "process_shutdown env (a, st) = (a', st')"
  proof -
    have "unfed v (map_option (mp_close (ae_mpsc env)) rx)" if "unfed v rx" for rx
      using that not_live_close mpsc_closeD [OF assms(1)] by (cases rx) simp_all
    then show ?thesis using assms(2) by (cases rule: process_shutdown_actor [OF p]) (simp add: sources_unfed_def is_response_def)
  qed
  show ?thesis
    using assms(2-4) queue shutdown by (cases ev) (auto simp: dispatch_event_def split: prod.splits)
qed


section \<open>Work left\<close>

definition work :: "('c \<Rightarrow> 'f chan) \<Rightarrow> ('c, 's, 'h) connection_actor \<Rightarrow> actor_state \<Rightarrow> nat" where
  "work v a st =
     of_bool (is_active st) + (as_total_sources st - as_closed_sources st) +
     length (queued v (ca_high_rx a)) + length (queued v (ca_low_rx a)) + length (multi_queued v a)"

text \<open>An actor that is not finished and that nobody feeds is never made to wait.\<close>

lemma unfed_ready:
  assumes "mpsc_documented (ae_mpsc env) v" and "actor_inv a st" and "\<not> is_done st" and "sources_unfed v a"
    and "next_event env a st = (a1, r)"
  obtains ev where "r = Ready ev" "ev \<noteq> EvIdle" "\<nexists>res. ev = EvResponse res" "sources_unfed v a1"
  using assms(5)
proof (cases rule: next_event_cases)
  case (high c c' res)
  then show ?thesis using that assms(4) unfed_recv(1) [OF assms(1) high(3)] by (simp add: sources_unfed_def)
next
  case (low hi c c' res)
  have "hi = None" using unfed_pending [OF assms(1) low(2)] assms(4) by (simp add: sources_unfed_def)
  then show ?thesis using that low assms(4) unfed_recv(1) [OF assms(1) low(4)] by (simp add: sources_unfed_def)
next
  case (outp hi lo w ev)
  have hl: "hi = None" "lo = None"
    using unfed_pending [OF assms(1) outp(2)] unfed_pending [OF assms(1) outp(3)] assms(4) by (simp_all add: sources_unfed_def)
  from outp(4) show ?thesis
  proof (cases rule: poll_output_Ready)
    case (multi ctx ctx' res)
    have "unfed v (mpc_channel ctx')"
    proof (cases "mpc_channel ctx")
      case None
      then show ?thesis using multi(3) by (simp add: poll_queue_def)
    next
      case (Some c)
      with multi(3) obtain c' where c': "mp_recv (ae_mpsc env) c = (c', Ready res)" "mpc_channel ctx' = Some c'"
        by (auto simp: poll_queue_def split: prod.splits)
      then show ?thesis using unfed_recv(1) [OF assms(1) c'(1)] assms(4) multi(1) Some by (simp add: sources_unfed_def)
    qed
    then show ?thesis using that outp hl multi by (simp add: sources_unfed_def is_response_def)
  next
    case (response s s' res)
    then show ?thesis using assms(4) by (simp add: sources_unfed_def is_response_def)
  qed
next
  case (wait hi lo w)
  have none: "ca_high_rx a = None" "ca_low_rx a = None"
    using unfed_pending [OF assms(1) wait(2)] unfed_pending [OF assms(1) wait(3)] assms(4) by (simp_all add: sources_unfed_def)
  then have o: "ca_active_output a \<noteq> OutputNone" "is_active st"
    using assms(2,3) by (auto simp: actor_inv_def sources_counted_def open_sources_def)
  from wait(4) show ?thesis
  proof (cases rule: poll_output_Pending)
    case (multi ctx c c')
    then show ?thesis using assms(4) unfed_recv(2) [OF assms(1) multi(3)] by (simp add: sources_unfed_def)
  next
    case (response s s')
    then show ?thesis using assms(4) by (simp add: sources_unfed_def is_response_def)
  next
    case none
    then show ?thesis using o
      by (auto simp: available_output_def is_active_def is_shutting_down_def split: active_output.splits if_splits)
  qed
qed (use that assms(4) in simp)

lemma dispatch_state:
  assumes "dispatch_event env now ev (a, st, out) = Some ((a', st', out'), Inr ())" and "ev \<noteq> EvIdle"
    and "\<nexists>res. ev = EvResponse res" and "ev \<noteq> EvShutdown"
  shows "later st st'" "event_frames ev = [] \<Longrightarrow> st' = mark_closed st"
proof -
  have queue: "later st st' \<and> (res = None \<longrightarrow> st' = mark_closed st)"
    if "process_queue env now kind res (a, st, out) = Some (a', st', out')" for kind res
  proof (cases res)
    case None
    then show ?thesis using that handle_multi_packet_closed_Some(4) [of env a st out a' st' out']
      by (cases kind) (auto simp: process_queue_def handle_empty_queue_def close_high_receiver_def close_low_receiver_def)
  next
    case (Some f)
    then show ?thesis using that forward_later by (fastforce simp: process_queue_def)
  qed
  have "later st st' \<and> (event_frames ev = [] \<longrightarrow> st' = mark_closed st)"
    using assms queue by (cases ev) (auto simp: dispatch_event_def elim: event_frames.elims)
  then show "later st st'" "event_frames ev = [] \<Longrightarrow> st' = mark_closed st" by simp_all
qed

lemma shutdown_later:
  "process_shutdown env (a, st) = (a', st') \<Longrightarrow> is_active st \<Longrightarrow>
   \<not> is_active st' \<and> as_closed_sources st \<le> as_closed_sources st' \<and> as_total_sources st' = as_total_sources st"
  by (auto simp: process_shutdown_def start_shutdown_def Let_def state_start_shutdown_def mark_closed_def is_active_def
      split: prod.splits if_splits)

lemma turn_works:
  assumes "env_faithful env v view" and "ca_fragmenter a = None" and "actor_inv a st" and "\<not> is_done st" and "sources_unfed v a"
  obtains a' st' out' where "poll_sources env now a st out = Running a' st' out'" "sources_unfed v a'"
    "work v a' st' < work v a st"
proof -
  have doc: "mpsc_documented (ae_mpsc env) v" using assms(1) by (simp add: env_faithful_def)
  obtain a1 r where n: "next_event env a st = (a1, r)" by fastforce
  from doc assms(3-5) n obtain ev where ev: "r = Ready ev" "ev \<noteq> EvIdle" "\<nexists>res. ev = EvResponse res" "sources_unfed v a1"
    by (rule unfed_ready)
  note n' = n [unfolded ev(1)]
  have "ca_fragmenter a1 = None" using next_event_taken(1) [OF doc n'] assms(2) by (simp add: taken_def)
  from assms(1) this ev(3) obtain a' st' out' where d: "dispatch_event env now ev (a1, st, out) = Some ((a', st', out'), Inr ())"
    by (rule dispatch_total)
  then have p: "poll_sources env now a st out = Running a' st' out'" by (simp add: poll_sources_def n')
  have some_open: "as_closed_sources st < as_total_sources st"
    using assms(3,4) by (auto simp: actor_inv_def sources_counted_def)
  from assms(1,2) p have "work v a' st' < work v a st"
  proof (cases rule: turn_cases)
    case shutdown
    from process_shutdown_queues [OF doc shutdown(3) [symmetric]] shutdown_later [OF shutdown(3) [symmetric] shutdown(1)]
    show ?thesis using shutdown(1) by (auto simp: work_def multi_queued_def)
  next
    case wait
    then show ?thesis using n' by simp
  next
    case (event a2 ev' tr)
    then have same: "ev' = ev" using n' by simp
    note st = dispatch_state [OF d ev(2,3) event(6) [unfolded same]]
    have q: "length (queued v (ca_high_rx a)) = length (frames_from FromHigh (event_frames ev @ tr)) + length (queued v (ca_high_rx a'))"
      "length (queued v (ca_low_rx a)) = length (frames_from FromLow (event_frames ev @ tr)) + length (queued v (ca_low_rx a'))"
      "length (multi_queued v a) = length (frames_from FromMulti (event_frames ev @ tr)) + length (multi_queued v a')"
      using event(3) same by (simp_all add: explains_def)
    show ?thesis
    proof (cases "event_frames ev = []")
      case True
      then have "as_closed_sources st' = Suc (as_closed_sources st)" "as_total_sources st' = as_total_sources st"
        using st(2) by (auto simp: mark_closed_def Let_def)
      then show ?thesis using q some_open st(1) by (auto simp: work_def later_def)
    next
      case False
      then have "0 < length (frames_from FromHigh (event_frames ev)) + length (frames_from FromLow (event_frames ev)) +
          length (frames_from FromMulti (event_frames ev))"
        by (cases ev rule: event_frames.cases) simp_all
      moreover have "of_bool (is_active st') + (as_total_sources st' - as_closed_sources st') \<le>
          (of_bool (is_active st) + (as_total_sources st - as_closed_sources st) :: nat)"
        using st(1) by (auto simp: later_def)
      ultimately show ?thesis using q unfolding work_def frames_from_simps length_append by linarith
    qed
  qed
  with p dispatch_unfed [OF doc ev(4,3) d] show ?thesis by (rule that)
qed


section \<open>The run ends\<close>

lemma run_turns_ended:
  "fold (run_turn env) nows (Returned a out) = Returned a out"
  by (induction nows) simp_all

lemma unfed_run_ends:
  assumes "env_faithful env v view" and "ca_fragmenter a0 = None" and "actor_history env v a0 (Running a st out) h l m"
    and "sources_unfed v a" and "work v a st < length nows"
  shows "\<exists>a' st' out'. actor_history env v a0 (Running a' st' out') h l m \<and> is_done st' \<and>
    fold (run_turn env) nows (Running a st out) = Returned (take_counter a') out'"
  using assms(3-5)
proof (induction nows arbitrary: a st out)
  case (Cons now nows)
  show ?case
  proof (cases "is_done st")
    case True
    then have "fold (run_turn env) (now # nows) (Running a st out) = Returned (take_counter a) out"
      by (simp add: run_turns_ended)
    with True Cons.prems(1) show ?thesis by blast
  next
    case False
    have inv: "actor_inv a st" using actor.inv_reachable [OF history_reachable [OF Cons.prems(1)]] by simp
    have frag: "ca_fragmenter a = None"
      using history_is_explained [OF assms(1) Cons.prems(1) assms(2)] by (auto simp: history_explained_def)
    from assms(1) frag inv False Cons.prems(2) obtain a1 st1 out1 where
      t: "poll_sources env now a st out = Running a1 st1 out1" "sources_unfed v a1" "work v a1 st1 < work v a st"
      by (rule turn_works)
    then have step: "run_turn env now (Running a st out) = Running a1 st1 out1" using False by simp
    have "actor_history env v a0 (Running a1 st1 out1) h l m"
      using actor_history.turn [OF Cons.prems(1), of now] by (simp only: step)
    from Cons.IH [OF this t(2)] t(3) Cons.prems(3) False t(1) show ?thesis by simp
  qed
qed simp

text \<open>
  C9: The actor returns. From any moment of a run without fragmentation at which nobody can send
  to the actor's channels any more (all senders are gone, or shutdown has closed the queues) and no
  response stream is active, \<open>run\<close> returns after at most as many turns as there are queued frames
  and open sources, plus two. By then both push queues have been written completely and in
  order, and the guard that counts the connection as active has been released.
\<close>

theorem actor_returns:
  assumes "env_faithful env v view" and "ca_fragmenter a0 = None"
    and "actor_history env v a0 (Running a st out) h l m" and "sources_unfed v a"
    and "length (queued v (ca_high_rx a)) + length (queued v (ca_low_rx a)) + length (multi_queued v a) +
      open_sources a + 2 \<le> length nows"
  shows "\<exists>a' out' tr. fold (run_turn env) nows (Running a st out) = Returned a' out' \<and> \<not> ca_counter a' \<and>
    map view out' = map (\<lambda>(s, f). view f) tr \<and> frames_from FromHigh tr = h \<and> frames_from FromLow tr = l"
proof -
  have inv: "actor_inv a st" using actor.inv_reachable [OF history_reachable [OF assms(3)]] by simp
  have "work v a st < length nows"
    using assms(5) inv by (auto simp: work_def actor_inv_def sources_counted_def)
  from unfed_run_ends [OF assms(1-4) this] obtain a' st' out' where
    e: "actor_history env v a0 (Running a' st' out') h l m" "is_done st'"
      "fold (run_turn env) nows (Running a st out) = Returned (take_counter a') out'" by blast
  have "actor_inv a' st'" using actor.inv_reachable [OF history_reachable [OF e(1)]] by simp
  then have none: "ca_high_rx a' = None" "ca_low_rx a' = None"
    using e(2) by (auto simp: actor_inv_def sources_counted_def open_sources_def)
  obtain tr where tr: "map view out' = map (\<lambda>(s, f). view f) tr" "frames_from FromHigh tr = h" "frames_from FromLow tr = l"
    using history_is_explained [OF assms(1) e(1) assms(2)] none by (auto simp: history_explained_def)
  have "\<not> ca_counter (take_counter a')" by (simp add: take_counter_def)
  with e(3) tr show ?thesis by blast
qed

theorem actor_returns_witness:
  "\<exists>a' out' tr. fold (run_turn sample_env) (replicate 8 (0, 0))
       (run_start (sample_actor (sample_chan [3, 4] False) (sample_chan [7, 8] False)) []) = Returned a' out' \<and>
     \<not> ca_counter a' \<and> out' = map (\<lambda>(s, f). f) tr \<and> frames_from FromHigh tr = [3, 4] \<and> frames_from FromLow tr = [7, 8]"
proof -
  let ?a = "sample_actor (sample_chan [3, 4] False) (sample_chan [7, 8] False)" and ?st = "actor_state_new False False"
  have start: "run_start ?a [] = (Running ?a ?st [] :: (nat chan, nat, unit, unit, nat) actor_run)"
    by (simp add: actor_eval)
  have q: "queued (\<lambda>c. c) (ca_high_rx ?a) = [3, 4]" "queued (\<lambda>c. c) (ca_low_rx ?a) = [7, 8]" "multi_queued (\<lambda>c. c) ?a = []"
    "open_sources ?a = 2" "sources_unfed (\<lambda>c. c) ?a" "ca_fragmenter ?a = None"
    by (simp_all add: actor_eval multi_queued_def open_sources_def sources_unfed_def)
  have hist: "actor_history sample_env (\<lambda>c. c) ?a (Running ?a ?st []) [3, 4] [7, 8] []"
    using actor_history.start [OF sample_actor_ready, of sample_env "\<lambda>c. c" "sample_chan [3, 4] False" "sample_chan [7, 8] False"]
    unfolding start q .
  have "length (queued (\<lambda>c. c) (ca_high_rx ?a)) + length (queued (\<lambda>c. c) (ca_low_rx ?a)) + length (multi_queued (\<lambda>c. c) ?a) +
      open_sources ?a + 2 \<le> length (replicate 8 (0 :: nat, 0 :: nat))" by (simp add: q)
  from actor_returns [OF sample_env_faithful q(6) hist q(5) this] show ?thesis unfolding start by simp
qed

end
