(* ===== verification/Actor_Commands.thy ===== *)
theory Actor_Commands
  imports Actor_Sources
begin

text \<open>
  The callback \<open>on_command_end\<close>: the connection actor calls it once for each output it finishes.
  The calls are counted by a function \<open>ends\<close> of the callbacks' state.
\<close>

definition counts_ends :: "('f, 'e, 'ph, 'h) protocol_hooks \<Rightarrow> ('h \<Rightarrow> nat) \<Rightarrow> bool" where
  "counts_ends hooks ends \<longleftrightarrow>
     (\<forall>h. ends (hook_on_command_end hooks h) = Suc (ends h)) \<and>
     (\<forall>f h. ends (snd (hook_before_send hooks f h)) = ends h) \<and>
     (\<forall>e h. ends (hook_handle_error hooks e h) = ends h) \<and>
     (\<forall>h. ends (snd (hook_stream_end_frame hooks h)) = ends h)"

text \<open>One more call exactly when the output is finished, and no new output.\<close>

definition end_counted :: "('h \<Rightarrow> nat) \<Rightarrow> ('c, 's, 'h) connection_actor \<Rightarrow> ('c, 's, 'h) connection_actor \<Rightarrow> bool" where
  "end_counted ends a a' \<longleftrightarrow>
     ends (ca_ctx a') =
       ends (ca_ctx a) + of_bool (ca_active_output a \<noteq> OutputNone \<and> ca_active_output a' = OutputNone) \<and>
     (is_response (ca_active_output a') \<longrightarrow> is_response (ca_active_output a)) \<and>
     (is_multi_packet (ca_active_output a') \<longrightarrow> is_multi_packet (ca_active_output a)) \<and>
     ca_shutdown a' = ca_shutdown a"

lemma output_kinds [simp]:
  "is_response (OutputResponse s)" "is_multi_packet (OutputMultiPacket ctx)" "\<not> is_response OutputNone"
  "\<not> is_multi_packet OutputNone" "\<not> is_response (OutputMultiPacket ctx)" "\<not> is_multi_packet (OutputResponse s)"
  by (simp_all add: is_response_def is_multi_packet_def)

lemma end_counted_refl [simp]: "end_counted ends a a"
  by (simp add: end_counted_def)

lemma end_counted_trans: "end_counted ends a b \<Longrightarrow> end_counted ends b c \<Longrightarrow> end_counted ends a c"
  by (cases "ca_active_output a"; cases "ca_active_output b"; cases "ca_active_output c")
     (simp_all add: end_counted_def)

lemma process_frame_ends:
  assumes "counts_ends (ae_hooks env) ends" and "process_frame_with_hooks_and_metrics env f (a, out) = Some (b, out')"
  shows "ends (ca_ctx b) = ends (ca_ctx a)"
proof -
  have push: "ends (ca_ctx (fst (push_frame env f p))) = ends (ca_ctx (fst p))" for f p
  proof -
    have "ends (snd (hook_before_send (ae_hooks env) f (ca_ctx (fst p)))) = ends (ca_ctx (fst p))"
      using assms(1) by (simp add: counts_ends_def)
    then show ?thesis by (auto simp: push_frame_def split: prod.splits)
  qed
  have "ends (ca_ctx (fst (fold (push_frame env) fs p))) = ends (ca_ctx (fst p))" for fs p
    by (induction fs arbitrary: p) (simp_all add: push)
  from this [of _ "(a\<lparr>ca_fragmenter := _\<rparr>, out)"] push [of f "(a, out)"] assms(2) show ?thesis
    by (auto simp: process_frame_with_hooks_and_metrics_def split: option.splits prod.splits sum.splits) (metis fst_conv)+
qed


lemma end_counted_same_sources:
  "same_sources a b \<Longrightarrow> ends (ca_ctx b) = ends (ca_ctx a) \<Longrightarrow> end_counted ends a b"
  by (simp add: same_sources_def end_counted_def)

lemma process_frame_end_counted:
  assumes "counts_ends (ae_hooks env) ends" and "process_frame_with_hooks_and_metrics env f (a, out) = Some (b, out')"
  shows "end_counted ends a b"
  using process_frame_ends [OF assms] process_frame_frame [OF assms(2)] by (simp add: end_counted_same_sources)

lemma emit_end_counted:
  assumes "counts_ends (ae_hooks env) ends" and "emit_multi_packet_frame env f (a, out) = Some (b, out')"
  shows "end_counted ends a b"
  using process_frame_end_counted [OF assms(1), of "apply_multi_packet_correlation env a f" a out b out'] assms(2)
  by (simp add: emit_multi_packet_frame_def)

lemma after_low_end_counted: "end_counted ends a b \<Longrightarrow> end_counted ends a (after_low b)"
  by (simp add: end_counted_def after_low_def)

lemma multi_closed_end_counted:
  assumes "counts_ends (ae_hooks env) ends" and "is_multi_packet (ca_active_output a)"
    and "handle_multi_packet_closed env (a, st, out) = Some (a', st', out')"
  shows "end_counted ends a a'"
proof -
  obtain w cid where c: "close_multi_packet (ae_mpsc env) (ca_active_output a) = (w, cid)" by fastforce
  obtain t x where t: "hook_stream_end_frame (ae_hooks env) (ca_ctx a) = (t, x)" by fastforce
  have "ends (snd (hook_stream_end_frame (ae_hooks env) (ca_ctx a))) = ends (ca_ctx a)"
    using assms(1) by (simp add: counts_ends_def)
  then have x: "ends x = ends (ca_ctx a)" by (simp add: t)
  have e: "ends (hook_on_command_end (ae_hooks env) h) = Suc (ends h)" for h using assms(1) by (simp add: counts_ends_def)
  have "ends (ca_ctx a') = Suc (ends (ca_ctx a))"
  proof (cases t)
    case None
    with assms(3) c t x e show ?thesis by (auto simp: handle_multi_packet_closed_def Let_def)
  next
    case (Some f)
    with assms(3) c t obtain b where
      b: "emit_multi_packet_frame env f (a\<lparr>ca_active_output := w, ca_ctx := x\<rparr>, out) = Some (b, out')"
        "ca_ctx a' = hook_on_command_end (ae_hooks env) (ca_ctx b)"
      by (auto simp: handle_multi_packet_closed_def Let_def bind_eq_Some_conv after_low_def)
    have "ends (ca_ctx b) = ends x"
      using b(1) process_frame_ends [OF assms(1)] by (fastforce simp: emit_multi_packet_frame_def)
    with b(2) x e show ?thesis by simp
  qed
  moreover have "ca_active_output a \<noteq> OutputNone" using assms(2) by auto
  ultimately show ?thesis using handle_multi_packet_closed_Some [OF assms(3)] by (simp add: end_counted_def)
qed

lemma low_drain_end_counted:
  assumes "counts_ends (ae_hooks env) ends"
    and "try_opportunistic_low_drain env (a, st, out) = Some ((a', st', out'), d)"
  shows "end_counted ends a a'"
  using assms(2)
proof (cases rule: low_drain_cases)
  case (frame c c' f b o')
  have "end_counted ends a (a\<lparr>ca_low_rx := Some c'\<rparr>)" by (simp add: end_counted_def)
  from end_counted_trans [OF this process_frame_end_counted [OF assms(1) frame(3)]] frame(4) show ?thesis
    by (simp add: after_low_end_counted)
qed (simp_all add: end_counted_def)

lemma multi_drain_end_counted:
  assumes "counts_ends (ae_hooks env) ends"
    and "try_opportunistic_multi_drain env (a, st, out) = Some ((a', st', out'), d)"
  shows "end_counted ends a a'"
  using assms(2)
proof (cases rule: multi_drain_cases)
  case (frame ctx c c' f b o')
  have "end_counted ends a (a\<lparr>ca_active_output := OutputMultiPacket (ctx\<lparr>mpc_channel := Some c'\<rparr>)\<rparr>)"
    using frame(1) by (simp add: end_counted_def)
  from end_counted_trans [OF this emit_end_counted [OF assms(1) frame(4)]] frame(5) show ?thesis
    by (simp add: after_low_end_counted)
next
  case (gone ctx c c')
  have "end_counted ends a (a\<lparr>ca_active_output := OutputMultiPacket (ctx\<lparr>mpc_channel := Some c'\<rparr>)\<rparr>)"
    using gone(1) by (simp add: end_counted_def)
  from end_counted_trans [OF this multi_closed_end_counted [OF assms(1) _ gone(4)]] show ?thesis by simp
qed (simp_all add: end_counted_def)

lemma after_high_end_counted:
  assumes "counts_ends (ae_hooks env) ends" and "after_high env now (a, st, out) = Some (a', st', out')"
  shows "end_counted ends a a'"
proof -
  have start: "end_counted ends a b" if "end_counted ends (a\<lparr>ca_fairness := x\<rparr>) b" for x b
    using that by (simp add: end_counted_def)
  from assms(2) show ?thesis
  proof (cases rule: after_high_cases)
    case stay
    then show ?thesis by (simp add: end_counted_def)
  next
    case low
    show ?thesis by (rule start [OF low_drain_end_counted [OF assms(1) low(2)]])
  next
    case (multi cfg1 drained)
    obtain a1 st1 out1 where c: "cfg1 = (a1, st1, out1)" by (cases cfg1)
    from end_counted_trans [OF start [OF low_drain_end_counted [OF assms(1) multi(2) [unfolded c]]]
        multi_drain_end_counted [OF assms(1) multi(3) [unfolded c]]] show ?thesis .
  qed
qed

lemma queue_end_counted:
  assumes "counts_ends (ae_hooks env) ends" and "kind = QMulti \<Longrightarrow> is_multi_packet (ca_active_output a)"
    and "process_queue env now kind res (a, st, out) = Some (a', st', out')"
  shows "end_counted ends a a'"
proof (cases res)
  case None
  then show ?thesis using assms(2,3) multi_closed_end_counted [OF assms(1), of a st out a' st' out']
    by (cases kind)
       (auto simp: process_queue_def handle_empty_queue_def close_high_receiver_def close_low_receiver_def end_counted_def [of _ a "a\<lparr>ca_low_rx := None\<rparr>"]
         end_counted_def [of _ a "a\<lparr>ca_high_rx := None, ca_fairness := _\<rparr>"])
next
  case (Some f)
  then have "forward_queue_frame env now kind f (a, st, out) = Some (a', st', out')"
    using assms(3) by (simp add: process_queue_def)
  then show ?thesis
  proof (cases rule: forward_cases)
    case (forward b o')
    have b: "end_counted ends a b"
      using forward(3) process_frame_end_counted [OF assms(1), of f a out b o'] emit_end_counted [OF assms(1), of f a out b o']
      by (simp split: if_splits)
    show ?thesis
    proof (cases "kind = QHigh")
      case True
      then have "after_high env now (b, st, o') = Some (a', st', out')" using forward(4) by simp
      from end_counted_trans [OF b after_high_end_counted [OF assms(1) this]] show ?thesis .
    next
      case False
      then have "a' = after_low b" using forward(4) by (auto split: queue_kind.splits)
      with after_low_end_counted [OF b] show ?thesis by simp
    qed
  qed
qed


lemma response_end_counted:
  assumes "counts_ends (ae_hooks env) ends" and "ca_active_output a = OutputResponse s"
    and "process_response env res (a, st, out) = Some ((a', st', out'), Inr ())"
  shows "end_counted ends a a'"
proof -
  have e: "ends (hook_on_command_end (ae_hooks env) h) = Suc (ends h)" "ends (hook_handle_error (ae_hooks env) er h) = ends h" for h er
    using assms(1) by (simp_all add: counts_ends_def)
  show ?thesis
  proof (cases res)
    case None
    obtain t x where t: "hook_stream_end_frame (ae_hooks env) (ca_ctx a) = (t, x)" by fastforce
    have "ends (snd (hook_stream_end_frame (ae_hooks env) (ca_ctx a))) = ends (ca_ctx a)"
      using assms(1) by (simp add: counts_ends_def)
    then have x: "ends x = ends (ca_ctx a)" by (simp add: t)
    show ?thesis
    proof (cases t)
      case None': None
      from None None' t assms(2,3)
      have "a' = a\<lparr>ca_ctx := hook_on_command_end (ae_hooks env) x, ca_active_output := OutputNone\<rparr>"
        by (auto simp: process_response_def handle_response_def clear_response_def Let_def)
      then show ?thesis using x e assms(2) by (simp add: end_counted_def)
    next
      case (Some f)
      with None t assms(3) obtain b where
        p: "process_frame_with_hooks_and_metrics env f (a\<lparr>ca_ctx := x\<rparr>, out) = Some (b, out')" and
        a': "a' = (after_low (b\<lparr>ca_ctx := hook_on_command_end (ae_hooks env) (ca_ctx b)\<rparr>))
            \<lparr>ca_active_output := clear_response (ca_active_output b)\<rparr>"
        by (auto simp: process_response_def handle_response_def after_low_def Let_def bind_eq_Some_conv)
      have "ends (ca_ctx b) = ends x" using process_frame_ends [OF assms(1) p] by simp
      moreover have "ca_active_output b = OutputResponse s" "ca_shutdown b = ca_shutdown a"
        using process_frame_frame [OF p] assms(2) by (simp_all add: same_sources_def)
      ultimately show ?thesis using x e assms(2) by (simp add: a' after_low_def end_counted_def clear_response_def)
    qed
  next
    case (Some r)
    show ?thesis
    proof (cases r)
      case (Inr f)
      with Some assms(3) obtain b where p: "process_frame_with_hooks_and_metrics env f (a, out) = Some (b, out')"
        and a': "a' = after_low b"
        by (auto simp: process_response_def handle_response_def Let_def bind_eq_Some_conv)
      from process_frame_end_counted [OF assms(1) p] a' show ?thesis by (simp add: after_low_end_counted)
    next
      case (Inl er)
      with Some assms(2,3) e show ?thesis
        by (cases er) (auto simp: process_response_def handle_response_def clear_response_def Let_def end_counted_def)
    qed
  qed
qed

lemma next_event_end_counted:
  assumes "next_event env a st = (a', r)"
  shows "end_counted ends a a'"
  using assms
proof (cases rule: next_event_cases)
  case (outp hi lo w ev)
  from outp(4) show ?thesis
    by (cases rule: poll_output_Ready) (simp_all add: outp(5) end_counted_def)
next
  case (wait hi lo w)
  from wait(4) show ?thesis
    by (cases rule: poll_output_Pending) (auto simp: wait(5) end_counted_def)
qed (simp_all add: end_counted_def)

text \<open>The number of calls, relative to the start of the run.\<close>

definition ends_since :: "('h \<Rightarrow> nat) \<Rightarrow> ('c, 's, 'h) connection_actor \<Rightarrow> ('c, 's, 'h) connection_actor \<Rightarrow> bool" where
  "ends_since ends a0 a \<longleftrightarrow>
     (is_response (ca_active_output a) \<longrightarrow> is_response (ca_active_output a0)) \<and>
     (is_multi_packet (ca_active_output a) \<longrightarrow> is_multi_packet (ca_active_output a0)) \<and>
     (if ca_active_output a0 \<noteq> OutputNone \<and> ca_active_output a = OutputNone
      then ends (ca_ctx a) = Suc (ends (ca_ctx a0)) \<or>
           is_response (ca_active_output a0) \<and> ca_shutdown a \<and> ends (ca_ctx a) = ends (ca_ctx a0)
      else ends (ca_ctx a) = ends (ca_ctx a0))"

lemma ends_since_step: "ends_since ends a0 a \<Longrightarrow> end_counted ends a b \<Longrightarrow> ends_since ends a0 b"
  by (cases "ca_active_output a0"; cases "ca_active_output a"; cases "ca_active_output b")
     (auto simp: ends_since_def end_counted_def)

lemma shutdown_ends_since:
  assumes "counts_ends (ae_hooks env) ends" and "ca_shutdown a" and "ends_since ends a0 a"
    and "process_shutdown env (a, st) = (a', st')"
  shows "ends_since ends a0 a'"
proof -
  have "ends (hook_on_command_end (ae_hooks env) h) = Suc (ends h)" for h using assms(1) by (simp add: counts_ends_def)
  with assms(2-4) show ?thesis
    by (cases "ca_active_output a"; cases "ca_active_output a0")
       (auto simp: ends_since_def process_shutdown_def start_shutdown_def output_shutdown_def Let_def)
qed

lemma turn_ends_since:
  assumes "counts_ends (ae_hooks env) ends" and "ends_since ends a0 a" and "poll_sources env now a st out = Running a' st' out'"
  shows "ends_since ends a0 a'"
proof -
  obtain a1 r where n: "next_event env a st = (a1, r)" by fastforce
  have one: "ends_since ends a0 a1" by (rule ends_since_step [OF assms(2) next_event_end_counted [OF n]])
  show ?thesis
  proof (cases r)
    case Pending
    with n one assms(3) show ?thesis by (simp add: poll_sources_def)
  next
    case (Ready ev)
    have d: "dispatch_event env now ev (a1, st, out) = Some ((a', st', out'), Inr ())"
      using assms(3) n Ready by (auto simp: poll_sources_def split: option.splits sum.splits)
    have src: "event_source a1 st ev" using next_event_source n Ready by blast
    show ?thesis
    proof (cases "ev = EvShutdown")
      case True
      have "ca_shutdown a1" using n [unfolded Ready True]
      proof (cases rule: next_event_cases)
        case (outp hi lo w e)
        from outp(4,6) show ?thesis by (cases rule: poll_output_Ready) simp_all
      qed (simp_all split: if_splits)
      moreover have "process_shutdown env (a1, st) = (a', st')" using d True by (auto simp: dispatch_event_def split: prod.splits)
      ultimately show ?thesis using shutdown_ends_since [OF assms(1) _ one] by blast
    next
      case False
      have "end_counted ends a1 a'"
      proof (cases ev)
        case (EvResponse res)
        then obtain s where "ca_active_output a1 = OutputResponse s"
          using src by (auto simp: event_source_def is_response_def split: active_output.splits)
        from response_end_counted [OF assms(1) this] d EvResponse show ?thesis by (auto simp: dispatch_event_def)
      qed (use d src False queue_end_counted [OF assms(1)] in \<open>fastforce simp: dispatch_event_def event_source_def\<close>)+
      with one show ?thesis by (rule ends_since_step)
    qed
  qed
qed


lemma run_ends_since:
  assumes "counts_ends (ae_hooks env) ends" and "reachable (run_begins a0) (actor_step env v) r"
  shows "case r of Running a st out \<Rightarrow> ends_since ends a0 a | _ \<Rightarrow> True"
  using assms(2)
proof (induction rule: reachable.induct)
  case (start r)
  then show ?case by (simp add: run_begins_def run_start_def ends_since_def)
next
  case (move r e r')
  from move.hyps(2) show ?case
  proof cases
    case (turn now)
    show ?thesis
    proof (cases r)
      case (Running a st out)
      show ?thesis
      proof (cases "run_turn env now r")
        case r': (Running a' st' out')
        then have "poll_sources env now a st out = Running a' st' out'" using Running by (simp split: if_splits)
        moreover have "ends_since ends a0 a" using move.IH Running by simp
        ultimately show ?thesis using turn_ends_since [OF assms(1)] turn r' by simp
      qed (simp_all add: turn)
    qed (simp_all add: turn)
  qed (use move.IH in \<open>auto simp: ends_since_def\<close>)
qed

text \<open>
  C22: The end of a command is announced once. Whatever happens during a run, \<open>on_command_end\<close> has
  not been called while the output the run started with is still active, or when there was none;
  it has been called exactly once when a multi-packet channel is finished, also by shutdown, and
  exactly once when a response stream is finished, except that a stream abandoned by shutdown
  may end without a call.
\<close>

theorem command_end_once:
  assumes "counts_ends (ae_hooks env) ends" and "reachable (run_begins a0) (actor_step env v) (Running a st out)"
  shows "(ca_active_output a0 = OutputNone \<or> ca_active_output a \<noteq> OutputNone \<longrightarrow> ends (ca_ctx a) = ends (ca_ctx a0)) \<and>
    (is_multi_packet (ca_active_output a0) \<and> ca_active_output a = OutputNone \<longrightarrow>
       ends (ca_ctx a) = ends (ca_ctx a0) + 1) \<and>
    (is_response (ca_active_output a0) \<and> ca_active_output a = OutputNone \<longrightarrow>
       ends (ca_ctx a) = ends (ca_ctx a0) + 1 \<or> ca_shutdown a \<and> ends (ca_ctx a) = ends (ca_ctx a0))"
proof -
  have "ends_since ends a0 a" using run_ends_since [OF assms] by simp
  then show ?thesis by (cases "ca_active_output a0") (auto simp: ends_since_def split: if_splits)
qed

theorem command_end_once_witness:
  "\<exists>a st. reachable (run_begins (fst (set_multi_packet (Some (sample_chan [5] False))
         (sample_actor (sample_chan [] True) (sample_chan [] True)))))
       (actor_step sample_env (\<lambda>c. c)) (Running a st [5, 99]) \<and> ca_ctx a = 1"
proof -
  let ?a = "fst (set_multi_packet (Some (sample_chan [5] False)) (sample_actor (sample_chan [] True) (sample_chan [] True)))"
  let ?t = "run_turn sample_env (0, 0)"
  note defs = sample_env_def sample_chan_def sample_actor_def actor_new_def actor_with_hooks_def hook_on_connection_setup_def
    protocol_hooks_default_def set_multi_packet_def set_multi_packet_with_correlation_def multi_packet_install_def
    multi_packet_context_new_def
  note eval = run_start_def actor_state_new_def is_done_def is_active_def is_shutting_down_def
    poll_sources_def next_event_def compute_availability_def available_output_def poll_queue_def poll_output_def
    dispatch_event_def process_queue_def handle_empty_queue_def forward_queue_frame_def should_emit_multi_packet_frame_def
    emit_multi_packet_frame_def apply_multi_packet_correlation_def multi_packet_mut_def is_stamping_enabled_def
    process_frame_with_hooks_and_metrics_def push_frame_def hook_before_send_def after_low_def
    handle_multi_packet_closed_def close_multi_packet_def hook_stream_end_frame_def hook_on_command_end_def
    reference_mpsc_def chan_recv_def chan_live_def mark_closed_def Let_def
  have ready: "actor_ready ?a"
    by (simp add: defs actor_ready_def output_ok_def is_stamping_enabled_def)
  obtain a st where run: "?t (?t (run_start ?a [])) = Running a st [5, 99]" "ca_active_output a = OutputNone"
    by (simp add: defs eval)
  have "reachable (run_begins ?a) (actor_step sample_env (\<lambda>c. c)) (run_start ?a [])"
    by (rule reachable.start) (simp add: run_begins_def ready)
  from reachable.move [OF reachable.move [OF this actor_step.turn] actor_step.turn]
  have reach: "reachable (run_begins ?a) (actor_step sample_env (\<lambda>c. c)) (Running a st [5, 99])"
    by (simp only: run(1) [symmetric])
  have c: "counts_ends (ae_hooks sample_env) (\<lambda>n. n)"
    by (simp add: counts_ends_def sample_env_def hook_on_command_end_def hook_before_send_def hook_handle_error_def
        hook_stream_end_frame_def protocol_hooks_default_def)
  have "is_multi_packet (ca_active_output ?a)" "ca_ctx ?a = 0" by (simp_all add: defs)
  with command_end_once [OF c reach] run(2) reach show ?thesis by auto
qed

end
