(* ===== verification/Connection_Model.thy ===== *)
theory Connection_Model
  imports Prelude
begin

text \<open>
  The connection model of the verification crate
  (\<open>crates/wireframe-verification/src/connection_model\<close>): its state (\<open>state.rs\<close>), its actions
  (\<open>action.rs\<close>), its transitions (\<open>model.rs\<close>) and the predicates it is checked for
  (\<open>properties.rs\<close>). The crate hands the model to Stateright, which explores it up to a bound on
  the number of steps; here the invariant is proved without a bound, and the bound from which the
  reachability predicates are all met is determined.
\<close>

section \<open>State\<close>

datatype active_output = Idle | Response | MultiPacket

record pending_outputs =
  high_priority_queued :: bool
  low_priority_queued :: bool
  fairness_allows_low :: bool

record shutdown_state =
  requested :: bool
  during_output :: bool

record emission_evidence =
  high_priority :: bool
  low_priority :: bool

record completed_outputs =
  response_completed :: bool
  multi_packet_completed :: bool

record connection_state =
  steps :: u8
  pending :: pending_outputs
  output_active :: active_output
  shutdown :: shutdown_state
  emissions :: emission_evidence
  completed :: completed_outputs
  multi_packet_terminal_count :: u8

definition connection_state_default :: connection_state where
  "connection_state_default =
     \<lparr>steps = 0,
      pending = \<lparr>high_priority_queued = False, low_priority_queued = False, fairness_allows_low = False\<rparr>,
      output_active = Idle,
      shutdown = \<lparr>requested = False, during_output = False\<rparr>,
      emissions = \<lparr>high_priority = False, low_priority = False\<rparr>,
      completed = \<lparr>response_completed = False, multi_packet_completed = False\<rparr>,
      multi_packet_terminal_count = 0\<rparr>"

definition is_output_idle :: "connection_state \<Rightarrow> bool" where
  "is_output_idle s \<longleftrightarrow> output_active s = Idle"

definition can_install_output :: "connection_state \<Rightarrow> bool" where
  "can_install_output s \<longleftrightarrow> \<not> requested (shutdown s) \<and> is_output_idle s"

definition can_emit_low_priority :: "connection_state \<Rightarrow> bool" where
  "can_emit_low_priority s \<longleftrightarrow> low_priority_queued (pending s) \<and>
     (\<not> high_priority_queued (pending s) \<or> fairness_allows_low (pending s))"

section \<open>Actions\<close>

datatype connection_action =
  EnqueueHigh | EnqueueLow | InstallResponse | InstallMultiPacket | EmitQueued | EmitActiveFrame |
  CompleteActiveOutput | Shutdown | TickFairness

section \<open>Transitions\<close>

record placeholder_connection_model =
  max_steps :: u8

definition model_default :: placeholder_connection_model where
  "model_default = \<lparr>max_steps = 6\<rparr>"

definition model_new :: "u8 \<Rightarrow> placeholder_connection_model" where
  "model_new n = \<lparr>max_steps = n\<rparr>"

text \<open>\<open>u8::saturating_add(1)\<close>\<close>

definition saturating_succ :: "u8 \<Rightarrow> u8" where
  "saturating_succ n = (if n = 255 then 255 else n + 1)"

definition stepped :: "connection_state \<Rightarrow> connection_state" where
  "stepped s = s\<lparr>steps := saturating_succ (steps s)\<rparr>"

definition apply_if ::
    "connection_state \<Rightarrow> bool \<Rightarrow> (connection_state \<Rightarrow> connection_state) \<Rightarrow> connection_state option" where
  "apply_if s enabled mutate = (if \<not> enabled then None else Some (mutate (stepped s)))"

definition apply_enqueue_high :: "connection_state \<Rightarrow> connection_state option" where
  "apply_enqueue_high s = apply_if s (\<not> high_priority_queued (pending s))
     (\<lambda>t. t\<lparr>pending := (pending t)\<lparr>high_priority_queued := True\<rparr>\<rparr>)"

definition apply_enqueue_low :: "connection_state \<Rightarrow> connection_state option" where
  "apply_enqueue_low s = apply_if s (\<not> low_priority_queued (pending s))
     (\<lambda>t. t\<lparr>pending := (pending t)\<lparr>low_priority_queued := True\<rparr>\<rparr>)"

definition apply_install_response :: "connection_state \<Rightarrow> connection_state option" where
  "apply_install_response s = apply_if s (can_install_output s) (\<lambda>t. t\<lparr>output_active := Response\<rparr>)"

definition apply_install_multi_packet :: "connection_state \<Rightarrow> connection_state option" where
  "apply_install_multi_packet s = apply_if s (can_install_output s)
     (\<lambda>t. t\<lparr>output_active := MultiPacket, multi_packet_terminal_count := 0\<rparr>)"

definition apply_emit_high :: "connection_state \<Rightarrow> connection_state option" where
  "apply_emit_high s = apply_if s (high_priority_queued (pending s))
     (\<lambda>t. t\<lparr>pending := (pending t)\<lparr>high_priority_queued := False, fairness_allows_low := True\<rparr>,
            emissions := (emissions t)\<lparr>high_priority := True\<rparr>\<rparr>)"

definition apply_emit_low :: "connection_state \<Rightarrow> connection_state option" where
  "apply_emit_low s = apply_if s (can_emit_low_priority s)
     (\<lambda>t. t\<lparr>pending := (pending t)\<lparr>low_priority_queued := False, fairness_allows_low := False\<rparr>,
            emissions := (emissions t)\<lparr>low_priority := True\<rparr>\<rparr>)"

definition apply_emit_active_frame :: "connection_state \<Rightarrow> connection_state option" where
  "apply_emit_active_frame s = apply_if s (\<not> is_output_idle s)
     (\<lambda>t. t\<lparr>shutdown := (shutdown t)\<lparr>during_output := requested (shutdown s)\<rparr>\<rparr>)"

definition apply_complete_response :: "connection_state \<Rightarrow> connection_state option" where
  "apply_complete_response s = apply_if s (output_active s = Response)
     (\<lambda>t. t\<lparr>output_active := Idle, completed := (completed t)\<lparr>response_completed := True\<rparr>\<rparr>)"

definition apply_complete_multi_packet :: "connection_state \<Rightarrow> connection_state option" where
  "apply_complete_multi_packet s = apply_if s (output_active s = MultiPacket)
     (\<lambda>t. t\<lparr>output_active := Idle, completed := (completed t)\<lparr>multi_packet_completed := True\<rparr>,
            multi_packet_terminal_count := saturating_succ (multi_packet_terminal_count t)\<rparr>)"

definition apply_shutdown :: "connection_state \<Rightarrow> connection_state option" where
  "apply_shutdown s = apply_if s (\<not> requested (shutdown s))
     (\<lambda>t. t\<lparr>shutdown := \<lparr>requested = True, during_output = \<not> is_output_idle s\<rparr>\<rparr>)"

definition apply_tick_fairness :: "connection_state \<Rightarrow> connection_state option" where
  "apply_tick_fairness s = apply_if s (low_priority_queued (pending s))
     (\<lambda>t. t\<lparr>pending := (pending t)\<lparr>fairness_allows_low := True\<rparr>\<rparr>)"

definition init_states :: "placeholder_connection_model \<Rightarrow> connection_state list" where
  "init_states m = [connection_state_default]"

definition actions :: "placeholder_connection_model \<Rightarrow> connection_state \<Rightarrow> connection_action list" where
  "actions m s =
     [EnqueueHigh, EnqueueLow, InstallResponse, InstallMultiPacket, EmitQueued, EmitActiveFrame,
      CompleteActiveOutput, Shutdown, TickFairness]"

text \<open>\<open>Option::or_else\<close>\<close>

definition or_else :: "'a option \<Rightarrow> 'a option \<Rightarrow> 'a option" where
  "or_else x y = (case x of None \<Rightarrow> y | Some a \<Rightarrow> Some a)"

definition next_state ::
    "placeholder_connection_model \<Rightarrow> connection_state \<Rightarrow> connection_action \<Rightarrow> connection_state option" where
  "next_state m s action =
     (case action of
        EnqueueHigh \<Rightarrow> apply_enqueue_high s
      | EnqueueLow \<Rightarrow> apply_enqueue_low s
      | InstallResponse \<Rightarrow> apply_install_response s
      | InstallMultiPacket \<Rightarrow> apply_install_multi_packet s
      | EmitQueued \<Rightarrow> or_else (apply_emit_high s) (apply_emit_low s)
      | EmitActiveFrame \<Rightarrow> apply_emit_active_frame s
      | CompleteActiveOutput \<Rightarrow> or_else (apply_complete_response s) (apply_complete_multi_packet s)
      | Shutdown \<Rightarrow> apply_shutdown s
      | TickFairness \<Rightarrow> apply_tick_fairness s)"

definition within_boundary :: "placeholder_connection_model \<Rightarrow> connection_state \<Rightarrow> bool" where
  "within_boundary m s \<longleftrightarrow> steps s \<le> max_steps m"

section \<open>Predicates\<close>

definition multi_packet_terminator_is_single :: "placeholder_connection_model \<Rightarrow> connection_state \<Rightarrow> bool" where
  "multi_packet_terminator_is_single m s \<longleftrightarrow> multi_packet_terminal_count s \<le> 1"

definition high_priority_progress :: "placeholder_connection_model \<Rightarrow> connection_state \<Rightarrow> bool" where
  "high_priority_progress m s \<longleftrightarrow> high_priority (emissions s)"

definition low_priority_progress :: "placeholder_connection_model \<Rightarrow> connection_state \<Rightarrow> bool" where
  "low_priority_progress m s \<longleftrightarrow> low_priority (emissions s)"

definition response_completion :: "placeholder_connection_model \<Rightarrow> connection_state \<Rightarrow> bool" where
  "response_completion m s \<longleftrightarrow> response_completed (completed s)"

definition multi_packet_completion :: "placeholder_connection_model \<Rightarrow> connection_state \<Rightarrow> bool" where
  "multi_packet_completion m s \<longleftrightarrow> multi_packet_completed (completed s)"

definition shutdown_races_active_output :: "placeholder_connection_model \<Rightarrow> connection_state \<Rightarrow> bool" where
  "shutdown_races_active_output m s \<longleftrightarrow> during_output (shutdown s)"

text \<open>
  \<open>Property::always\<close> and \<open>Property::sometimes\<close> pair a name with a predicate; the names are left out.
\<close>

datatype model_property =
  Always "placeholder_connection_model \<Rightarrow> connection_state \<Rightarrow> bool"
| Sometimes "placeholder_connection_model \<Rightarrow> connection_state \<Rightarrow> bool"

definition properties :: "model_property list" where
  "properties =
     [Always multi_packet_terminator_is_single,
      Sometimes high_priority_progress,
      Sometimes low_priority_progress,
      Sometimes response_completion,
      Sometimes multi_packet_completion,
      Sometimes shutdown_races_active_output]"

section \<open>Steps\<close>

definition model_init :: "placeholder_connection_model \<Rightarrow> connection_state \<Rightarrow> bool" where
  "model_init m s \<longleftrightarrow> s \<in> set (init_states m)"

definition model_step ::
    "placeholder_connection_model \<Rightarrow> connection_state \<Rightarrow> connection_action \<Rightarrow> connection_state \<Rightarrow> bool" where
  "model_step m s a t \<longleftrightarrow> a \<in> set (actions m s) \<and> next_state m s a = Some t"

text \<open>The checker explores the states inside the boundary only.\<close>

definition explored :: "placeholder_connection_model \<Rightarrow> connection_state \<Rightarrow> bool" where
  "explored m = reachable (\<lambda>s. model_init m s \<and> within_boundary m s)
     (\<lambda>s a t. model_step m s a t \<and> within_boundary m t)"

fun property_holds :: "placeholder_connection_model \<Rightarrow> model_property \<Rightarrow> bool" where
  "property_holds m (Always p) \<longleftrightarrow> (\<forall>s. explored m s \<longrightarrow> p m s)"
| "property_holds m (Sometimes p) \<longleftrightarrow> (\<exists>s. explored m s \<and> p m s)"

lemmas transition_defs =
  apply_enqueue_high_def apply_enqueue_low_def apply_install_response_def apply_install_multi_packet_def
  apply_emit_high_def apply_emit_low_def apply_emit_active_frame_def apply_complete_response_def
  apply_complete_multi_packet_def apply_shutdown_def apply_tick_fairness_def apply_if_def stepped_def
  can_install_output_def can_emit_low_priority_def is_output_idle_def or_else_def

lemmas progress_defs =
  high_priority_progress_def low_priority_progress_def response_completion_def multi_packet_completion_def
  shutdown_races_active_output_def

lemma all_actions: "a \<in> set (actions m s)"
  by (cases a) (simp_all add: actions_def)

lemma model_step_iff: "model_step m s a t \<longleftrightarrow> next_state m s a = Some t"
  by (simp add: model_step_def all_actions)

lemma next_state_steps:
  assumes "next_state m s a = Some t"
  shows "steps t = saturating_succ (steps s)"
  using assms by (cases a) (auto simp: next_state_def transition_defs split: if_splits option.splits)

lemma saturating_succ_small:
  "saturating_succ n \<noteq> 0" "saturating_succ n = 1 \<longleftrightarrow> n = 0"
proof -
  have "n + 1 \<noteq> 0" if "n \<noteq> 255"
  proof
    assume "n + 1 = 0"
    then have "n = - 1" by (simp add: eq_neg_iff_add_eq_0)
    with that show False by simp
  qed
  then show "saturating_succ n \<noteq> 0" by (simp add: saturating_succ_def)
  show "saturating_succ n = 1 \<longleftrightarrow> n = 0" by (auto simp: saturating_succ_def)
qed

fun run_actions ::
    "placeholder_connection_model \<Rightarrow> connection_action list \<Rightarrow> connection_state \<Rightarrow> connection_state option" where
  "run_actions m [] s = Some s"
| "run_actions m (a # as) s =
     (case next_state m s a of None \<Rightarrow> None | Some t \<Rightarrow> run_actions m as t)"

lemma run_actions_reachable:
  assumes "reachable init (model_step m) s" and "run_actions m as s = Some t"
  shows "reachable init (model_step m) t"
  using assms
proof (induction as arbitrary: s)
  case (Cons a as)
  then obtain u where u: "next_state m s a = Some u" "run_actions m as u = Some t"
    by (auto split: option.splits)
  have "reachable init (model_step m) u"
    using Cons.prems(1) u(1) [folded model_step_iff] by (rule reachable.move)
  then show ?case using u(2) by (rule Cons.IH)
qed simp

section \<open>The invariant\<close>

definition model_inv :: "connection_state \<Rightarrow> bool" where
  "model_inv s \<longleftrightarrow> multi_packet_terminal_count s \<le> 1 \<and>
     (output_active s = MultiPacket \<longrightarrow> multi_packet_terminal_count s = 0) \<and>
     (multi_packet_terminal_count s = 1 \<longrightarrow> multi_packet_completed (completed s)) \<and>
     (during_output (shutdown s) \<longrightarrow> requested (shutdown s))"

lemma model_inv_step:
  assumes "model_inv s" and "next_state m s a = Some t"
  shows "model_inv t"
  using assms
  by (cases a) (auto simp: model_inv_def next_state_def transition_defs saturating_succ_def split: if_splits)

interpretation checked: transition_system "model_init m" "model_step m" model_inv for m
proof unfold_locales
  show "model_init m s \<Longrightarrow> model_inv s" for s
    by (simp add: model_init_def init_states_def model_inv_def connection_state_default_def)
  show "model_inv s \<Longrightarrow> model_step m s a t \<Longrightarrow> model_inv t" for s a t
    using model_inv_step by (simp add: model_step_iff)
qed

lemma explored_reachable:
  assumes "explored m s" shows "reachable (model_init m) (model_step m) s"
  using assms unfolding explored_def
  by (induction rule: reachable.induct) (auto intro: reachable.intros)

lemma idle_after_shutdown_step:
  assumes "next_state m s a = Some t" and "requested (shutdown s)" and "is_output_idle s"
  shows "requested (shutdown t) \<and> is_output_idle t"
  using assms by (cases a) (auto simp: next_state_def transition_defs split: if_splits)

interpretation closing: transition_system
  "\<lambda>s. s = s0 \<and> requested (shutdown s) \<and> is_output_idle s" "model_step m" "\<lambda>s. requested (shutdown s) \<and> is_output_idle s"
  for s0 m
proof unfold_locales
  fix s a t
  assume "requested (shutdown s) \<and> is_output_idle s" and "model_step m s a t"
  then show "requested (shutdown t) \<and> is_output_idle t"
    using idle_after_shutdown_step by (simp add: model_step_iff)
qed simp

text \<open>
  C36: One terminator, without a bound on the steps. In every state the model can reach, at most
  one terminator has been appended to the multi-packet stream, none while the stream is active, and
  one only if a stream was completed; a recorded shutdown race means that shutdown was requested.
  From a state in which shutdown was requested and no output is active, no path leads to a state
  with an active output.
\<close>

theorem model_terminator_single:
  assumes "reachable (model_init m) (model_step m) s"
  shows "multi_packet_terminator_is_single m s \<and>
    (output_active s = MultiPacket \<longrightarrow> multi_packet_terminal_count s = 0) \<and>
    (multi_packet_terminal_count s = 1 \<longrightarrow> multi_packet_completion m s) \<and>
    (shutdown_races_active_output m s \<longrightarrow> requested (shutdown s)) \<and>
    (requested (shutdown s) \<and> is_output_idle s \<longrightarrow>
       (\<forall>t. reachable (\<lambda>x. x = s) (model_step m) t \<longrightarrow> is_output_idle t))"
proof -
  have "is_output_idle t"
    if "requested (shutdown s)" "is_output_idle s" "reachable (\<lambda>x. x = s) (model_step m) t" for t
  proof -
    have "(\<lambda>x. x = s) = (\<lambda>x. x = s \<and> requested (shutdown x) \<and> is_output_idle x)" using that(1,2) by auto
    then show ?thesis using closing.inv_reachable [of s m t] that(3) by simp
  qed
  moreover have "model_inv s" using assms by (rule checked.inv_reachable)
  ultimately show ?thesis
    unfolding model_inv_def multi_packet_terminator_is_single_def multi_packet_completion_def
      shutdown_races_active_output_def by blast
qed

theorem model_terminator_single_witness:
  "\<exists>s. run_actions model_default [InstallMultiPacket, CompleteActiveOutput, Shutdown] connection_state_default = Some s \<and>
     multi_packet_terminal_count s = 1 \<and> multi_packet_terminator_is_single model_default s \<and>
     (\<forall>t. reachable (\<lambda>x. x = s) (model_step model_default) t \<longrightarrow> is_output_idle t)"
proof -
  obtain s where s: "run_actions model_default [InstallMultiPacket, CompleteActiveOutput, Shutdown] connection_state_default = Some s"
    "multi_packet_terminal_count s = 1" "requested (shutdown s)" "is_output_idle s"
    by (simp add: next_state_def transition_defs connection_state_default_def saturating_succ_def)
  have "reachable (model_init model_default) (model_step model_default) connection_state_default"
    by (rule reachable.start) (simp add: model_init_def init_states_def)
  then have "reachable (model_init model_default) (model_step model_default) s"
    using s(1) by (rule run_actions_reachable)
  from model_terminator_single [OF this] show ?thesis using s by blast
qed

section \<open>The bound\<close>

definition early_inv :: "placeholder_connection_model \<Rightarrow> connection_state \<Rightarrow> bool" where
  "early_inv m s \<longleftrightarrow> (steps s = 0 \<longrightarrow> s = connection_state_default) \<and>
     (steps s = 1 \<longrightarrow> (\<exists>a. next_state m connection_state_default a = Some s))"

lemma early_inv_reachable:
  assumes "reachable (model_init m) (model_step m) s"
  shows "early_inv m s"
  using assms
proof (induction rule: reachable.induct)
  case (start s)
  then show ?case by (auto simp: model_init_def init_states_def early_inv_def connection_state_default_def)
next
  case (move s a t)
  from move(2) have "next_state m s a = Some t" by (simp add: model_step_iff)
  moreover from this have "steps t = saturating_succ (steps s)" by (rule next_state_steps)
  ultimately show ?case using move.IH by (auto simp: early_inv_def saturating_succ_small)
qed

lemma first_step_no_progress:
  assumes "next_state m connection_state_default a = Some s"
  shows "\<not> high_priority (emissions s)"
  using assms
  by (cases a) (auto simp: next_state_def transition_defs connection_state_default_def)

lemma explored_path:
  assumes "explored m s" and "next_state m s a = Some t" and "within_boundary m t"
  shows "explored m t"
  using assms unfolding explored_def model_step_iff by (blast intro: reachable.move)

lemma explored_start: "explored m connection_state_default"
  unfolding explored_def
  by (rule reachable.start)
    (simp add: model_init_def init_states_def within_boundary_def connection_state_default_def)

text \<open>Two actions from the start are enough for every predicate.\<close>

lemma explored_two:
  assumes "2 \<le> max_steps m"
    and "next_state m connection_state_default a = Some s" and "next_state m s b = Some t"
  shows "explored m t"
proof -
  have "steps s = 1" "steps t = 2"
    using assms(2,3) [THEN next_state_steps] by (simp_all add: connection_state_default_def saturating_succ_def)
  moreover have "(1 :: u8) \<le> max_steps m" by (rule order.trans [OF _ assms(1)]) simp
  ultimately show ?thesis
    using explored_path [OF explored_path [OF explored_start assms(2)] assms(3)] assms(1)
    by (simp add: within_boundary_def)
qed

lemma two_steps_progress:
  assumes "2 \<le> max_steps m"
    and "p = high_priority_progress \<and> a = EnqueueHigh \<and> b = EmitQueued \<or>
      p = low_priority_progress \<and> a = EnqueueLow \<and> b = EmitQueued \<or>
      p = response_completion \<and> a = InstallResponse \<and> b = CompleteActiveOutput \<or>
      p = multi_packet_completion \<and> a = InstallMultiPacket \<and> b = CompleteActiveOutput \<or>
      p = shutdown_races_active_output \<and> a = InstallResponse \<and> b = Shutdown"
  shows "\<exists>s. explored m s \<and> p m s"
proof -
  obtain s t where "next_state m connection_state_default a = Some s" "next_state m s b = Some t" "p m t"
    using assms(2)
    by (fastforce simp: next_state_def transition_defs connection_state_default_def progress_defs)
  then show ?thesis using explored_two [OF assms(1)] by blast
qed

text \<open>
  The bound of the checker. Exploring the states inside the boundary finds the \<open>always\<close>
  property and all five \<open>sometimes\<close> properties to hold exactly when the bound is at least two
  steps, so the default of six steps is enough.
\<close>

lemma checker_bound_exact:
  "list_all (property_holds m) properties \<longleftrightarrow> 2 \<le> max_steps m"
proof
  assume "list_all (property_holds m) properties"
  then obtain s where s: "explored m s" "high_priority (emissions s)"
    by (auto simp: properties_def high_priority_progress_def)
  have inv: "early_inv m s" using explored_reachable [OF s(1)] by (rule early_inv_reachable)
  have "steps s \<noteq> 0" using inv s(2) by (auto simp: early_inv_def connection_state_default_def)
  moreover have "steps s \<noteq> 1" using inv s(2) first_step_no_progress by (auto simp: early_inv_def)
  ultimately have "2 \<le> steps s" by unat_arith
  moreover have "within_boundary m s" using s(1) unfolding explored_def by cases auto
  ultimately show "2 \<le> max_steps m" by (simp add: within_boundary_def)
next
  assume b: "2 \<le> max_steps m"
  have "property_holds m (Always multi_packet_terminator_is_single)"
    using checked.inv_reachable [OF explored_reachable]
    by (auto simp: model_inv_def multi_packet_terminator_is_single_def)
  then show "list_all (property_holds m) properties"
    by (simp add: properties_def) (intro conjI; rule two_steps_progress [OF b]; blast)
qed

section \<open>Fairness\<close>

definition emit_strict_priority :: "connection_state \<Rightarrow> connection_state option" where
  "emit_strict_priority s =
     (if high_priority_queued (pending s)
      then Some ((stepped s)\<lparr>pending := (pending s)\<lparr>high_priority_queued := False, fairness_allows_low := True\<rparr>,
        emissions := (emissions s)\<lparr>high_priority := True\<rparr>\<rparr>)
      else if low_priority_queued (pending s)
      then Some ((stepped s)\<lparr>pending := (pending s)\<lparr>low_priority_queued := False, fairness_allows_low := False\<rparr>,
        emissions := (emissions s)\<lparr>low_priority := True\<rparr>\<rparr>)
      else None)"

definition starvation_round :: "connection_action list" where
  "starvation_round = [EnqueueHigh, EmitQueued]"

lemma starvation_rounds:
  assumes "low_priority_queued (pending s)" and "\<not> high_priority_queued (pending s)"
  shows "\<exists>t. run_actions m (concat (replicate n starvation_round)) s = Some t \<and>
    low_priority_queued (pending t) \<and> low_priority (emissions t) = low_priority (emissions s) \<and>
    (0 < n \<longrightarrow> fairness_allows_low (pending t))"
  using assms
proof (induction n arbitrary: s)
  case 0
  then show ?case by simp
next
  case (Suc n)
  obtain t where t: "run_actions m starvation_round s = Some t" "low_priority_queued (pending t)"
    "\<not> high_priority_queued (pending t)" "low_priority (emissions t) = low_priority (emissions s)"
    "fairness_allows_low (pending t)"
    using Suc.prems by (auto simp: starvation_round_def next_state_def transition_defs)
  have "run_actions m (starvation_round @ as) s = run_actions m as t" for as
    using t(1) by (auto simp: starvation_round_def split: option.splits)
  then show ?case using Suc.IH [OF t(2,3)] t by (cases n) auto
qed

text \<open>
  C37: Fairness plays no part. \<open>EmitQueued\<close> is the strict-priority rule: it emits the high-priority
  frame if there is one and the low-priority frame only otherwise, and the fairness permission,
  whatever set it, makes no difference to its result. So however long a low-priority frame has
  waited, and although every round grants it permission, rounds of a new high-priority frame and
  an emission never let it out.
\<close>

theorem model_emission_strict:
  assumes "low_priority_queued (pending s)" and "\<not> high_priority_queued (pending s)"
  shows "(\<forall>x. next_state m x EmitQueued = emit_strict_priority x \<and>
      (\<forall>f. next_state m (x\<lparr>pending := (pending x)\<lparr>fairness_allows_low := f\<rparr>\<rparr>) EmitQueued =
        next_state m x EmitQueued)) \<and>
    (\<forall>n. \<exists>t. run_actions m (concat (replicate n starvation_round)) s = Some t \<and>
      low_priority_queued (pending t) \<and> low_priority (emissions t) = low_priority (emissions s) \<and>
      (0 < n \<longrightarrow> fairness_allows_low (pending t)))"
proof -
  have "next_state m x EmitQueued = emit_strict_priority x" for x
    by (simp add: next_state_def transition_defs emit_strict_priority_def)
  moreover have "emit_strict_priority (x\<lparr>pending := (pending x)\<lparr>fairness_allows_low := f\<rparr>\<rparr>) = emit_strict_priority x"
    for x f by (simp add: emit_strict_priority_def stepped_def)
  ultimately show ?thesis using starvation_rounds [OF assms] by simp
qed

theorem model_emission_strict_witness:
  "\<exists>s t. run_actions model_default [EnqueueLow] connection_state_default = Some s \<and>
     run_actions model_default (concat (replicate 40 starvation_round)) s = Some t \<and>
     low_priority_queued (pending t) \<and> \<not> low_priority (emissions t) \<and> fairness_allows_low (pending t)"
proof -
  obtain s where s: "run_actions model_default [EnqueueLow] connection_state_default = Some s"
    "low_priority_queued (pending s)" "\<not> high_priority_queued (pending s)" "\<not> low_priority (emissions s)"
    by (simp add: next_state_def transition_defs connection_state_default_def)
  from model_emission_strict [OF s(2,3), of model_default, THEN conjunct2, THEN spec, of 40]
  show ?thesis using s by auto
qed

end
