(* ===== verification/Decimal_Text.thy ===== *)
theory Decimal_Text
  imports Prelude
begin

text \<open>
  Text as bytes: the UTF-8 validity that \<open>str::from_utf8\<close> checks, decimal numerals, and
  \<open>str::parse::<i64>\<close>, all of the standard library. The numerals that the \<open>itoa\<close> crate writes are
  the argument \<open>it :: itoa_lib\<close> of the definitions that use it; \<open>itoa_documented\<close> says that they are
  the decimal numerals. The lemmas show that numerals are valid text and are parsed back, and
  that no other text of the same value is shorter.
\<close>

type_synonym i64 = "64 word"

section \<open>UTF-8\<close>

text \<open>
  What may follow the first byte of a character of two bytes or more: the range of the second
  byte and the number of continuation bytes after it.
\<close>

definition utf8_tail :: "u8 \<Rightarrow> (u8 \<times> u8 \<times> nat) option" where
  "utf8_tail b =
     (if 0xC2 \<le> b \<and> b \<le> 0xDF then Some (0x80, 0xBF, 0)
      else if b = 0xE0 then Some (0xA0, 0xBF, 1)
      else if b = 0xED then Some (0x80, 0x9F, 1)
      else if 0xE1 \<le> b \<and> b \<le> 0xEF then Some (0x80, 0xBF, 1)
      else if b = 0xF0 then Some (0x90, 0xBF, 2)
      else if 0xF1 \<le> b \<and> b \<le> 0xF3 then Some (0x80, 0xBF, 2)
      else if b = 0xF4 then Some (0x80, 0x8F, 2)
      else None)"

definition utf8_continuation :: "u8 \<Rightarrow> bool" where
  "utf8_continuation b \<longleftrightarrow> 0x80 \<le> b \<and> b \<le> 0xBF"

function utf8_valid :: "bytes \<Rightarrow> bool" where
  "utf8_valid [] = True"
| "utf8_valid (b # bs) =
     (if b < 0x80 then utf8_valid bs
      else case (utf8_tail b, bs) of
        (Some (lo, hi, n), c # cs) \<Rightarrow>
          lo \<le> c \<and> c \<le> hi \<and> n \<le> length cs \<and> list_all utf8_continuation (take n cs) \<and> utf8_valid (drop n cs)
      | _ \<Rightarrow> False)"
  by pat_completeness auto
termination
  by (relation "measure length") auto

lemma utf8_valid_ascii: "\<forall>b\<in>set bs. b < 0x80 \<Longrightarrow> utf8_valid bs"
  by (induction bs) auto

section \<open>Numerals\<close>

fun nat_dec :: "nat \<Rightarrow> bytes" where
  "nat_dec n = (if n < 10 then [word_of_nat (48 + n)] else nat_dec (n div 10) @ [word_of_nat (48 + n mod 10)])"

declare nat_dec.simps [simp del]

definition int_dec :: "int \<Rightarrow> bytes" where
  "int_dec i = (if i < 0 then 45 # nat_dec (nat (- i)) else nat_dec (nat i))"

record itoa_lib =
  it_format_i64 :: "i64 \<Rightarrow> bytes"
  it_format_usize :: "usize \<Rightarrow> bytes"

definition itoa_documented :: "itoa_lib \<Rightarrow> bool" where
  "itoa_documented it \<longleftrightarrow>
     (\<forall>v. it_format_i64 it v = int_dec (sint v)) \<and> (\<forall>n. it_format_usize it n = nat_dec n)"

definition reference_itoa :: itoa_lib where
  "reference_itoa = \<lparr>it_format_i64 = (\<lambda>v. int_dec (sint v)), it_format_usize = nat_dec\<rparr>"

lemma reference_itoa_documented [simp]: "itoa_documented reference_itoa"
  by (simp add: itoa_documented_def reference_itoa_def)

text \<open>
  \<open>parse::<i64>\<close>: an optional sign and at least one digit, and a value in range. The library
  multiplies and adds with overflow checks, which fail exactly when the value is out of range.
\<close>

definition is_digit :: "u8 \<Rightarrow> bool" where
  "is_digit b \<longleftrightarrow> 48 \<le> b \<and> b \<le> 57"

definition digits_val :: "bytes \<Rightarrow> nat" where
  "digits_val ds = foldl (\<lambda>v d. 10 * v + (unat d - 48)) 0 ds"

definition parse_digits :: "bytes \<Rightarrow> nat option" where
  "parse_digits ds = (if ds \<noteq> [] \<and> list_all is_digit ds then Some (digits_val ds) else None)"

definition in_i64 :: "int \<Rightarrow> bool" where
  "in_i64 i \<longleftrightarrow> - (2 ^ 63) \<le> i \<and> i < 2 ^ 63"

definition parse_i64 :: "bytes \<Rightarrow> i64 option" where
  "parse_i64 text =
     (let value =
        (case text of
           [] \<Rightarrow> None
         | c # cs \<Rightarrow>
             if c = 45 then map_option (\<lambda>n. - int n) (parse_digits cs)
             else if c = 43 then map_option int (parse_digits cs)
             else map_option int (parse_digits text))
      in case value of
           None \<Rightarrow> None
         | Some i \<Rightarrow> if in_i64 i then Some (word_of_int i) else None)"

section \<open>Numerals are parsed back\<close>

lemma unat_digit: "d < 10 \<Longrightarrow> unat (word_of_nat (48 + d) :: u8) = 48 + d"
  by (simp add: unat_of_nat del: of_nat_add)

lemma digit_range: "d < 10 \<Longrightarrow> is_digit (word_of_nat (48 + d))"
  unfolding is_digit_def word_le_nat_alt unat_digit by simp

lemma nat_dec_digits: "list_all is_digit (nat_dec n)"
  by (induction n rule: nat_dec.induct) (subst nat_dec.simps, simp add: digit_range del: of_nat_add)

lemma nat_dec_nonempty [simp]: "nat_dec n \<noteq> []"
  by (subst nat_dec.simps) simp

lemma digits_val_snoc [simp]: "digits_val (ds @ [d]) = 10 * digits_val ds + (unat d - 48)"
  by (simp add: digits_val_def)

lemma digits_val_nat_dec [simp]: "digits_val (nat_dec n) = n"
proof (induction n rule: nat_dec.induct)
  case (1 n)
  show ?case
  proof (cases "n < 10")
    case True
    then show ?thesis by (subst nat_dec.simps) (simp add: digits_val_def unat_digit del: of_nat_add)
  next
    case False
    then have "digits_val (nat_dec n) = 10 * (n div 10) + n mod 10"
      by (subst nat_dec.simps) (simp add: 1 unat_digit del: of_nat_add)
    then show ?thesis by simp
  qed
qed

lemma parse_digits_nat_dec [simp]: "parse_digits (nat_dec n) = Some n"
  by (simp add: parse_digits_def nat_dec_digits)

lemma digit_not_sign: "is_digit b \<Longrightarrow> b \<noteq> 45 \<and> b \<noteq> 43"
  by (auto simp: is_digit_def)

lemma parse_i64_nat_dec:
  assumes "int n < 2 ^ 63"
  shows "parse_i64 (nat_dec n) = Some (word_of_int (int n))"
proof -
  obtain c cs where c: "nat_dec n = c # cs" using nat_dec_nonempty by (cases "nat_dec n") auto
  then have "c \<noteq> 45 \<and> c \<noteq> 43" using nat_dec_digits [of n] digit_not_sign by simp
  then show ?thesis
    using assms parse_digits_nat_dec [of n] unfolding c parse_i64_def by (simp add: in_i64_def)
qed

lemma parse_i64_int_dec:
  assumes "in_i64 i"
  shows "parse_i64 (int_dec i) = Some (word_of_int i)"
  using assms parse_i64_nat_dec [of "nat i"]
  by (auto simp: int_dec_def parse_i64_def in_i64_def)

lemma in_i64_sint [simp]: "in_i64 (sint (v :: i64))"
  using sint_greater_eq [of v] sint_less [of v] by (simp add: in_i64_def)

lemma sint_in_i64: "in_i64 i \<Longrightarrow> sint (word_of_int i :: i64) = i"
  by (simp add: in_i64_def sint_sbintrunc' signed_take_bit_int_eq_self)

lemma sint_of_nat_i64:
  "in_i64 (int n) \<Longrightarrow> sint (word_of_nat n :: i64) = int n"
  "in_i64 (- int n) \<Longrightarrow> sint (- word_of_nat n :: i64) = - int n"
  using sint_in_i64 [of "int n"] sint_in_i64 [of "- int n"] by simp_all

lemma parse_i64_range: "parse_i64 text = Some v \<Longrightarrow> \<exists>i. in_i64 i \<and> v = word_of_int i"
  by (auto simp: parse_i64_def Let_def split: option.splits if_splits)

section \<open>No text of a value is shorter than its numeral\<close>

lemma digits_val_bound: "list_all is_digit ds \<Longrightarrow> digits_val ds < 10 ^ length ds"
proof (induction ds rule: rev_induct)
  case Nil
  then show ?case by (simp add: digits_val_def)
next
  case (snoc d ds)
  then have "digits_val ds < 10 ^ length ds" "unat d - 48 < 10"
    by (auto simp: is_digit_def word_le_nat_alt)
  then show ?case by simp
qed

lemma nat_dec_shortest: "n < 10 ^ k \<Longrightarrow> 0 < k \<Longrightarrow> length (nat_dec n) \<le> k"
proof (induction n arbitrary: k rule: nat_dec.induct)
  case (1 n)
  show ?case
  proof (cases "n < 10")
    case True
    then show ?thesis using 1(3) by (subst nat_dec.simps) simp
  next
    case False
    then obtain j where j: "k = Suc j" "0 < j" using 1(2,3) by (cases k; cases "k - 1") auto
    then have "n div 10 < 10 ^ j" using 1(2) by (simp add: less_mult_imp_div_less mult.commute)
    then show ?thesis using 1(1) [OF False _ j(2)] False j(1) by (subst nat_dec.simps) simp
  qed
qed

lemma parse_digits_length:
  assumes "parse_digits ds = Some n"
  shows "length (nat_dec n) \<le> length ds"
  using assms digits_val_bound [of ds] nat_dec_shortest [of n "length ds"]
  by (auto simp: parse_digits_def split: if_splits)

lemma parse_i64_length:
  assumes "parse_i64 text = Some v"
  shows "length (int_dec (sint v)) \<le> length text"
proof -
  have shorter: "length (int_dec (- int n)) \<le> Suc (length ds)" "length (int_dec (int n)) \<le> length ds"
    if "parse_digits ds = Some n" for n ds
    using parse_digits_length [OF that] by (auto simp: int_dec_def)
  obtain c cs where t: "text = c # cs" using assms by (cases "text") (auto simp: parse_i64_def)
  have "(\<exists>n. sint v = - int n \<and> parse_digits cs = Some n) \<or> (\<exists>n. sint v = int n \<and> parse_digits cs = Some n) \<or>
    (\<exists>n. sint v = int n \<and> parse_digits (c # cs) = Some n)"
    using assms unfolding t parse_i64_def Let_def
    by (auto simp: sint_of_nat_i64 split: if_splits option.splits)
  then show ?thesis by (elim disjE exE conjE) (use shorter in \<open>fastforce simp: t\<close>)+
qed

section \<open>Counting digits\<close>

lemma length_nat_dec:
  "length (nat_dec n) = (if n < 10 then 1 else Suc (length (nat_dec (n div 10))))"
  by (subst nat_dec.simps) simp

lemma int_dec_ascii: "\<forall>b\<in>set (int_dec i). b < 0x80"
proof -
  have "is_digit b \<Longrightarrow> b < 0x80" for b
    by (auto simp: is_digit_def intro: le_less_trans)
  then have "\<forall>b\<in>set (nat_dec n). b < 0x80" for n using nat_dec_digits [of n] by (auto simp: list_all_iff)
  then show ?thesis by (auto simp: int_dec_def)
qed

end
