(* ===== verification/Resp_Frame.thy ===== *)
theory Resp_Frame
  imports Decimal_Text Frame_Codec
begin

text \<open>
  The RESP example codec (\<open>examples/resp_codec_impl\<close>): its frames (\<open>frame.rs\<close>), encoder
  (\<open>encode.rs\<close>), parser (\<open>parse.rs\<close>) and the adapter that bounds both by a frame length
  (\<open>codec.rs\<close>). A \<open>String\<close> is its bytes, \<open>BytesMut\<close> a byte list. The parser works on indices into the
  buffer, as the code does.
\<close>

section \<open>Frames\<close>

datatype resp_frame =
  SimpleString bytes
| RespError bytes
| Integer i64
| BulkString "bytes option"
| RespArray "resp_frame list option"

abbreviation CR :: u8 where "CR \<equiv> 13"
abbreviation LF :: u8 where "LF \<equiv> 10"
abbreviation crlf :: bytes where "crlf \<equiv> [CR, LF]"
abbreviation PLUS :: u8 where "PLUS \<equiv> 43"
abbreviation MINUS :: u8 where "MINUS \<equiv> 45"
abbreviation COLON :: u8 where "COLON \<equiv> 58"
abbreviation DOLLAR :: u8 where "DOLLAR \<equiv> 36"
abbreviation STAR :: u8 where "STAR \<equiv> 42"

definition MAX_RECURSION_DEPTH :: usize where
  "MAX_RECURSION_DEPTH = 64"

definition MAX_ARRAY_ELEMENTS :: usize where
  "MAX_ARRAY_ELEMENTS = 1024"

abbreviation invalid_data :: "string \<Rightarrow> io_error" where
  "invalid_data msg \<equiv> IoError InvalidData (IoMessage msg)"

abbreviation invalid_input :: "string \<Rightarrow> io_error" where
  "invalid_input msg \<equiv> IoError InvalidInput (IoMessage msg)"

definition depth_exceeded :: io_error where
  "depth_exceeded = invalid_data ''maximum recursion depth exceeded''"

section \<open>Encoding\<close>

definition checked_add :: "usize \<Rightarrow> usize \<Rightarrow> io_error + usize" where
  "checked_add lhs rhs =
     (case checked_add_usize lhs rhs of None \<Rightarrow> Inl (invalid_input ''frame too large'') | Some n \<Rightarrow> Inr n)"

fun digits_loop :: "nat \<Rightarrow> usize \<Rightarrow> usize" where
  "digits_loop value digits = (if 10 \<le> value then digits_loop (value div 10) (digits + 1) else digits)"

declare digits_loop.simps [simp del]

definition digits_len_usize :: "usize \<Rightarrow> usize" where
  "digits_len_usize value = digits_loop value 1"

definition unsigned_abs :: "i64 \<Rightarrow> nat" where
  "unsigned_abs v = nat \<bar>sint v\<bar>"

definition digits_len_i64 :: "i64 \<Rightarrow> usize" where
  "digits_len_i64 value =
     (let digits = digits_loop (unsigned_abs value) 1
      in if sint value < 0 then digits + 1 else digits)"

text \<open>\<open>?\<close> on a result.\<close>

definition and_then :: "'e + 'a \<Rightarrow> ('a \<Rightarrow> 'e + 'b) \<Rightarrow> 'e + 'b" where
  "and_then r k = (case r of Inl e \<Rightarrow> Inl e | Inr x \<Rightarrow> k x)"

lemma and_then_simps [simp]: "and_then (Inl e) k = Inl e" "and_then (Inr x) k = k x"
  by (simp_all add: and_then_def)

fun encoded_len_at :: "resp_frame \<Rightarrow> usize \<Rightarrow> io_error + usize"
  and encoded_len_items :: "usize \<Rightarrow> resp_frame list \<Rightarrow> usize \<Rightarrow> io_error + usize" where
  "encoded_len_at frame depth =
     (if MAX_RECURSION_DEPTH < depth then Inl depth_exceeded
      else case frame of
        SimpleString s \<Rightarrow> and_then (checked_add (length s) 2) (checked_add 1)
      | RespError s \<Rightarrow> and_then (checked_add (length s) 2) (checked_add 1)
      | Integer v \<Rightarrow> and_then (checked_add (digits_len_i64 v) 2) (checked_add 1)
      | BulkString None \<Rightarrow> Inr 5
      | RespArray None \<Rightarrow> Inr 5
      | BulkString (Some data) \<Rightarrow>
          and_then (checked_add (digits_len_usize (length data)) 2) (\<lambda>h.
          and_then (checked_add 1 h) (\<lambda>head.
          and_then (checked_add (length data) 2) (\<lambda>body. checked_add head body)))
      | RespArray (Some items) \<Rightarrow>
          and_then (checked_add (digits_len_usize (length items)) 2) (\<lambda>h.
          and_then (checked_add 1 h) (\<lambda>acc. encoded_len_items acc items (depth + 1))))"
| "encoded_len_items acc [] depth = Inr acc"
| "encoded_len_items acc (item # items) depth =
     and_then (encoded_len_at item depth) (\<lambda>n.
     and_then (checked_add acc n) (\<lambda>acc'. encoded_len_items acc' items depth))"

definition encoded_len :: "resp_frame \<Rightarrow> io_error + usize" where
  "encoded_len frame = encoded_len_at frame 0"

text \<open>The writer returns the destination also when it fails: what was written stays there.\<close>

fun encode_frame_at :: "itoa_lib \<Rightarrow> resp_frame \<Rightarrow> bytes \<Rightarrow> usize \<Rightarrow> bytes \<times> (io_error + unit)"
  and encode_items :: "itoa_lib \<Rightarrow> resp_frame list \<Rightarrow> bytes \<Rightarrow> usize \<Rightarrow> bytes \<times> (io_error + unit)" where
  "encode_frame_at it frame dst depth =
     (if MAX_RECURSION_DEPTH < depth then (dst, Inl depth_exceeded)
      else case frame of
        SimpleString s \<Rightarrow> (dst @ [PLUS] @ s @ crlf, Inr ())
      | RespError s \<Rightarrow> (dst @ [MINUS] @ s @ crlf, Inr ())
      | Integer v \<Rightarrow> (dst @ [COLON] @ it_format_i64 it v @ crlf, Inr ())
      | BulkString None \<Rightarrow> (dst @ [DOLLAR, MINUS, 49] @ crlf, Inr ())
      | BulkString (Some data) \<Rightarrow>
          (dst @ [DOLLAR] @ it_format_usize it (length data) @ crlf @ data @ crlf, Inr ())
      | RespArray None \<Rightarrow> (dst @ [STAR, MINUS, 49] @ crlf, Inr ())
      | RespArray (Some items) \<Rightarrow>
          encode_items it items (dst @ [STAR] @ it_format_usize it (length items) @ crlf) (depth + 1))"
| "encode_items it [] dst depth = (dst, Inr ())"
| "encode_items it (item # items) dst depth =
     (case encode_frame_at it item dst depth of
        (dst', Inl e) \<Rightarrow> (dst', Inl e)
      | (dst', Inr _) \<Rightarrow> encode_items it items dst' depth)"

declare encoded_len_at.simps [simp del]
declare encode_frame_at.simps [simp del]

definition encode_frame :: "itoa_lib \<Rightarrow> resp_frame \<Rightarrow> bytes \<Rightarrow> bytes \<times> (io_error + unit)" where
  "encode_frame it frame dst = encode_frame_at it frame dst 0"

section \<open>Parsing\<close>

definition decimal_digits :: "usize \<Rightarrow> usize" where
  "decimal_digits value = digits_loop value 1"

definition get :: "bytes \<Rightarrow> nat \<Rightarrow> u8 option" where
  "get buf i = (if i < length buf then Some (buf ! i) else None)"

record parse_context =
  pc_buf :: bytes
  pc_start :: usize
  pc_max_frame_length :: usize

type_synonym 'a parsed = "io_error + ('a \<times> usize) option"

function parse_line_from :: "bytes \<Rightarrow> usize \<Rightarrow> usize \<Rightarrow> usize \<Rightarrow> bytes parsed" where
  "parse_line_from buf start max_len index =
     (case get buf index of
        None \<Rightarrow> Inr None
      | Some byte \<Rightarrow>
          if max_len < saturating_sub_usize index start then Inl (invalid_data ''line too long'')
          else
            let advance =
              (case checked_add_usize index 1 of
                 None \<Rightarrow> Inl (invalid_data ''line too long'')
               | Some index' \<Rightarrow> parse_line_from buf start max_len index')
            in if byte = CR
               then (case get buf (index + 1) of
                       None \<Rightarrow> Inr None
                     | Some next \<Rightarrow>
                         if next = LF
                         then (case slice_get buf start index of
                                 None \<Rightarrow> Inl (invalid_data ''line bounds'')
                               | Some line \<Rightarrow> Inr (Some (line, index + 2)))
                         else advance)
               else advance)"
  by pat_completeness auto
termination
  by (relation "measure (\<lambda>(buf, start, max_len, index). length buf - index)")
    (auto simp: get_def checked_add_usize_def split: if_splits)

declare parse_line_from.simps [simp del]

definition parse_line :: "bytes \<Rightarrow> usize \<Rightarrow> usize \<Rightarrow> bytes parsed" where
  "parse_line buf start max_len = parse_line_from buf start max_len start"

definition from_utf8 :: "bytes \<Rightarrow> string \<Rightarrow> io_error + bytes" where
  "from_utf8 line msg = (if utf8_valid line then Inr line else Inl (invalid_data msg))"

definition parse_number :: "bytes \<Rightarrow> string \<Rightarrow> io_error + i64" where
  "parse_number s msg = (case parse_i64 s of None \<Rightarrow> Inl (invalid_data msg) | Some v \<Rightarrow> Inr v)"

text \<open>\<open>let Some(x) = result? else { return Ok(None) }\<close>\<close>

definition then_parsed :: "'a parsed \<Rightarrow> ('a \<Rightarrow> usize \<Rightarrow> 'b parsed) \<Rightarrow> 'b parsed" where
  "then_parsed r k =
     (case r of Inl e \<Rightarrow> Inl e | Inr None \<Rightarrow> Inr None | Inr (Some (x, next)) \<Rightarrow> k x next)"

lemma then_parsed_simps [simp]:
  "then_parsed (Inl e) k = Inl e" "then_parsed (Inr None) k = Inr None"
  "then_parsed (Inr (Some (x, next))) k = k x next"
  by (simp_all add: then_parsed_def)

definition parse_text_line :: "parse_context \<Rightarrow> string \<Rightarrow> bytes parsed" where
  "parse_text_line ctx error_msg =
     then_parsed (parse_line (pc_buf ctx) (pc_start ctx + 1) (pc_max_frame_length ctx)) (\<lambda>line next.
     and_then (from_utf8 line error_msg) (\<lambda>s. Inr (Some (s, next))))"

definition parse_text_frame :: "parse_context \<Rightarrow> string \<Rightarrow> (bytes \<Rightarrow> resp_frame) \<Rightarrow> resp_frame parsed" where
  "parse_text_frame ctx error_msg constructor =
     then_parsed (parse_text_line ctx error_msg) (\<lambda>s next.
     Inr (Some (constructor s, next - pc_start ctx)))"

definition parse_simple_string :: "bytes \<Rightarrow> usize \<Rightarrow> usize \<Rightarrow> resp_frame parsed" where
  "parse_simple_string buf start max_frame_length =
     parse_text_frame \<lparr>pc_buf = buf, pc_start = start, pc_max_frame_length = max_frame_length\<rparr>
       ''invalid simple string'' SimpleString"

definition parse_error :: "bytes \<Rightarrow> usize \<Rightarrow> usize \<Rightarrow> resp_frame parsed" where
  "parse_error buf start max_frame_length =
     parse_text_frame \<lparr>pc_buf = buf, pc_start = start, pc_max_frame_length = max_frame_length\<rparr>
       ''invalid error'' RespError"

definition parse_integer :: "bytes \<Rightarrow> usize \<Rightarrow> usize \<Rightarrow> resp_frame parsed" where
  "parse_integer buf start max_frame_length =
     then_parsed
       (parse_text_line \<lparr>pc_buf = buf, pc_start = start, pc_max_frame_length = max_frame_length\<rparr>
          ''invalid integer'') (\<lambda>s next.
     and_then (parse_number s ''invalid integer'') (\<lambda>value.
     Inr (Some (Integer value, next - start))))"

datatype bulk_length = BulkNull | BulkSized usize

record bulk_payload_spec =
  bp_start :: usize
  bp_payload_start :: usize
  bp_len :: usize
  bp_max_frame_length :: usize

text \<open>\<open>usize::try_from\<close> of an \<open>i64\<close>\<close>

definition usize_try_from :: "i64 \<Rightarrow> string \<Rightarrow> io_error + usize" where
  "usize_try_from v msg = (if sint v < 0 then Inl (invalid_data msg) else Inr (nat (sint v)))"

definition parse_bulk_length :: "bytes \<Rightarrow> usize \<Rightarrow> usize \<Rightarrow> bulk_length parsed" where
  "parse_bulk_length buf start max_frame_length =
     then_parsed (parse_line buf (start + 1) max_frame_length) (\<lambda>line next.
     and_then (from_utf8 line ''invalid bulk length'') (\<lambda>s.
     and_then (parse_number s ''invalid bulk length'') (\<lambda>len.
       if sint len < -1 then Inl (invalid_data ''invalid bulk length'')
       else if sint len = -1 then Inr (Some (BulkNull, next))
       else and_then (usize_try_from len ''bulk length too large'') (\<lambda>n. Inr (Some (BulkSized n, next))))))"

definition validate_bulk_terminator :: "bytes \<Rightarrow> usize \<Rightarrow> io_error + unit" where
  "validate_bulk_terminator buf cursor =
     (case get buf cursor of
        None \<Rightarrow> Inl (invalid_data ''missing terminator'')
      | Some cr \<Rightarrow>
          (case get buf (cursor + 1) of
             None \<Rightarrow> Inl (invalid_data ''missing terminator'')
           | Some lf \<Rightarrow>
               if cr \<noteq> CR \<or> lf \<noteq> LF then Inl (invalid_data ''bulk string missing terminator'')
               else Inr ()))"

definition parse_bulk_payload :: "bytes \<Rightarrow> bulk_payload_spec \<Rightarrow> resp_frame parsed" where
  "parse_bulk_payload buf spec =
     (let digits = decimal_digits (bp_len spec);
          header_len = 1 + digits + 2;
          total_frame_size = header_len + bp_len spec + 2
      in if bp_max_frame_length spec < total_frame_size
         then Inl (invalid_data ''bulk frame exceeds max frame length'')
         else
           case Option.bind (checked_add_usize (bp_payload_start spec) (bp_len spec)) (\<lambda>v. checked_add_usize v 2) of
             None \<Rightarrow> Inl (invalid_data ''bulk length too large'')
           | Some end_ \<Rightarrow>
               if length buf < end_ then Inr None
               else
                 case slice_get buf (bp_payload_start spec) (bp_payload_start spec + bp_len spec) of
                   None \<Rightarrow> Inl (invalid_data ''invalid bulk range'')
                 | Some data \<Rightarrow>
                     and_then (validate_bulk_terminator buf (bp_payload_start spec + bp_len spec)) (\<lambda>_.
                     Inr (Some (BulkString (Some data), end_ - bp_start spec))))"

definition parse_bulk_string :: "bytes \<Rightarrow> usize \<Rightarrow> usize \<Rightarrow> resp_frame parsed" where
  "parse_bulk_string buf start max_frame_length =
     then_parsed (parse_bulk_length buf start max_frame_length) (\<lambda>len next.
       case len of
         BulkNull \<Rightarrow> Inr (Some (BulkString None, next - start))
       | BulkSized n \<Rightarrow>
           parse_bulk_payload buf
             \<lparr>bp_start = start, bp_payload_start = next, bp_len = n, bp_max_frame_length = max_frame_length\<rparr>)"

text \<open>
  The recursion ends because the depth is bounded. \<open>parse_items\<close> is the loop of \<open>parse_array\<close> over
  the \<open>n\<close> elements still to come; it returns the frames and the cursor after them.
\<close>

function parse_frame_at :: "bytes \<Rightarrow> usize \<Rightarrow> usize \<Rightarrow> usize \<Rightarrow> resp_frame parsed"
  and parse_array :: "bytes \<Rightarrow> usize \<Rightarrow> usize \<Rightarrow> usize \<Rightarrow> resp_frame parsed"
  and parse_items :: "bytes \<Rightarrow> usize \<Rightarrow> usize \<Rightarrow> usize \<Rightarrow> nat \<Rightarrow> resp_frame list \<Rightarrow> resp_frame list parsed" where
  "parse_frame_at buf start max_frame_length depth =
     (if MAX_RECURSION_DEPTH < depth then Inl depth_exceeded
      else case get buf start of
        None \<Rightarrow> Inr None
      | Some p \<Rightarrow>
          if p = PLUS then parse_simple_string buf start max_frame_length
          else if p = MINUS then parse_error buf start max_frame_length
          else if p = COLON then parse_integer buf start max_frame_length
          else if p = DOLLAR then parse_bulk_string buf start max_frame_length
          else if p = STAR then parse_array buf start max_frame_length depth
          else Inl (invalid_data ''unsupported RESP prefix''))"
| "parse_array buf start max_frame_length depth =
     then_parsed (parse_line buf (start + 1) max_frame_length) (\<lambda>line cursor.
      and_then (from_utf8 line ''invalid array length'') (\<lambda>s.
      and_then (parse_number s ''invalid array length'') (\<lambda>count.
        if sint count = -1 then Inr (Some (RespArray None, cursor - start))
        else if sint count < -1 then Inl (invalid_data ''invalid negative array length'')
        else and_then (usize_try_from count ''array too large'') (\<lambda>element_count.
          if MAX_ARRAY_ELEMENTS < element_count
          then Inl (invalid_data ''array element count exceeds limit'')
          else then_parsed (parse_items buf cursor max_frame_length (depth + 1) element_count []) (\<lambda>frames cursor'.
            if cursor' < start then Inl (invalid_data ''array too large'')
            else if max_frame_length < cursor' - start then Inl (invalid_data ''frame too large'')
            else Inr (Some (RespArray (Some frames), cursor' - start)))))))"
| "parse_items buf cursor max_frame_length depth 0 frames = Inr (Some (frames, cursor))"
| "parse_items buf cursor max_frame_length depth (Suc n) frames =
     then_parsed (parse_frame_at buf cursor max_frame_length depth) (\<lambda>frame consumed.
       case checked_add_usize cursor consumed of
         None \<Rightarrow> Inl (invalid_data ''array too large'')
       | Some cursor' \<Rightarrow> parse_items buf cursor' max_frame_length depth n (frames @ [frame]))"
  by pat_completeness auto
termination
  by (relation "measures [
      \<lambda>x. case x of Inl (_, _, _, d) \<Rightarrow> 3 * (65 - d)
        | Inr (Inl (_, _, _, d)) \<Rightarrow> (if d \<le> 64 then 3 * (65 - d) - 1 else 2)
        | Inr (Inr (_, _, _, d, _, _)) \<Rightarrow> 3 * (65 - d) + 1,
      \<lambda>x. case x of Inr (Inr (_, _, _, _, n, _)) \<Rightarrow> n | _ \<Rightarrow> 0]")
    (auto simp: MAX_RECURSION_DEPTH_def)

declare parse_frame_at.simps [simp del]
declare parse_array.simps [simp del]

definition parse_frame :: "bytes \<Rightarrow> usize \<Rightarrow> resp_frame parsed" where
  "parse_frame buf max_frame_length = parse_frame_at buf 0 max_frame_length 0"

section \<open>Adapter and codec\<close>

record resp_frame_codec =
  rc_max_frame_length :: usize

definition resp_codec_new :: "usize \<Rightarrow> resp_frame_codec" where
  "resp_codec_new n = \<lparr>rc_max_frame_length = n\<rparr>"

record resp_adapter =
  ra_max_frame_length :: usize

definition resp_adapter_new :: "usize \<Rightarrow> resp_adapter" where
  "resp_adapter_new n = \<lparr>ra_max_frame_length = n\<rparr>"

definition resp_decode :: "resp_adapter \<Rightarrow> resp_frame decoder" where
  "resp_decode a src =
     (case parse_frame src (ra_max_frame_length a) of
        Inl e \<Rightarrow> (src, Inl e)
      | Inr None \<Rightarrow> (src, Inr None)
      | Inr (Some (frame, consumed)) \<Rightarrow>
          if ra_max_frame_length a < consumed then (src, Inl (invalid_data ''frame too large''))
          else (drop consumed src, Inr (Some frame)))"

definition resp_encode :: "itoa_lib \<Rightarrow> resp_adapter \<Rightarrow> resp_frame \<Rightarrow> bytes \<Rightarrow> bytes \<times> (io_error + unit)" where
  "resp_encode it a item dst =
     (case encoded_len item of
        Inl e \<Rightarrow> (dst, Inl e)
      | Inr len \<Rightarrow>
          if ra_max_frame_length a < len then (dst, Inl (invalid_input ''frame too large''))
          else encode_frame it item dst)"

definition resp_decoder :: "resp_frame_codec \<Rightarrow> resp_adapter" where
  "resp_decoder c = resp_adapter_new (rc_max_frame_length c)"

definition resp_encoder :: "resp_frame_codec \<Rightarrow> resp_adapter" where
  "resp_encoder c = resp_adapter_new (rc_max_frame_length c)"

definition resp_frame_payload :: "resp_frame \<Rightarrow> bytes" where
  "resp_frame_payload frame = (case frame of BulkString (Some payload) \<Rightarrow> payload | _ \<Rightarrow> [])"

definition resp_wrap_payload :: "resp_frame_codec \<Rightarrow> bytes \<Rightarrow> resp_frame" where
  "resp_wrap_payload c payload = BulkString (Some payload)"

definition resp_max_frame_length :: "resp_frame_codec \<Rightarrow> usize" where
  "resp_max_frame_length c = rc_max_frame_length c"

end
