(* ===== verification/Resp_Codec.thy ===== *)
theory Resp_Codec
  imports Resp_Frame
begin

text \<open>
  Correctness of the RESP example codec. \<open>resp_wire\<close> is the wire form of a frame and
  \<open>resp_accepts\<close> says which frames both directions handle. The first part shows that the encoder
  measures and writes the wire form, the second that the parser reads it back, waits on every
  proper prefix of it, and produces acceptable frames only. The codec then is an instance of
  \<open>stream_codec\<close>, so that frames survive any cutting of the stream into reads.
\<close>

section \<open>Wire form\<close>

fun resp_wire :: "resp_frame \<Rightarrow> bytes" where
  "resp_wire (SimpleString s) = [PLUS] @ s @ crlf"
| "resp_wire (RespError s) = [MINUS] @ s @ crlf"
| "resp_wire (Integer v) = [COLON] @ int_dec (sint v) @ crlf"
| "resp_wire (BulkString None) = [DOLLAR] @ int_dec (- 1) @ crlf"
| "resp_wire (BulkString (Some data)) = [DOLLAR] @ nat_dec (length data) @ crlf @ data @ crlf"
| "resp_wire (RespArray None) = [STAR] @ int_dec (- 1) @ crlf"
| "resp_wire (RespArray (Some items)) = [STAR] @ nat_dec (length items) @ crlf @ concat (map resp_wire items)"

fun depth_ok :: "usize \<Rightarrow> resp_frame \<Rightarrow> bool" where
  "depth_ok d (RespArray (Some items)) \<longleftrightarrow> d \<le> MAX_RECURSION_DEPTH \<and> list_all (depth_ok (d + 1)) items"
| "depth_ok d f \<longleftrightarrow> d \<le> MAX_RECURSION_DEPTH"

fun no_crlf :: "bytes \<Rightarrow> bool" where
  "no_crlf (b # c # bs) \<longleftrightarrow> \<not> (b = CR \<and> c = LF) \<and> no_crlf (c # bs)"
| "no_crlf bs \<longleftrightarrow> True"

text \<open>
  What the decoder can produce: text is valid UTF-8 without a line break, arrays are bounded.
\<close>

fun resp_wf :: "resp_frame \<Rightarrow> bool" where
  "resp_wf (SimpleString s) \<longleftrightarrow> utf8_valid s \<and> no_crlf s"
| "resp_wf (RespError s) \<longleftrightarrow> utf8_valid s \<and> no_crlf s"
| "resp_wf (RespArray (Some items)) \<longleftrightarrow> length items \<le> MAX_ARRAY_ELEMENTS \<and> list_all resp_wf items"
| "resp_wf f \<longleftrightarrow> True"

text \<open>No object of the language is larger than \<open>isize::MAX\<close> bytes.\<close>

definition isize_max :: nat where
  "isize_max = 2 ^ 63 - 1"

definition buffer_fits :: "bytes \<Rightarrow> bool" where
  "buffer_fits bs \<longleftrightarrow> length bs \<le> isize_max"

definition resp_accepts :: "resp_adapter \<Rightarrow> resp_frame \<Rightarrow> bool" where
  "resp_accepts a f \<longleftrightarrow> resp_wf f \<and> depth_ok 0 f \<and> length (resp_wire f) \<le> ra_max_frame_length a \<and>
     buffer_fits (resp_wire f)"

lemma resp_wire_nonempty: "resp_wire f \<noteq> []"
  by (cases f rule: resp_wire.cases) simp_all

lemma null_numeral: "int_dec (- 1) = [45, 49]"
  by (simp add: int_dec_def nat_dec.simps)

section \<open>Lines\<close>

fun find_line :: "nat \<Rightarrow> nat \<Rightarrow> bytes \<Rightarrow> io_error + nat option" where
  "find_line m i [] = Inr None"
| "find_line m i (b # bs) =
     (if m < i then Inl (invalid_data ''line too long'')
      else if b = CR \<and> bs = [] then Inr None
      else if b = CR \<and> hd bs = LF then Inr (Some i)
      else find_line m (Suc i) bs)"

lemma find_line_ok:
  "no_crlf s \<Longrightarrow> i + length s \<le> m \<Longrightarrow> find_line m i (s @ crlf @ rest) = Inr (Some (i + length s))"
proof (induction s arbitrary: i)
  case (Cons b s)
  have "hd (s @ crlf @ rest) \<noteq> LF" if "b = CR"
    using Cons.prems(1) that by (cases s) auto
  moreover have "no_crlf s" using Cons.prems(1) by (cases s) auto
  ultimately show ?case using Cons.IH [of "Suc i"] Cons.prems(2) by auto
qed simp

lemma find_line_partial:
  "no_crlf s \<Longrightarrow> i + length s \<le> m \<Longrightarrow> strict_prefix p (s @ crlf) \<Longrightarrow> find_line m i p = Inr None"
proof (induction s arbitrary: i p)
  case Nil
  then have "p = [] \<or> p = [CR]" by (auto simp: strict_prefix_def prefix_Cons)
  then show ?case using Nil by auto
next
  case (Cons b s)
  show ?case
  proof (cases "p = []")
    case False
    then obtain q where q: "p = b # q" "strict_prefix q (s @ crlf)"
      using Cons.prems(3) by (cases p) auto
    have "no_crlf s" using Cons.prems(1) by (cases s) auto
    then have "find_line m (Suc i) q = Inr None" using Cons.IH [OF _ _ q(2)] Cons.prems(2) by simp
    moreover have "hd q \<noteq> LF" if "b = CR" "q \<noteq> []"
      using Cons.prems(1) that q(2) by (cases s; cases q) (auto simp: strict_prefix_def)
    ultimately show ?thesis using q(1) Cons.prems(2) by auto
  qed simp
qed

definition found_line :: "bytes \<Rightarrow> nat \<Rightarrow> io_error + nat option \<Rightarrow> bytes parsed" where
  "found_line buf start r =
     (case r of
        Inl e \<Rightarrow> Inl e
      | Inr None \<Rightarrow> Inr None
      | Inr (Some n) \<Rightarrow> Inr (Some (take n (drop start buf), start + n + 2)))"

lemma found_line_simps [simp]:
  "found_line buf start (Inl e) = Inl e" "found_line buf start (Inr None) = Inr None"
  "found_line buf start (Inr (Some n)) = Inr (Some (take n (drop start buf), start + n + 2))"
  by (simp_all add: found_line_def)

lemma slice_get_prefix:
  "index < length buf \<Longrightarrow> start \<le> index \<Longrightarrow> slice_get buf start index = Some (take (index - start) (drop start buf))"
  by (simp add: slice_get_def)

lemma get_next:
  "get buf (Suc index) = (if drop (Suc index) buf = [] then None else Some (hd (drop (Suc index) buf)))"
  by (auto simp: get_def hd_drop_conv_nth)

lemma checked_add_index:
  "index < length buf \<Longrightarrow> length buf \<le> usize_max \<Longrightarrow> checked_add_usize index (Suc 0) = Some (Suc index)"
  unfolding checked_add_usize_Some by linarith

text \<open>One turn of the loop, with the checks that cannot fail resolved.\<close>

lemma parse_line_turn:
  assumes "length buf \<le> usize_max" and "start \<le> index" and "index < length buf" and "\<not> m < index - start"
  shows "parse_line_from buf start m index =
    (if buf ! index = CR \<and> drop (Suc index) buf = [] then Inr None
     else if buf ! index = CR \<and> hd (drop (Suc index) buf) = LF
     then Inr (Some (take (index - start) (drop start buf), index + 2))
     else parse_line_from buf start m (Suc index))"
  using assms
  by (subst parse_line_from.simps)
    (simp add: get_next slice_get_prefix checked_add_index get_def [of buf index] saturating_sub_usize_def
      Let_def del: drop_eq_Nil)

lemma parse_line_from_find:
  assumes "length buf \<le> usize_max" and "start \<le> index"
  shows "parse_line_from buf start m index = found_line buf start (find_line m (index - start) (drop index buf))"
  using assms
proof (induction "length buf - index" arbitrary: index)
  case 0
  then show ?case by (subst parse_line_from.simps) (simp add: get_def)
next
  case (Suc n)
  then have i: "index < length buf" by simp
  then have d: "drop index buf = buf ! index # drop (Suc index) buf" by (rule Cons_nth_drop_Suc [symmetric])
  have IH: "parse_line_from buf start m (Suc index) =
      found_line buf start (find_line m (Suc index - start) (drop (Suc index) buf))"
    by (rule Suc.hyps(1)) (use Suc in simp_all)
  show ?case
  proof (cases "m < index - start")
    case True
    then show ?thesis
      using i by (subst parse_line_from.simps) (simp add: d get_def saturating_sub_usize_def)
  next
    case False
    then show ?thesis
      using Suc.prems(2)
      by (simp add: parse_line_turn [OF Suc.prems i] d IH Suc_diff_le del: drop_eq_Nil)
  qed
qed

lemma parse_line_ok:
  assumes "drop start buf = s @ crlf @ rest" and "no_crlf s" and "length s \<le> m" and "buffer_fits buf"
  shows "parse_line buf start m = Inr (Some (s, start + length s + 2))"
proof -
  have "length buf \<le> usize_max" using assms(4) by (simp add: buffer_fits_def isize_max_def usize_max_def)
  then show ?thesis
    using find_line_ok [OF assms(2), of 0 m rest] assms(1,3)
    by (simp add: parse_line_def parse_line_from_find)
qed

lemma parse_line_partial:
  assumes "strict_prefix (drop start buf) (s @ crlf)" and "no_crlf s" and "length s \<le> m" and "buffer_fits buf"
  shows "parse_line buf start m = Inr None"
proof -
  have "length buf \<le> usize_max" using assms(4) by (simp add: buffer_fits_def isize_max_def usize_max_def)
  then show ?thesis
    using find_line_partial [OF assms(2) _ assms(1), of 0 m] assms(3)
    by (simp add: parse_line_def parse_line_from_find)
qed

section \<open>Numerals as lines\<close>

lemma no_crlf_no_cr: "CR \<notin> set s \<Longrightarrow> no_crlf s"
  by (induction s rule: no_crlf.induct) auto

lemma numeral_line [simp]:
  "no_crlf (int_dec i)" "utf8_valid (int_dec i)" "no_crlf (nat_dec n)" "utf8_valid (nat_dec n)"
proof -
  have "\<not> is_digit CR" by (simp add: is_digit_def)
  then have cr: "CR \<notin> set (nat_dec n)" for n using nat_dec_digits [of n] by (auto simp: list_all_iff)
  then show "no_crlf (int_dec i)" "no_crlf (nat_dec n)"
    by (auto simp: int_dec_def intro!: no_crlf_no_cr)
  have "int_dec (int n) = nat_dec n" for n by (simp add: int_dec_def)
  then show "utf8_valid (int_dec i)" "utf8_valid (nat_dec n)"
    using int_dec_ascii [of i] int_dec_ascii [of "int n"] by (auto intro: utf8_valid_ascii)
qed

lemma digits_loop_length: "digits_loop n (Suc k) = k + length (nat_dec n)"
proof (induction n arbitrary: k rule: nat_dec.induct)
  case (1 n)
  show ?case
  proof (cases "n < 10")
    case False
    then show ?thesis using 1 [OF False, of "Suc k"] by (subst digits_loop.simps) (simp add: length_nat_dec [of n])
  qed (subst digits_loop.simps, simp add: length_nat_dec)
qed

lemma digit_counts [simp]:
  "decimal_digits n = length (nat_dec n)" "digits_len_usize n = length (nat_dec n)"
  "digits_len_i64 v = length (int_dec (sint v))"
  using digits_loop_length [of _ 0]
  by (simp_all add: decimal_digits_def digits_len_usize_def digits_len_i64_def unsigned_abs_def int_dec_def)

lemma parse_number_numeral:
  "parse_number (int_dec (sint v)) msg = Inr v"
  "int n \<le> int isize_max \<Longrightarrow> parse_number (nat_dec n) msg = Inr (word_of_nat n)"
  "parse_number (int_dec (- 1)) msg = Inr (- 1)"
proof -
  have "parse_i64 (int_dec (- 1)) = Some (- 1)" using parse_i64_int_dec [of "- 1"] by (simp add: in_i64_def)
  moreover have "parse_i64 (nat_dec n) = Some (word_of_nat n)" if "int n \<le> int isize_max"
    using parse_i64_nat_dec [of n] that by (simp add: isize_max_def)
  ultimately show "parse_number (int_dec (sint v)) msg = Inr v"
    "int n \<le> int isize_max \<Longrightarrow> parse_number (nat_dec n) msg = Inr (word_of_nat n)"
    "parse_number (int_dec (- 1)) msg = Inr (- 1)"
    using parse_i64_int_dec [OF in_i64_sint, of v] by (simp_all add: parse_number_def)
qed

lemma sint_small: "n \<le> isize_max \<Longrightarrow> sint (word_of_nat n :: i64) = int n"
  using sint_of_nat_i64(1) [of n] by (simp add: in_i64_def isize_max_def)

section \<open>Positions\<close>

lemma drop_Cons:
  assumes "drop start buf = c # xs"
  shows "get buf start = Some c" "drop (Suc start) buf = xs"
proof -
  have "start < length buf" using assms by (metis drop_all leI list.discI)
  then show "get buf start = Some c" "drop (Suc start) buf = xs"
    using assms by (simp_all add: get_def Cons_nth_drop_Suc [symmetric])
qed

lemma drop_append_more: "drop start buf = xs @ ys \<Longrightarrow> drop (start + length xs) buf = ys"
  by (metis add.commute append_eq_conv_conj drop_drop)

lemma position_bound: "drop start buf = xs \<Longrightarrow> xs \<noteq> [] \<Longrightarrow> start + length xs = length buf"
  by auto

lemma strict_prefix_appendE:
  assumes "strict_prefix p (h @ t)"
  obtains (head) "strict_prefix p h" | (tail) q where "p = h @ q" "strict_prefix q t"
proof (cases "strict_prefix p h")
  case False
  from assms have "prefix p h \<or> (\<exists>q. p = h @ q \<and> prefix q t)" "p \<noteq> h @ t"
    by (auto simp: strict_prefix_def prefix_append)
  with False have "\<exists>q. p = h @ q \<and> strict_prefix q t" by (cases "p = h") (auto simp: strict_prefix_def)
  then show ?thesis using tail by blast
qed (rule head)

lemma strict_prefix_ConsE:
  assumes "strict_prefix p (c # t)"
  obtains (empty) "p = []" | (tail) q where "p = c # q" "strict_prefix q t"
  using assms by (cases p) auto

section \<open>Leaves\<close>

lemma parse_text_line_ok:
  assumes "drop start buf = c # s @ crlf @ rest" and "utf8_valid s" and "no_crlf s"
    and "length s \<le> m" and "buffer_fits buf"
  shows "parse_text_line \<lparr>pc_buf = buf, pc_start = start, pc_max_frame_length = m\<rparr> msg =
    Inr (Some (s, start + length s + 3))"
  using parse_line_ok [OF drop_Cons(2) [OF assms(1)] assms(3-5)] assms(2)
  by (simp add: parse_text_line_def from_utf8_def)

lemma parse_bulk_length_ok:
  assumes "drop start buf = c # nat_dec n @ crlf @ rest" and "length (nat_dec n) \<le> m"
    and "n \<le> isize_max" and "buffer_fits buf"
  shows "parse_bulk_length buf start m = Inr (Some (BulkSized n, start + length (nat_dec n) + 3))"
  using parse_line_ok [OF drop_Cons(2) [OF assms(1)] _ assms(2,4)] assms(3)
  by (simp add: parse_bulk_length_def from_utf8_def parse_number_numeral(2) sint_small usize_try_from_def)

lemma parse_bulk_payload_ok:
  assumes "drop next buf = data @ crlf @ rest" and "length (nat_dec (length data)) + length data + 5 \<le> m"
    and "buffer_fits buf" and "start \<le> next"
  shows "parse_bulk_payload buf
      \<lparr>bp_start = start, bp_payload_start = next, bp_len = length data, bp_max_frame_length = m\<rparr> =
    Inr (Some (BulkString (Some data), next + length data + 2 - start))"
proof -
  have len: "next + length data + 2 + length rest = length buf"
    using position_bound [OF assms(1)] by simp
  then have end_: "next + length data + 2 \<le> usize_max" "next + length data \<le> usize_max"
    using assms(3) by (simp_all add: buffer_fits_def isize_max_def usize_max_def)
  have "drop (next + length data) buf = CR # LF # rest" using drop_append_more [OF assms(1)] by simp
  from drop_Cons(1) [OF this] drop_Cons(1) [OF drop_Cons(2) [OF this]]
  have "validate_bulk_terminator buf (next + length data) = Inr ()" by (simp add: validate_bulk_terminator_def)
  moreover have "slice_get buf next (next + length data) = Some data"
    using len assms(1) by (simp add: slice_get_def)
  ultimately show ?thesis
    using assms(2) len end_ by (simp add: parse_bulk_payload_def checked_add_usize_def)
qed

lemma parse_bulk_payload_partial:
  assumes "strict_prefix (drop next buf) (data @ crlf)" and "length (nat_dec (length data)) + length data + 5 \<le> m"
    and "buffer_fits buf" and "next \<le> length buf" and "length data + 2 \<le> isize_max"
  shows "parse_bulk_payload buf
      \<lparr>bp_start = start, bp_payload_start = next, bp_len = length data, bp_max_frame_length = m\<rparr> = Inr None"
proof -
  have "length (drop next buf) < length data + 2" using prefix_length_less [OF assms(1)] by simp
  then have "length buf < next + length data + 2" using assms(4) by simp
  moreover have "next + length data + 2 \<le> usize_max" "next + length data \<le> usize_max"
    using assms(3-5) by (simp_all add: buffer_fits_def isize_max_def usize_max_def)
  ultimately show ?thesis using assms(2) by (simp add: parse_bulk_payload_def checked_add_usize_def)
qed

section \<open>The parser reads the wire form\<close>

lemma member_concat_length: "x \<in> set xs \<Longrightarrow> length (w x) \<le> length (concat (map w xs))"
  by (induction xs) auto

lemma parse_items_ok:
  assumes "\<And>x start rest. x \<in> set xs \<Longrightarrow> drop start buf = resp_wire x @ rest \<Longrightarrow>
      parse_frame_at buf start m d = Inr (Some (x, length (resp_wire x)))"
    and "drop cursor buf = concat (map resp_wire xs) @ rest" and "buffer_fits buf"
  shows "parse_items buf cursor m d (length xs) acc =
    Inr (Some (acc @ xs, cursor + length (concat (map resp_wire xs))))"
  using assms(1,2)
proof (induction xs arbitrary: cursor acc)
  case (Cons x xs)
  have here: "drop cursor buf = resp_wire x @ concat (map resp_wire xs) @ rest" using Cons.prems(2) by simp
  then have "cursor + length (resp_wire x) \<le> length buf"
    using position_bound [OF here] resp_wire_nonempty [of x] by simp
  then have "checked_add_usize cursor (length (resp_wire x)) = Some (cursor + length (resp_wire x))"
    using assms(3) by (simp add: checked_add_usize_def buffer_fits_def isize_max_def usize_max_def)
  moreover have "parse_items buf (cursor + length (resp_wire x)) m d (length xs) (acc @ [x]) =
      Inr (Some ((acc @ [x]) @ xs, cursor + length (resp_wire x) + length (concat (map resp_wire xs))))"
    using Cons.prems(1) drop_append_more [OF here] by (intro Cons.IH) auto
  ultimately show ?case using Cons.prems(1) [OF _ here] by simp
qed simp

lemma parse_items_partial:
  assumes "\<And>x start rest. x \<in> set xs \<Longrightarrow> drop start buf = resp_wire x @ rest \<Longrightarrow>
      parse_frame_at buf start m d = Inr (Some (x, length (resp_wire x)))"
    and "\<And>x start. x \<in> set xs \<Longrightarrow> strict_prefix (drop start buf) (resp_wire x) \<Longrightarrow>
      parse_frame_at buf start m d = Inr None"
    and "strict_prefix (drop cursor buf) (concat (map resp_wire xs))" and "buffer_fits buf"
  shows "parse_items buf cursor m d (length xs) acc = Inr None"
  using assms(1-3)
proof (induction xs arbitrary: cursor acc)
  case (Cons x xs)
  have "strict_prefix (drop cursor buf) (resp_wire x @ concat (map resp_wire xs))" using Cons.prems(3) by simp
  then show ?case
  proof (cases rule: strict_prefix_appendE)
    case head
    then show ?thesis using Cons.prems(2) [OF _ head] by simp
  next
    case (tail q)
    have "cursor + length (resp_wire x) \<le> length buf"
      using position_bound [OF tail(1)] resp_wire_nonempty [of x] by simp
    then have "checked_add_usize cursor (length (resp_wire x)) = Some (cursor + length (resp_wire x))"
      using assms(4) by (simp add: checked_add_usize_def buffer_fits_def isize_max_def usize_max_def)
    moreover have "parse_items buf (cursor + length (resp_wire x)) m d (length xs) (acc @ [x]) = Inr None"
    proof (rule Cons.IH)
      show "strict_prefix (drop (cursor + length (resp_wire x)) buf) (concat (map resp_wire xs))"
        using drop_append_more [OF tail(1)] tail(2) by simp
    qed (meson Cons.prems(1,2) list.set_intros(2))+
    ultimately show ?thesis using Cons.prems(1) [OF _ tail(1)] by simp
  qed
qed simp

lemma array_header:
  assumes "n \<le> MAX_ARRAY_ELEMENTS"
  shows "n \<le> isize_max" "int n \<le> int isize_max"
  using assms by (simp_all add: MAX_ARRAY_ELEMENTS_def isize_max_def)

lemma parse_array_items:
  assumes "drop start buf = STAR # nat_dec n @ crlf @ rest" and "n \<le> MAX_ARRAY_ELEMENTS"
    and "length (nat_dec n) \<le> m" and "buffer_fits buf"
  shows "parse_array buf start m d =
    then_parsed (parse_items buf (start + length (nat_dec n) + 3) m (d + 1) n []) (\<lambda>frames cursor.
      if cursor < start then Inl (invalid_data ''array too large'')
      else if m < cursor - start then Inl (invalid_data ''frame too large'')
      else Inr (Some (RespArray (Some frames), cursor - start)))"
  using parse_line_ok [OF drop_Cons(2) [OF assms(1)] _ assms(3,4)] assms(2) array_header [OF assms(2)]
  by (subst parse_array.simps)
    (simp add: from_utf8_def parse_number_numeral(2) sint_small usize_try_from_def numeral_3_eq_3)

lemma depth_ok_le: "depth_ok d f \<Longrightarrow> d \<le> MAX_RECURSION_DEPTH"
  by (cases "(d, f)" rule: depth_ok.cases) auto

lemma parse_prefix:
  assumes "drop start buf = c # xs" and "d \<le> MAX_RECURSION_DEPTH"
  shows "parse_frame_at buf start m d =
    (if c = PLUS then parse_simple_string buf start m
     else if c = MINUS then parse_error buf start m
     else if c = COLON then parse_integer buf start m
     else if c = DOLLAR then parse_bulk_string buf start m
     else if c = STAR then parse_array buf start m d
     else Inl (invalid_data ''unsupported RESP prefix''))"
  using assms drop_Cons(1) [OF assms(1)] by (subst parse_frame_at.simps) simp

lemma parse_wire:
  assumes "resp_wf f" and "depth_ok d f" and "length (resp_wire f) \<le> m" and "buffer_fits buf"
    and "drop start buf = resp_wire f @ rest"
  shows "parse_frame_at buf start m d = Inr (Some (f, length (resp_wire f)))"
  using assms
proof (induction f arbitrary: start d rest rule: resp_wire.induct)
  case (1 s)
  then have d: "drop start buf = PLUS # s @ crlf @ rest" by simp
  with 1 show ?case
    using parse_text_line_ok [OF d, of m]
    by (simp add: parse_prefix [OF d] parse_simple_string_def parse_text_frame_def)
next
  case (2 s)
  then have d: "drop start buf = MINUS # s @ crlf @ rest" by simp
  with 2 show ?case
    using parse_text_line_ok [OF d, of m]
    by (simp add: parse_prefix [OF d] parse_error_def parse_text_frame_def)
next
  case (3 v)
  then have d: "drop start buf = COLON # int_dec (sint v) @ crlf @ rest" by simp
  with 3 show ?case
    using parse_text_line_ok [OF d, of m]
    by (simp add: parse_prefix [OF d] parse_integer_def parse_number_numeral(1))
next
  case 4
  then have d: "drop start buf = DOLLAR # int_dec (- 1) @ crlf @ rest" by simp
  with 4 show ?case
    using parse_line_ok [OF drop_Cons(2) [OF d], of m]
    by (simp add: parse_prefix [OF d] parse_bulk_string_def parse_bulk_length_def from_utf8_def
        parse_number_numeral(3))
next
  case (5 data)
  then have d: "drop start buf = DOLLAR # nat_dec (length data) @ crlf @ data @ crlf @ rest" by simp
  have "length data \<le> isize_max"
    using position_bound [OF d] 5(4) by (simp add: buffer_fits_def)
  then have len: "parse_bulk_length buf start m = Inr (Some (BulkSized (length data), start + length (nat_dec (length data)) + 3))"
    using 5(3,4) by (intro parse_bulk_length_ok [OF d]) simp_all
  have "drop (start + length (DOLLAR # nat_dec (length data) @ crlf)) buf = data @ crlf @ rest"
    by (rule drop_append_more) (simp add: d)
  then have "drop (start + length (nat_dec (length data)) + 3) buf = data @ crlf @ rest"
    by (simp add: numeral_3_eq_3)
  from parse_bulk_payload_ok [OF this _ 5(4), of m start] 5(2,3) len
  show ?case by (simp add: parse_prefix [OF d] parse_bulk_string_def)
next
  case 6
  then have d: "drop start buf = STAR # int_dec (- 1) @ crlf @ rest" by simp
  with 6 show ?case
    using parse_line_ok [OF drop_Cons(2) [OF d], of m]
    by (simp add: parse_prefix [OF d] parse_array.simps from_utf8_def parse_number_numeral(3))
next
  case (7 items)
  then have d: "drop start buf = STAR # nat_dec (length items) @ crlf @ concat (map resp_wire items) @ rest" by simp
  have "drop (start + length (STAR # nat_dec (length items) @ crlf)) buf = concat (map resp_wire items) @ rest"
    by (rule drop_append_more) (simp add: d)
  moreover have "parse_frame_at buf pos m (d + 1) = Inr (Some (x, length (resp_wire x)))"
    if "x \<in> set items" "drop pos buf = resp_wire x @ tl" for x pos tl
  proof (rule 7(1))
    show "length (resp_wire x) \<le> m" using 7(4) member_concat_length [OF that(1), of resp_wire] by simp
    show "resp_wf x" "depth_ok (d + 1) x" using 7(2,3) that(1) by (simp_all add: list_all_iff)
  qed (use that 7(5) in simp_all)
  ultimately have "parse_items buf (start + length (nat_dec (length items)) + 3) m (d + 1) (length items) [] =
      Inr (Some ([] @ items, start + length (nat_dec (length items)) + 3 + length (concat (map resp_wire items))))"
    using 7(5) by (intro parse_items_ok) (simp_all add: numeral_3_eq_3)
  then show ?case
    using 7(2-4) by (simp add: parse_prefix [OF d] parse_array_items [OF d _ _ 7(5)])
qed

lemma parse_line_waits:
  assumes "strict_prefix q (s @ crlf)" and "drop start buf = c # q" and "no_crlf s" and "length s \<le> m"
    and "buffer_fits buf"
  shows "parse_line buf (start + 1) m = Inr None"
  using parse_line_partial [of "start + 1" buf s m] drop_Cons(2) [OF assms(2)] assms by simp

lemma parse_waits_empty:
  assumes "drop start buf = []" and "d \<le> MAX_RECURSION_DEPTH"
  shows "parse_frame_at buf start m d = Inr None"
  using assms by (subst parse_frame_at.simps) (simp add: get_def)

lemma parse_waits_line:
  assumes "strict_prefix (drop start buf) ([c] @ s @ crlf)" and "d \<le> MAX_RECURSION_DEPTH" and "no_crlf s"
    and "length s \<le> m" and "buffer_fits buf" and "c \<in> {PLUS, MINUS, COLON, DOLLAR, STAR}"
  shows "parse_frame_at buf start m d = Inr None"
proof -
  from assms(1) have "strict_prefix (drop start buf) (c # s @ crlf)" by simp
  then show ?thesis
  proof (cases rule: strict_prefix_ConsE)
    case empty
    then show ?thesis using assms(2) by (rule parse_waits_empty)
  next
    case (tail q)
    have "parse_line buf (start + 1) m = Inr None" using tail(2,1) assms(3-5) by (rule parse_line_waits)
    then show ?thesis
      using assms(2,6)
      by (auto simp: parse_prefix [OF tail(1)] parse_simple_string_def parse_error_def parse_integer_def
          parse_text_frame_def parse_text_line_def parse_bulk_string_def parse_bulk_length_def parse_array.simps)
  qed
qed

lemma parse_waits_bulk:
  assumes "strict_prefix q (nat_dec (length data) @ crlf @ data @ crlf)" and "drop start buf = DOLLAR # q"
    and "length (nat_dec (length data)) + length data + 5 \<le> m" and "buffer_fits buf"
    and "length data + 2 \<le> isize_max"
  shows "parse_bulk_string buf start m = Inr None"
proof -
  have "strict_prefix q ((nat_dec (length data) @ crlf) @ data @ crlf)" using assms(1) by simp
  then show ?thesis
  proof (cases rule: strict_prefix_appendE)
    case head
    from parse_line_waits [OF this assms(2) _ _ assms(4), of m] assms(3)
    show ?thesis by (simp add: parse_bulk_string_def parse_bulk_length_def)
  next
    case (tail r)
    have d: "drop start buf = DOLLAR # nat_dec (length data) @ crlf @ r" using assms(2) tail(1) by simp
    have len: "parse_bulk_length buf start m = Inr (Some (BulkSized (length data), start + length (nat_dec (length data)) + 3))"
      using assms(3-5) by (intro parse_bulk_length_ok [OF d]) simp_all
    have "drop (start + length (DOLLAR # nat_dec (length data) @ crlf)) buf = r"
      by (rule drop_append_more) (simp add: d)
    then have "strict_prefix (drop (start + length (nat_dec (length data)) + 3) buf) (data @ crlf)"
      using tail(2) by (simp add: numeral_3_eq_3)
    moreover have "start + length (nat_dec (length data)) + 3 \<le> length buf"
      using position_bound [OF d] by simp
    ultimately show ?thesis
      using len parse_bulk_payload_partial [OF _ assms(3,4) _ assms(5)] by (simp add: parse_bulk_string_def)
  qed
qed

lemma parse_waits_array:
  assumes "strict_prefix q (nat_dec (length items) @ crlf @ concat (map resp_wire items))"
    and "drop start buf = STAR # q" and "length items \<le> MAX_ARRAY_ELEMENTS"
    and "length (nat_dec (length items)) \<le> m" and "buffer_fits buf"
    and "\<And>x pos rest. x \<in> set items \<Longrightarrow> drop pos buf = resp_wire x @ rest \<Longrightarrow>
      parse_frame_at buf pos m (d + 1) = Inr (Some (x, length (resp_wire x)))"
    and "\<And>x pos. x \<in> set items \<Longrightarrow> strict_prefix (drop pos buf) (resp_wire x) \<Longrightarrow>
      parse_frame_at buf pos m (d + 1) = Inr None"
  shows "parse_array buf start m d = Inr None"
proof -
  have "strict_prefix q ((nat_dec (length items) @ crlf) @ concat (map resp_wire items))" using assms(1) by simp
  then show ?thesis
  proof (cases rule: strict_prefix_appendE)
    case head
    from parse_line_waits [OF this assms(2) _ assms(4,5)] show ?thesis by (simp add: parse_array.simps)
  next
    case (tail r)
    have dr: "drop start buf = STAR # nat_dec (length items) @ crlf @ r" using assms(2) tail(1) by simp
    have "drop (start + length (STAR # nat_dec (length items) @ crlf)) buf = r"
      by (rule drop_append_more) (simp add: dr)
    then have "strict_prefix (drop (start + length (nat_dec (length items)) + 3) buf) (concat (map resp_wire items))"
      using tail(2) by (simp add: numeral_3_eq_3)
    then have "parse_items buf (start + length (nat_dec (length items)) + 3) m (d + 1) (length items) [] = Inr None"
      by (intro parse_items_partial [OF assms(6,7) _ assms(5)])
    then show ?thesis by (simp add: parse_array_items [OF dr assms(3-5)])
  qed
qed

lemma parse_waits:
  assumes "resp_wf f" and "depth_ok d f" and "length (resp_wire f) \<le> m" and "buffer_fits buf"
    and "buffer_fits (resp_wire f)" and "strict_prefix (drop start buf) (resp_wire f)"
  shows "parse_frame_at buf start m d = Inr None"
  using assms
proof (induction f arbitrary: start d rule: resp_wire.induct)
  case (7 items)
  have lens: "length (resp_wire x) \<le> m" "buffer_fits (resp_wire x)" if "x \<in> set items" for x
    using 7(4,6) member_concat_length [OF that, of resp_wire] by (simp_all add: buffer_fits_def)
  from 7(7) have "strict_prefix (drop start buf) (STAR # nat_dec (length items) @ crlf @ concat (map resp_wire items))"
    by simp
  then show ?case
  proof (cases rule: strict_prefix_ConsE)
    case empty
    then show ?thesis using 7(3) by (rule parse_waits_empty [OF _ depth_ok_le])
  next
    case (tail q)
    have "parse_array buf start m d = Inr None"
    proof (rule parse_waits_array [OF tail(2,1) _ _ 7(5)])
      fix x pos
      assume x: "x \<in> set items"
      have ok: "resp_wf x" "depth_ok (d + 1) x" using 7(2,3) x by (simp_all add: list_all_iff)
      show "parse_frame_at buf pos m (d + 1) = Inr (Some (x, length (resp_wire x)))"
        if "drop pos buf = resp_wire x @ rest" for rest
        using ok lens(1) [OF x] 7(5) that by (rule parse_wire)
      show "parse_frame_at buf pos m (d + 1) = Inr None" if "strict_prefix (drop pos buf) (resp_wire x)"
        using x ok lens(1) [OF x] 7(5) lens(2) [OF x] that by (rule 7(1))
    qed (use 7(2,4) in simp_all)
    then show ?thesis using 7(3) by (simp add: parse_prefix [OF tail(1)])
  qed
next
  case (5 data)
  from 5(6) have "strict_prefix (drop start buf) (DOLLAR # nat_dec (length data) @ crlf @ data @ crlf)" by simp
  then show ?case
  proof (cases rule: strict_prefix_ConsE)
    case empty
    then show ?thesis using 5(2) by (rule parse_waits_empty [OF _ depth_ok_le])
  next
    case (tail q)
    have "parse_bulk_string buf start m = Inr None"
      using 5(3-5) by (intro parse_waits_bulk [OF tail(2,1)]) (simp_all add: buffer_fits_def)
    then show ?thesis using 5(2) by (simp add: parse_prefix [OF tail(1)])
  qed
next
  case (1 s)
  then show ?case by (intro parse_waits_line [of start buf PLUS s]) simp_all
next
  case (2 s)
  then show ?case by (intro parse_waits_line [of start buf MINUS s]) simp_all
next
  case (3 v)
  then show ?case by (intro parse_waits_line [of start buf COLON "int_dec (sint v)"]) simp_all
next
  case 4
  then show ?case by (intro parse_waits_line [of start buf DOLLAR "int_dec (- 1)"]) simp_all
next
  case 6
  then show ?case by (intro parse_waits_line [of start buf STAR "int_dec (- 1)"]) simp_all
qed

section \<open>The encoder measures and writes the wire form\<close>

lemma checked_add_Inr: "checked_add a b = Inr n \<longleftrightarrow> n = a + b \<and> n \<le> usize_max"
  by (auto simp: checked_add_def checked_add_usize_def)

lemma and_then_Inr: "and_then r k = Inr x \<longleftrightarrow> (\<exists>y. r = Inr y \<and> k y = Inr x)"
  by (cases r) auto

lemma encoded_len_items_iff:
  assumes "\<And>x n. x \<in> set xs \<Longrightarrow>
      encoded_len_at x d = Inr n \<longleftrightarrow> depth_ok d x \<and> n = length (resp_wire x) \<and> n \<le> usize_max"
    and "acc \<le> usize_max"
  shows "encoded_len_items acc xs d = Inr n \<longleftrightarrow>
    list_all (depth_ok d) xs \<and> n = acc + length (concat (map resp_wire xs)) \<and> n \<le> usize_max"
  using assms
proof (induction xs arbitrary: acc)
  case (Cons x xs)
  have "encoded_len_items acc (x # xs) d = Inr n \<longleftrightarrow>
      depth_ok d x \<and> length (resp_wire x) \<le> usize_max \<and> acc + length (resp_wire x) \<le> usize_max \<and>
      encoded_len_items (acc + length (resp_wire x)) xs d = Inr n"
    using Cons.prems(1) [of x] by (auto simp: and_then_Inr checked_add_Inr)
  also have "\<dots> \<longleftrightarrow> depth_ok d x \<and> length (resp_wire x) \<le> usize_max \<and> acc + length (resp_wire x) \<le> usize_max \<and>
      list_all (depth_ok d) xs \<and> n = acc + length (resp_wire x) + length (concat (map resp_wire xs)) \<and> n \<le> usize_max"
    using Cons.IH [of "acc + length (resp_wire x)"] Cons.prems(1) by auto
  finally show ?case by auto
qed auto

lemma encoded_len_at_iff:
  "encoded_len_at f d = Inr n \<longleftrightarrow> depth_ok d f \<and> n = length (resp_wire f) \<and> n \<le> usize_max"
proof (induction f arbitrary: d n rule: resp_wire.induct)
  case (7 items)
  have "encoded_len_at (RespArray (Some items)) d = Inr n \<longleftrightarrow> d \<le> MAX_RECURSION_DEPTH \<and>
      length (nat_dec (length items)) + 3 \<le> usize_max \<and>
      encoded_len_items (length (nat_dec (length items)) + 3) items (d + 1) = Inr n"
    by (auto simp: encoded_len_at.simps and_then_Inr checked_add_Inr numeral_3_eq_3)
  also have "\<dots> \<longleftrightarrow> d \<le> MAX_RECURSION_DEPTH \<and> length (nat_dec (length items)) + 3 \<le> usize_max \<and>
      list_all (depth_ok (d + 1)) items \<and>
      n = length (nat_dec (length items)) + 3 + length (concat (map resp_wire items)) \<and> n \<le> usize_max"
    using encoded_len_items_iff [OF 7, of items "length (nat_dec (length items)) + 3"] by auto
  finally show ?case by auto
qed (auto simp: encoded_len_at.simps and_then_Inr checked_add_Inr null_numeral usize_max_def)

lemma encode_items_eq:
  assumes "\<And>x dst. x \<in> set xs \<Longrightarrow> depth_ok d x \<Longrightarrow> encode_frame_at it x dst d = (dst @ resp_wire x, Inr ())"
    and "\<And>x dst. x \<in> set xs \<Longrightarrow> \<not> depth_ok d x \<Longrightarrow> \<exists>dst'. encode_frame_at it x dst d = (dst', Inl depth_exceeded)"
  shows "if list_all (depth_ok d) xs then encode_items it xs dst d = (dst @ concat (map resp_wire xs), Inr ())
    else \<exists>dst'. encode_items it xs dst d = (dst', Inl depth_exceeded)"
  using assms
proof (induction xs arbitrary: dst)
  case (Cons x xs)
  show ?case
  proof (cases "depth_ok d x")
    case True
    then show ?thesis using Cons.IH [of "dst @ resp_wire x"] Cons.prems by simp
  next
    case False
    then show ?thesis using Cons.prems(2) [of x dst] by auto
  qed
qed simp

lemma encode_frame_at_eq:
  assumes "itoa_documented it"
  shows "if depth_ok d f then encode_frame_at it f dst d = (dst @ resp_wire f, Inr ())
    else \<exists>dst'. encode_frame_at it f dst d = (dst', Inl depth_exceeded)"
proof (induction f arbitrary: d dst rule: resp_wire.induct)
  case (7 items)
  have "if list_all (depth_ok (d + 1)) items
    then encode_items it items (dst @ [STAR] @ nat_dec (length items) @ crlf) (d + 1) =
      ((dst @ [STAR] @ nat_dec (length items) @ crlf) @ concat (map resp_wire items), Inr ())
    else \<exists>dst'. encode_items it items (dst @ [STAR] @ nat_dec (length items) @ crlf) (d + 1) = (dst', Inl depth_exceeded)"
    using 7 by (intro encode_items_eq) presburger+
  then show ?case
    using assms by (auto simp: encode_frame_at.simps itoa_documented_def)
qed (use assms in \<open>auto simp: encode_frame_at.simps itoa_documented_def null_numeral\<close>)

definition resp_writer :: "itoa_lib \<Rightarrow> resp_adapter \<Rightarrow> resp_frame encoder" where
  "resp_writer it a f dst = (case resp_encode it a f dst of (dst', Inr _) \<Rightarrow> Inr dst' | (_, Inl e) \<Rightarrow> Inl e)"

lemma resp_encode_ok:
  assumes "itoa_documented it" and "depth_ok 0 f" and "length (resp_wire f) \<le> ra_max_frame_length a"
    and "length (resp_wire f) \<le> usize_max"
  shows "resp_encode it a f dst = (dst @ resp_wire f, Inr ())"
proof -
  have "encoded_len f = Inr (length (resp_wire f))"
    using assms(2,4) by (simp add: encoded_len_def encoded_len_at_iff)
  then show ?thesis
    using assms(2,3) encode_frame_at_eq [OF assms(1), of 0 f dst] by (simp add: resp_encode_def encode_frame_def)
qed

lemma resp_encode_refuses:
  assumes "\<not> (depth_ok 0 f \<and> length (resp_wire f) \<le> ra_max_frame_length a \<and> length (resp_wire f) \<le> usize_max)"
  shows "\<exists>e. resp_encode it a f dst = (dst, Inl e)"
proof (cases "encoded_len f")
  case (Inr n)
  then have "depth_ok 0 f \<and> n = length (resp_wire f) \<and> n \<le> usize_max"
    by (simp add: encoded_len_def encoded_len_at_iff)
  then show ?thesis using assms Inr by (auto simp: resp_encode_def)
qed (simp add: resp_encode_def)

section \<open>The codec as an instance of the stream contract\<close>

lemma buffer_fits_usize: "buffer_fits bs \<Longrightarrow> length bs \<le> usize_max"
  by (simp add: buffer_fits_def isize_max_def usize_max_def)

lemma resp_stream_codec:
  assumes "itoa_documented it"
  shows "stream_codec (resp_decode a) (resp_writer it a) resp_wire (resp_accepts a) buffer_fits"
proof unfold_locales
  fix f dst rest p
  show "resp_writer it a f dst = Inr (dst @ resp_wire f)" if "resp_accepts a f"
    using that resp_encode_ok [OF assms, of f a dst] buffer_fits_usize [of "resp_wire f"]
    by (simp add: resp_accepts_def resp_writer_def)
  show "resp_wire f \<noteq> []" by (rule resp_wire_nonempty)
  show "resp_decode a (resp_wire f @ rest) = (rest, Inr (Some f))"
    if "resp_accepts a f" "buffer_fits (resp_wire f @ rest)"
    using that parse_wire [of f 0 "ra_max_frame_length a" "resp_wire f @ rest" 0 rest]
    by (simp add: resp_accepts_def resp_decode_def parse_frame_def)
  show "resp_decode a p = (p, Inr None)"
    if "resp_accepts a f" "strict_prefix p (resp_wire f)" "buffer_fits p"
    using that parse_waits [of f 0 "ra_max_frame_length a" p 0]
    by (simp add: resp_accepts_def resp_decode_def parse_frame_def)
  show "resp_decode a [] = ([], Inr None)"
    using parse_waits_empty [of 0 "[]" 0] by (simp add: resp_decode_def parse_frame_def)
  show "buffer_fits (xs @ ys) \<Longrightarrow> buffer_fits xs \<and> buffer_fits ys" for xs ys by (simp add: buffer_fits_def)
qed

interpretation resp: stream_codec
  "resp_decode a" "resp_writer reference_itoa a" resp_wire "resp_accepts a" buffer_fits for a
  by (rule resp_stream_codec) simp

section \<open>What the parser produces\<close>

lemma find_line_Some:
  "find_line m i xs = Inr (Some n) \<Longrightarrow> \<exists>s rest. xs = s @ crlf @ rest \<and> no_crlf s \<and> n = i + length s"
proof (induction xs arbitrary: i)
  case (Cons b bs)
  show ?case
  proof (cases "b = CR \<and> bs \<noteq> [] \<and> hd bs = LF")
    case True
    then have "b # bs = [] @ crlf @ tl bs" by (cases bs) auto
    then show ?thesis using Cons.prems True by (intro exI [of _ "[]"] exI [of _ "tl bs"] conjI) (auto split: if_splits)
  next
    case False
    then have "find_line m (Suc i) bs = Inr (Some n)" using Cons.prems by (auto split: if_splits)
    from Cons.IH [OF this] obtain s rest where s: "bs = s @ crlf @ rest" "no_crlf s" "n = Suc i + length s" by blast
    then have "no_crlf (b # s)" using False by (cases s) auto
    then show ?thesis using s by (intro exI [of _ "b # s"] exI [of _ rest] conjI) auto
  qed
qed simp

lemma parse_line_Some:
  assumes "parse_line buf start m = Inr (Some (line, next))" and "buffer_fits buf"
  shows "no_crlf line \<and> next = start + length line + 2 \<and> next \<le> length buf"
proof -
  obtain n where n: "find_line m 0 (drop start buf) = Inr (Some n)" "line = take n (drop start buf)" "next = start + n + 2"
    using assms parse_line_from_find [OF buffer_fits_usize [OF assms(2)], of start start m]
    by (auto simp: parse_line_def found_line_def split: sum.splits option.splits)
  from find_line_Some [OF n(1)] obtain s rest where s: "drop start buf = s @ crlf @ rest" "no_crlf s" "n = length s"
    by auto
  then show ?thesis using n position_bound [OF s(1)] by simp
qed

lemma then_parsed_Some:
  "then_parsed r k = Inr (Some y) \<longleftrightarrow> (\<exists>x next. r = Inr (Some (x, next)) \<and> k x next = Inr (Some y))"
  by (auto simp: then_parsed_def split: sum.splits option.splits)

lemma parse_number_length:
  assumes "parse_number s msg = Inr v"
  shows "length (int_dec (sint v)) \<le> length s" "usize_try_from v msg' = Inr n \<Longrightarrow> length (nat_dec n) \<le> length s"
proof -
  show "length (int_dec (sint v)) \<le> length s"
    using assms by (auto simp: parse_number_def intro: parse_i64_length split: option.splits)
  then show "usize_try_from v msg' = Inr n \<Longrightarrow> length (nat_dec n) \<le> length s"
    by (auto simp: usize_try_from_def int_dec_def split: if_splits)
qed

lemma from_utf8_Inr: "from_utf8 line msg = Inr s \<longleftrightarrow> s = line \<and> utf8_valid line"
  by (auto simp: from_utf8_def)

text \<open>A leaf is well-formed, lies in the buffer, and its wire form is no longer than what was read.\<close>

definition leaf_read :: "bytes \<Rightarrow> usize \<Rightarrow> resp_frame parsed \<Rightarrow> bool" where
  "leaf_read buf start r \<longleftrightarrow> (\<forall>f c. r = Inr (Some (f, c)) \<longrightarrow>
     resp_wf f \<and> (\<forall>d. depth_ok d f \<longleftrightarrow> d \<le> MAX_RECURSION_DEPTH) \<and> length (resp_wire f) \<le> c \<and> start + c \<le> length buf)"

lemma leaf_text:
  assumes "buffer_fits buf"
  shows "leaf_read buf start (parse_simple_string buf start m)" "leaf_read buf start (parse_error buf start m)"
    "leaf_read buf start (parse_integer buf start m)"
  unfolding leaf_read_def parse_simple_string_def parse_error_def parse_integer_def parse_text_frame_def parse_text_line_def
  by (auto simp: then_parsed_Some and_then_Inr from_utf8_Inr dest!: parse_line_Some [OF _ assms] dest: parse_number_length(1))

lemma parse_bulk_payload_Some:
  assumes "parse_bulk_payload buf spec = Inr (Some (f, c))"
  shows "\<exists>data. f = BulkString (Some data) \<and> length data = bp_len spec \<and>
    c = bp_payload_start spec + bp_len spec + 2 - bp_start spec \<and> bp_payload_start spec + bp_len spec + 2 \<le> length buf"
  using assms
  by (auto simp: parse_bulk_payload_def Let_def and_then_Inr slice_get_def checked_add_usize_def
      split: if_splits option.splits bind_splits)

lemma leaf_bulk:
  assumes "buffer_fits buf"
  shows "leaf_read buf start (parse_bulk_string buf start m)"
proof -
  have "leaf_read buf start (Inr (Some (f, c)))" if parsed: "parse_bulk_string buf start m = Inr (Some (f, c))" for f c
  proof -
    from parsed obtain len pos where len: "parse_bulk_length buf start m = Inr (Some (len, pos))"
      and rest: "(case len of BulkNull \<Rightarrow> Inr (Some (BulkString None, pos - start))
         | BulkSized n \<Rightarrow> parse_bulk_payload buf
             \<lparr>bp_start = start, bp_payload_start = pos, bp_len = n, bp_max_frame_length = m\<rparr>) = Inr (Some (f, c))"
      unfolding parse_bulk_string_def then_parsed_Some by blast
    from len obtain line v where line: "parse_line buf (start + 1) m = Inr (Some (line, pos))"
      and v: "parse_number line ''invalid bulk length'' = Inr v"
      and kind: "len = BulkNull \<and> sint v = -1 \<or> (\<exists>n. len = BulkSized n \<and> usize_try_from v ''bulk length too large'' = Inr n)"
      unfolding parse_bulk_length_def
      by (auto simp: then_parsed_Some and_then_Inr from_utf8_Inr split: if_splits)
    have pos: "pos = start + length line + 3" "pos \<le> length buf" using parse_line_Some [OF line assms] by simp_all
    from kind show ?thesis
    proof (elim disjE exE conjE)
      fix n assume "len = BulkSized n" "usize_try_from v ''bulk length too large'' = Inr n"
      with rest parse_number_length(2) [OF v] show ?thesis
        using pos by (auto simp: leaf_read_def dest!: parse_bulk_payload_Some)
    qed (use rest pos parse_number_length(1) [OF v] in \<open>auto simp: leaf_read_def\<close>)
  qed
  then show ?thesis unfolding leaf_read_def by blast
qed

text \<open>The same for every frame, at the depth at which it was read.\<close>

definition frame_read :: "bytes \<Rightarrow> usize \<Rightarrow> usize \<Rightarrow> resp_frame parsed \<Rightarrow> bool" where
  "frame_read buf start d r \<longleftrightarrow> (\<forall>f c. r = Inr (Some (f, c)) \<longrightarrow>
     resp_wf f \<and> depth_ok d f \<and> length (resp_wire f) \<le> c \<and> start + c \<le> length buf)"

lemma leaf_frame_read: "leaf_read buf start r \<Longrightarrow> d \<le> MAX_RECURSION_DEPTH \<Longrightarrow> frame_read buf start d r"
  by (auto simp: leaf_read_def frame_read_def)

definition items_read :: "bytes \<Rightarrow> usize \<Rightarrow> usize \<Rightarrow> nat \<Rightarrow> resp_frame list \<Rightarrow> resp_frame list parsed \<Rightarrow> bool" where
  "items_read buf cursor d n acc r \<longleftrightarrow> (\<forall>fs pos. r = Inr (Some (fs, pos)) \<longrightarrow> cursor \<le> length buf \<longrightarrow>
     (\<exists>xs. fs = acc @ xs \<and> length xs = n \<and> list_all resp_wf xs \<and> list_all (depth_ok d) xs \<and>
        cursor + length (concat (map resp_wire xs)) \<le> pos \<and> pos \<le> length buf))"

lemma items_read_Suc:
  assumes "frame_read buf cursor d (parse_frame_at buf cursor m d)"
    and "\<And>frame consumed pos. parse_frame_at buf cursor m d = Inr (Some (frame, consumed)) \<Longrightarrow>
      checked_add_usize cursor consumed = Some pos \<Longrightarrow>
      items_read buf pos d n (acc @ [frame]) (parse_items buf pos m d n (acc @ [frame]))"
  shows "items_read buf cursor d (Suc n) acc (parse_items buf cursor m d (Suc n) acc)"
  unfolding items_read_def
proof (intro allI impI)
  fix fs pos
  assume r: "parse_items buf cursor m d (Suc n) acc = Inr (Some (fs, pos))"
  then obtain frame consumed mid where f: "parse_frame_at buf cursor m d = Inr (Some (frame, consumed))"
    "checked_add_usize cursor consumed = Some mid" "parse_items buf mid m d n (acc @ [frame]) = Inr (Some (fs, pos))"
    by (auto simp: then_parsed_Some split: option.splits)
  have mid: "mid = cursor + consumed" using f(2) by (simp add: checked_add_usize_Some)
  have fr: "resp_wf frame" "depth_ok d frame" "length (resp_wire frame) \<le> consumed" "cursor + consumed \<le> length buf"
    using assms(1) f(1) by (simp_all add: frame_read_def)
  from assms(2) [OF f(1,2)] f(3) fr(4) obtain xs where "fs = (acc @ [frame]) @ xs" "length xs = n"
    "list_all resp_wf xs" "list_all (depth_ok d) xs" "mid + length (concat (map resp_wire xs)) \<le> pos" "pos \<le> length buf"
    unfolding items_read_def mid by blast
  then show "\<exists>xs. fs = acc @ xs \<and> length xs = Suc n \<and> list_all resp_wf xs \<and> list_all (depth_ok d) xs \<and>
      cursor + length (concat (map resp_wire xs)) \<le> pos \<and> pos \<le> length buf"
    using fr mid by (intro exI [of _ "frame # xs"]) simp
qed

lemma array_read:
  assumes "buffer_fits buf" and "d \<le> MAX_RECURSION_DEPTH"
    and "\<And>cursor n. items_read buf cursor (d + 1) n [] (parse_items buf cursor m (d + 1) n [])"
  shows "frame_read buf start d (parse_array buf start m d)"
  unfolding frame_read_def
proof (intro allI impI)
  fix f c
  assume "parse_array buf start m d = Inr (Some (f, c))"
  then obtain line pos v where line: "parse_line buf (start + 1) m = Inr (Some (line, pos))"
    and v: "parse_number line ''invalid array length'' = Inr v"
    and kind: "sint v = -1 \<and> f = RespArray None \<and> c = pos - start \<or>
      (\<exists>n fs pos'. usize_try_from v ''array too large'' = Inr n \<and> n \<le> MAX_ARRAY_ELEMENTS \<and>
        parse_items buf pos m (d + 1) n [] = Inr (Some (fs, pos')) \<and> f = RespArray (Some fs) \<and> c = pos' - start \<and> start \<le> pos')"
    by (subst (asm) parse_array.simps)
      (auto simp: then_parsed_Some and_then_Inr from_utf8_Inr split: if_splits)
  have pos: "pos = start + length line + 3" "pos \<le> length buf" using parse_line_Some [OF line assms(1)] by simp_all
  from kind show "resp_wf f \<and> depth_ok d f \<and> length (resp_wire f) \<le> c \<and> start + c \<le> length buf"
  proof (elim disjE exE conjE)
    fix n fs pos'
    assume n: "usize_try_from v ''array too large'' = Inr n" "n \<le> MAX_ARRAY_ELEMENTS"
      "parse_items buf pos m (d + 1) n [] = Inr (Some (fs, pos'))" "f = RespArray (Some fs)" "c = pos' - start" "start \<le> pos'"
    from assms(3) [of pos n] n(3) pos(2) have "length fs = n" "list_all resp_wf fs" "list_all (depth_ok (d + 1)) fs"
      "pos + length (concat (map resp_wire fs)) \<le> pos'" "pos' \<le> length buf"
      by (auto simp: items_read_def)
    then show ?thesis using n pos parse_number_length(2) [OF v n(1)] assms(2) by auto
  qed (use pos parse_number_length(1) [OF v] assms(2) in auto)
qed

lemma items_read_all:
  assumes "\<And>start. frame_read buf start d (parse_frame_at buf start m d)"
  shows "items_read buf cursor d n acc (parse_items buf cursor m d n acc)"
proof (induction n arbitrary: cursor acc)
  case 0
  show ?case by (simp add: items_read_def)
next
  case (Suc n)
  show ?case by (rule items_read_Suc [OF assms Suc.IH])
qed

lemma frames_read:
  assumes "buffer_fits buf"
  shows "frame_read buf start d (parse_frame_at buf start m d)"
proof (induction "65 - d" arbitrary: d start)
  case 0
  then show ?case by (simp add: frame_read_def parse_frame_at.simps MAX_RECURSION_DEPTH_def)
next
  case (Suc k)
  then have d: "d \<le> MAX_RECURSION_DEPTH" by (simp add: MAX_RECURSION_DEPTH_def)
  have "frame_read buf pos (d + 1) (parse_frame_at buf pos m (d + 1))" for pos
    by (rule Suc.hyps(1)) (use Suc.hyps(2) in simp)
  then have arr: "frame_read buf start d (parse_array buf start m d)"
    using d by (intro array_read [OF assms] items_read_all)
  show ?case
  proof (cases "drop start buf")
    case Nil
    then show ?thesis using parse_waits_empty [OF _ d] by (simp add: frame_read_def)
  next
    case (Cons c xs)
    then show ?thesis
      using d arr leaf_frame_read [OF leaf_bulk [OF assms]] leaf_frame_read [OF leaf_text(1) [OF assms]]
        leaf_frame_read [OF leaf_text(2) [OF assms]] leaf_frame_read [OF leaf_text(3) [OF assms]]
      by (simp add: parse_prefix frame_read_def)
  qed
qed

section \<open>Properties\<close>

text \<open>
  C11: The RESP stream round trip. Frames that both directions handle (valid text without line
  breaks, arrays within 1024 elements and 64 levels, wire form within the configured length) are
  all encoded, and a reader that receives the bytes cut into reads at arbitrary places decodes
  exactly those frames, with no error and nothing left over.
\<close>

theorem resp_stream_roundtrip:
  assumes "itoa_documented it" and "list_all (resp_accepts a) fs"
  shows "\<exists>out. encode_all (resp_writer it a) fs [] = Inr out \<and>
    (\<forall>chunks. concat chunks = out \<and> buffer_fits out \<longrightarrow> feed (resp_decode a) [] chunks = (fs, [], None))"
proof -
  have "encode_all (resp_writer it a) fs [] = Inr ([] @ concat (map resp_wire fs))"
    using assms(2) by (rule stream_codec.encode_all_wire [OF resp_stream_codec [OF assms(1)]])
  then show ?thesis using resp.feed_wire [OF assms(2)] by simp
qed

theorem resp_stream_roundtrip_witness:
  "feed (resp_decode (resp_adapter_new 100)) []
     [[42, 50, 13], [10, 58, 45, 55, 13, 10, 36], [49, 13, 10, 9, 13, 10, 43, 13], [10]] =
     ([RespArray (Some [Integer (- 7), BulkString (Some [9])]), SimpleString []], [], None)"
proof -
  let ?fs = "[RespArray (Some [Integer (- 7), BulkString (Some [9])]), SimpleString []]"
  have n: "nat_dec 1 = [49]" "nat_dec 2 = [50]" "int_dec (- 7) = [45, 55]" "nat_dec (Suc 0) = [49]" "nat_dec (Suc (Suc 0)) = [50]"
    by (simp_all add: int_dec_def nat_dec.simps)
  have acc: "list_all (resp_accepts (resp_adapter_new 100)) ?fs"
    by (simp add: resp_accepts_def resp_adapter_new_def MAX_ARRAY_ELEMENTS_def MAX_RECURSION_DEPTH_def n
        buffer_fits_def isize_max_def)
  have wire: "concat (map resp_wire ?fs) =
      [42, 50, 13, 10, 58, 45, 55, 13, 10, 36, 49, 13, 10, 9, 13, 10, 43, 13, 10]"
    by (simp add: n)
  have enc: "encode_all (resp_writer reference_itoa (resp_adapter_new 100)) ?fs [] = Inr (concat (map resp_wire ?fs))"
    using resp.encode_all_wire [OF acc, of "[]"] by simp
  obtain out where out: "encode_all (resp_writer reference_itoa (resp_adapter_new 100)) ?fs [] = Inr out"
    "\<forall>chunks. concat chunks = out \<and> buffer_fits out \<longrightarrow> feed (resp_decode (resp_adapter_new 100)) [] chunks = (?fs, [], None)"
    using resp_stream_roundtrip [OF reference_itoa_documented acc] by blast
  have "out = [42, 50, 13, 10, 58, 45, 55, 13, 10, 36, 49, 13, 10, 9, 13, 10, 43, 13, 10]"
    using out(1) unfolding enc wire by (simp only: sum.inject)
  then show ?thesis by (intro out(2) [THEN spec, THEN mp]) (simp add: buffer_fits_def isize_max_def)
qed

text \<open>
  C23: Decoded frames are well-formed. Whatever bytes arrive, a frame the decoder yields has text
  in valid UTF-8 without a line break, arrays of at most 1024 elements nested at most 64 deep, and
  a wire form no longer than the bytes it was read from, which are between one and the maximal
  length and are exactly what was removed. Encoding it again therefore succeeds, and decoding the
  result yields the same frame.
\<close>

theorem resp_decoded_wellformed:
  assumes "buffer_fits src" and "resp_decode a src = (rest, Inr (Some f))" and "itoa_documented it"
  shows "\<exists>used. src = used @ rest \<and> used \<noteq> [] \<and> length used \<le> ra_max_frame_length a \<and>
    resp_accepts a f \<and> length (resp_wire f) \<le> length used \<and>
    (\<forall>dst. resp_encode it a f dst = (dst @ resp_wire f, Inr ())) \<and>
    resp_decode a (resp_wire f) = ([], Inr (Some f))"
proof -
  obtain c where c: "parse_frame_at src 0 (ra_max_frame_length a) 0 = Inr (Some (f, c))"
    "c \<le> ra_max_frame_length a" "rest = drop c src"
    using assms(2) by (auto simp: resp_decode_def parse_frame_def split: sum.splits option.splits if_splits)
  have read: "resp_wf f" "depth_ok 0 f" "length (resp_wire f) \<le> c" "c \<le> length src"
    using frames_read [OF assms(1), of 0 0 "ra_max_frame_length a"] c(1) by (auto simp: frame_read_def)
  have fits: "buffer_fits (resp_wire f)" using read(3,4) assms(1) by (simp add: buffer_fits_def)
  have acc: "resp_accepts a f" using read c(2) fits by (simp add: resp_accepts_def)
  have "0 < c" using read(3) resp_wire_nonempty [of f] by (cases c) auto
  then have used: "src = take c src @ rest" "take c src \<noteq> []" "length (take c src) = c"
    using c(3) read(4) by auto
  have "resp_encode it a f dst = (dst @ resp_wire f, Inr ())" for dst
    using assms(3) read(2) acc fits [THEN buffer_fits_usize] by (intro resp_encode_ok) (auto simp: resp_accepts_def)
  moreover have "resp_decode a (resp_wire f) = ([], Inr (Some f))"
    using resp.decode_wire [OF acc, of "[]"] fits by simp
  ultimately show ?thesis using used acc c(2) read(3) by (intro exI [of _ "take c src"]) simp
qed

theorem resp_decoded_wellformed_witness:
  "\<exists>used. ([58, 43, 48, 55, 13, 10, 99] :: bytes) = used @ [99] \<and> resp_accepts (resp_adapter_new 8) (Integer 7) \<and>
    length (resp_wire (Integer 7)) \<le> length used \<and>
    resp_decode (resp_adapter_new 8) (resp_wire (Integer 7)) = ([], Inr (Some (Integer 7)))"
proof -
  let ?src = "[58, 43, 48, 55, 13, 10, 99] :: bytes"
  have fits: "buffer_fits ?src" by (simp add: buffer_fits_def isize_max_def)
  have "parse_line ?src (0 + 1) 8 = Inr (Some ([43, 48, 55], 0 + 1 + length [43, 48, 55 :: u8] + 2))"
    using fits by (intro parse_line_ok [of "0 + 1" ?src "[43, 48, 55]" "[99]"]) simp_all
  moreover have "parse_i64 [43, 48, 55] = Some 7"
    by (simp add: parse_i64_def parse_digits_def is_digit_def digits_val_def in_i64_def)
  ultimately have "resp_decode (resp_adapter_new 8) ?src = ([99], Inr (Some (Integer 7)))"
    by (simp add: resp_decode_def parse_frame_def parse_prefix [of 0 ?src 58] resp_adapter_new_def parse_integer_def
        parse_text_line_def from_utf8_def parse_number_def)
  from resp_decoded_wellformed [OF fits this reference_itoa_documented] show ?thesis by blast
qed

lemma length_le_concat_wire: "length xs \<le> length (concat (map resp_wire xs))"
proof (induction xs)
  case (Cons x xs)
  have "0 < length (resp_wire x)" using resp_wire_nonempty by simp
  with Cons show ?case by (simp del: length_greater_0_conv)
qed simp

text \<open>
  C38: The encoder is more permissive than the decoder, although both check the same maximal
  length. Text with a line break is written as it is, and the reader takes it for a shorter frame
  followed by further input, which is under the control of whoever supplied the text. An array
  of more than 1024 elements is written, and the reader fails on it.
\<close>

theorem resp_encoder_exceeds_decoder:
  assumes "itoa_documented it" and "utf8_valid u" and "no_crlf u"
    and "length (u @ crlf @ w) + 3 \<le> ra_max_frame_length a" and "length (u @ crlf @ w) + 3 \<le> isize_max"
    and "MAX_ARRAY_ELEMENTS < length items" and "depth_ok 0 (RespArray (Some items))"
    and "length (resp_wire (RespArray (Some items))) \<le> ra_max_frame_length a"
    and "buffer_fits (resp_wire (RespArray (Some items)))"
  shows "(\<exists>out. resp_encode it a (SimpleString (u @ crlf @ w)) [] = (out, Inr ()) \<and>
      resp_decode a out = (w @ crlf, Inr (Some (SimpleString u)))) \<and>
    (\<exists>out. resp_encode it a (RespArray (Some items)) [] = (out, Inr ()) \<and>
      resp_decode a out = (out, Inl (invalid_data ''array element count exceeds limit'')))"
proof
  let ?f = "SimpleString (u @ crlf @ w)" and ?g = "RespArray (Some items)"
  have fits: "buffer_fits (resp_wire (SimpleString u) @ w @ crlf)" using assms(5) by (simp add: buffer_fits_def)
  have "resp_encode it a ?f [] = ([] @ resp_wire ?f, Inr ())"
    using assms(4) buffer_fits_usize [OF fits]
    by (intro resp_encode_ok [OF assms(1)]) (simp_all add: MAX_RECURSION_DEPTH_def)
  moreover have "resp_accepts a (SimpleString u)"
    using assms(2-5) by (simp add: resp_accepts_def MAX_RECURSION_DEPTH_def buffer_fits_def)
  from resp.decode_wire [OF this fits] have "resp_decode a (resp_wire ?f) = (w @ crlf, Inr (Some (SimpleString u)))"
    by simp
  ultimately show "\<exists>out. resp_encode it a ?f [] = (out, Inr ()) \<and> resp_decode a out = (w @ crlf, Inr (Some (SimpleString u)))"
    by auto
  have "resp_encode it a ?g [] = ([] @ resp_wire ?g, Inr ())"
    using assms(7,8) buffer_fits_usize [OF assms(9)] by (intro resp_encode_ok [OF assms(1)])
  moreover have "resp_decode a (resp_wire ?g) = (resp_wire ?g, Inl (invalid_data ''array element count exceeds limit''))"
  proof -
    have d: "drop 0 (resp_wire ?g) = STAR # nat_dec (length items) @ crlf @ concat (map resp_wire items)" by simp
    have n: "length items \<le> isize_max" "int (length items) \<le> int isize_max"
      using length_le_concat_wire [of items] assms(9) by (simp_all add: buffer_fits_def)
    have "length (nat_dec (length items)) \<le> ra_max_frame_length a" using assms(8) by simp
    from parse_line_ok [OF drop_Cons(2) [OF d] _ this assms(9)]
    have "parse_array (resp_wire ?g) 0 (ra_max_frame_length a) 0 =
        Inl (invalid_data ''array element count exceeds limit'')"
      using n assms(6)
      by (subst parse_array.simps)
        (simp del: resp_wire.simps add: from_utf8_def parse_number_numeral(2) sint_small usize_try_from_def)
    then show ?thesis
      by (simp del: resp_wire.simps add: resp_decode_def parse_frame_def parse_prefix [OF d])
  qed
  ultimately show "\<exists>out. resp_encode it a ?g [] = (out, Inr ()) \<and>
      resp_decode a out = (out, Inl (invalid_data ''array element count exceeds limit''))" by auto
qed

theorem resp_encoder_exceeds_decoder_witness:
  "(\<exists>out. resp_encode reference_itoa (resp_adapter_new 6000) (SimpleString ([79, 75] @ crlf @ [58, 49])) [] = (out, Inr ()) \<and>
      resp_decode (resp_adapter_new 6000) out = ([58, 49] @ crlf, Inr (Some (SimpleString [79, 75])))) \<and>
    (\<exists>out. resp_encode reference_itoa (resp_adapter_new 6000) (RespArray (Some (replicate 1025 (BulkString None)))) [] = (out, Inr ()) \<and>
      resp_decode (resp_adapter_new 6000) out = (out, Inl (invalid_data ''array element count exceeds limit'')))"
proof -
  have len: "length (resp_wire (RespArray (Some (replicate 1025 (BulkString None))))) = 5132"
    by (simp add: null_numeral length_concat sum_list_replicate nat_dec.simps)
  show ?thesis
    by (rule resp_encoder_exceeds_decoder)
      (simp_all del: resp_wire.simps add: len resp_adapter_new_def isize_max_def MAX_ARRAY_ELEMENTS_def
        MAX_RECURSION_DEPTH_def buffer_fits_def list_all_iff)
qed

text \<open>
  C39: Measuring agrees with writing. The length that \<open>encoded_len\<close> computes without rendering is
  that of the wire form, and it is refused exactly for nesting beyond the limit or a length beyond
  the address range. The adapter writes the wire form of exactly the frames that pass this and
  the maximal length; when it refuses a frame it has written nothing.
\<close>

theorem resp_encode_exact:
  assumes "itoa_documented it"
  shows "(encoded_len f = Inr n \<longleftrightarrow> depth_ok 0 f \<and> n = length (resp_wire f) \<and> n \<le> usize_max) \<and>
    (if depth_ok 0 f \<and> length (resp_wire f) \<le> ra_max_frame_length a \<and> length (resp_wire f) \<le> usize_max
     then resp_encode it a f dst = (dst @ resp_wire f, Inr ())
     else \<exists>e. resp_encode it a f dst = (dst, Inl e))"
  using resp_encode_ok [OF assms, of f a dst] resp_encode_refuses [of f a it dst]
  by (simp add: encoded_len_def encoded_len_at_iff)

theorem resp_encode_exact_witness:
  "encoded_len (BulkString None) = Inr 5 \<and>
   resp_encode reference_itoa (resp_adapter_new 9) (BulkString None) [7] = ([7, 36, 45, 49, 13, 10], Inr ()) \<and>
   (\<exists>e. resp_encode reference_itoa (resp_adapter_new 4) (BulkString None) [7] = ([7], Inl e))"
  using resp_encode_exact [OF reference_itoa_documented, of "BulkString None" 5 "resp_adapter_new 9" "[7]"]
    resp_encode_exact [OF reference_itoa_documented, of "BulkString None" 5 "resp_adapter_new 4" "[7]"]
  by (simp add: null_numeral MAX_RECURSION_DEPTH_def usize_max_def resp_adapter_new_def)

end
