(* ===== verification/Push_Queues.thy ===== *)
theory Push_Queues
  imports Channel
begin

text \<open>
  The push queues (\<open>src/push/queues\<close>): configuration and builder (\<open>mod.rs\<close>, \<open>builder.rs\<close>,
  \<open>errors.rs\<close>), the producer's handle (\<open>handle.rs\<close>), its wait counters (\<open>waits.rs\<close>) and the
  dead-letter accounting (\<open>dlq.rs\<close>).

  A channel is shared by its two ends, so \<open>push_state\<close> holds the two channels once, together
  with what \<open>PushHandleInner\<close> holds; it stands for the pair of \<open>PushQueues\<close> and \<open>PushHandle\<close>. The
  limiter (crate \<open>leaky_bucket\<close>) is the argument \<open>rl\<close>. An awaited push is a future, a value that
  \<open>push_poll\<close> advances: the state of the asynchronous function at its await points.
\<close>

section \<open>Configuration\<close>

definition DEFAULT_PUSH_RATE :: usize where
  "DEFAULT_PUSH_RATE = 100"

definition MAX_PUSH_RATE :: usize where
  "MAX_PUSH_RATE = 10000"

datatype push_priority = High | Low

datatype push_policy = ReturnErrorIfFull | DropIfFull | WarnAndDropIfFull

datatype push_error = QueueFull | PushClosed

datatype push_config_error = InvalidRate usize | InvalidCapacity usize usize

text \<open>Durations in nanoseconds: \<open>Duration::from_secs(10)\<close>.\<close>

definition ten_seconds :: duration where
  "ten_seconds = 10000000000"

record 'c push_queue_config =
  qc_high_capacity :: usize
  qc_low_capacity :: usize
  qc_rate :: "usize option"
  qc_dlq :: "'c option"
  qc_dlq_log_every_n :: usize
  qc_dlq_log_interval :: duration

definition push_queue_config_new :: "usize \<Rightarrow> usize \<Rightarrow> usize option \<Rightarrow> 'c option \<Rightarrow> 'c push_queue_config" where
  "push_queue_config_new high low rate dlq =
     \<lparr>qc_high_capacity = high, qc_low_capacity = low, qc_rate = rate, qc_dlq = dlq,
      qc_dlq_log_every_n = 1, qc_dlq_log_interval = ten_seconds\<rparr>"

text \<open>The builder has the same fields as the configuration it builds.\<close>

type_synonym 'c push_queues_builder = "'c push_queue_config"

definition builder_default :: "'c push_queues_builder" where
  "builder_default =
     \<lparr>qc_high_capacity = 1, qc_low_capacity = 1, qc_rate = Some DEFAULT_PUSH_RATE, qc_dlq = None,
      qc_dlq_log_every_n = 1, qc_dlq_log_interval = ten_seconds\<rparr>"

definition builder_high_capacity :: "usize \<Rightarrow> 'c push_queues_builder \<Rightarrow> 'c push_queues_builder" where
  "builder_high_capacity n b = b\<lparr>qc_high_capacity := n\<rparr>"

definition builder_low_capacity :: "usize \<Rightarrow> 'c push_queues_builder \<Rightarrow> 'c push_queues_builder" where
  "builder_low_capacity n b = b\<lparr>qc_low_capacity := n\<rparr>"

definition builder_rate :: "usize option \<Rightarrow> 'c push_queues_builder \<Rightarrow> 'c push_queues_builder" where
  "builder_rate r b = b\<lparr>qc_rate := r\<rparr>"

definition builder_unlimited :: "'c push_queues_builder \<Rightarrow> 'c push_queues_builder" where
  "builder_unlimited b = builder_rate None b"

definition builder_dlq :: "'c option \<Rightarrow> 'c push_queues_builder \<Rightarrow> 'c push_queues_builder" where
  "builder_dlq d b = b\<lparr>qc_dlq := d\<rparr>"

definition builder_dlq_log_every_n :: "usize \<Rightarrow> 'c push_queues_builder \<Rightarrow> 'c push_queues_builder" where
  "builder_dlq_log_every_n n b = b\<lparr>qc_dlq_log_every_n := n\<rparr>"

definition builder_dlq_log_interval :: "duration \<Rightarrow> 'c push_queues_builder \<Rightarrow> 'c push_queues_builder" where
  "builder_dlq_log_interval d b = b\<lparr>qc_dlq_log_interval := d\<rparr>"

section \<open>Shared state\<close>

record push_wait_counters =
  awaited_capacity_waits :: u64
  capacity_probes :: u64

definition saturating_sub_u64 :: "u64 \<Rightarrow> u64 \<Rightarrow> u64" where
  "saturating_sub_u64 a b = (if b \<le> a then a - b else 0)"

definition counters_since :: "push_wait_counters \<Rightarrow> push_wait_counters \<Rightarrow> push_wait_counters" where
  "counters_since self before =
     \<lparr>awaited_capacity_waits = saturating_sub_u64 (awaited_capacity_waits self) (awaited_capacity_waits before),
      capacity_probes = saturating_sub_u64 (capacity_probes self) (capacity_probes before)\<rparr>"

definition record_capacity_probe :: "push_wait_counters \<Rightarrow> push_wait_counters" where
  "record_capacity_probe w = w\<lparr>capacity_probes := capacity_probes w + 1\<rparr>"

definition record_capacity_wait :: "push_wait_counters \<Rightarrow> push_wait_counters" where
  "record_capacity_wait w = w\<lparr>awaited_capacity_waits := awaited_capacity_waits w + 1\<rparr>"

text \<open>
  \<open>reported\<close> is the total that the diagnostic has logged; the code keeps it under \<open>cfg(loom)\<close>.
  Atomic counters wrap around.
\<close>

record 'c dead_letter_state =
  dl_sink :: "'c option"
  dl_drops :: u64
  dl_last_log :: instant
  dl_reported :: u64
  dl_log_every_n :: usize
  dl_log_interval :: duration

definition dead_letter_new :: "'c option \<Rightarrow> usize \<Rightarrow> duration \<Rightarrow> instant \<Rightarrow> 'c dead_letter_state" where
  "dead_letter_new sink n interval now =
     \<lparr>dl_sink = sink, dl_drops = 0, dl_last_log = now, dl_reported = 0, dl_log_every_n = n,
      dl_log_interval = interval\<rparr>"

definition has_queue :: "'c dead_letter_state \<Rightarrow> bool" where
  "has_queue d \<longleftrightarrow> dl_sink d \<noteq> None"

record 'r limiter_lib =
  rl_build :: "usize \<Rightarrow> 'r"
  rl_try_acquire :: "'r \<Rightarrow> 'r \<times> bool"

record ('c, 'r) push_state =
  ps_high :: 'c
  ps_low :: 'c
  ps_limiter :: "'r option"
  ps_dead_letter :: "'c dead_letter_state"
  ps_waits :: push_wait_counters

definition invalid_rate :: "usize option \<Rightarrow> usize option" where
  "invalid_rate rate =
     (case rate of Some r \<Rightarrow> if r = 0 \<or> MAX_PUSH_RATE < r then Some r else None | None \<Rightarrow> None)"

definition build_with_config ::
    "('c, 'f) mpsc_lib \<Rightarrow> 'r limiter_lib \<Rightarrow> instant \<Rightarrow> 'c push_queue_config \<Rightarrow>
     push_config_error + ('c, 'r) push_state" where
  "build_with_config mp rl now cfg =
     (case invalid_rate (qc_rate cfg) of
        Some r \<Rightarrow> Inl (InvalidRate r)
      | None \<Rightarrow>
          if qc_high_capacity cfg = 0 \<or> qc_low_capacity cfg = 0
          then Inl (InvalidCapacity (qc_high_capacity cfg) (qc_low_capacity cfg))
          else Inr
            \<lparr>ps_high = mp_channel mp (qc_high_capacity cfg), ps_low = mp_channel mp (qc_low_capacity cfg),
             ps_limiter = map_option (rl_build rl) (qc_rate cfg),
             ps_dead_letter = dead_letter_new (qc_dlq cfg) (qc_dlq_log_every_n cfg) (qc_dlq_log_interval cfg) now,
             ps_waits = \<lparr>awaited_capacity_waits = 0, capacity_probes = 0\<rparr>\<rparr>)"

definition builder_build ::
    "('c, 'f) mpsc_lib \<Rightarrow> 'r limiter_lib \<Rightarrow> instant \<Rightarrow> 'c push_queues_builder \<Rightarrow>
     push_config_error + ('c, 'r) push_state" where
  "builder_build mp rl now b = build_with_config mp rl now b"

definition build_via_builder ::
    "('c, 'f) mpsc_lib \<Rightarrow> 'r limiter_lib \<Rightarrow> instant \<Rightarrow> usize \<Rightarrow> usize \<Rightarrow> usize option \<Rightarrow> 'c option \<Rightarrow>
     push_config_error + ('c, 'r) push_state" where
  "build_via_builder mp rl now high low rate dlq =
     builder_build mp rl now
       (builder_dlq dlq (builder_rate rate (builder_low_capacity low (builder_high_capacity high builder_default))))"

definition bounded where
  "bounded mp rl now high low = build_via_builder mp rl now high low (Some DEFAULT_PUSH_RATE) None"

definition bounded_no_rate_limit where
  "bounded_no_rate_limit mp rl now high low = build_via_builder mp rl now high low None None"

definition bounded_with_rate where
  "bounded_with_rate mp rl now high low rate = build_via_builder mp rl now high low rate None"

definition bounded_with_rate_dlq where
  "bounded_with_rate_dlq mp rl now high low rate dlq =
     build_with_config mp rl now (push_queue_config_new high low rate dlq)"

section \<open>Receiving\<close>

text \<open>
  One poll of the future of \<open>recv\<close>. A channel that has ended is not polled again; the loop turns at
  most once per channel, so three turns reach \<open>else\<close>. The flags are the state of the future between polls.
\<close>

fun recv_loop ::
    "nat \<Rightarrow> ('c, 'f) mpsc_lib \<Rightarrow> bool \<Rightarrow> bool \<Rightarrow> ('c, 'r) push_state \<Rightarrow>
     ('c, 'r) push_state \<times> (bool \<times> bool) \<times> (push_priority \<times> 'f) option poll" where
  "recv_loop 0 mp hc lc st = (st, (hc, lc), Pending)"
| "recv_loop (Suc n) mp hc lc st =
     (let poll_low = (\<lambda>st.
        if lc then (st, (hc, lc), Pending)
        else case mp_recv mp (ps_low st) of
          (c, Ready (Some f)) \<Rightarrow> (st\<lparr>ps_low := c\<rparr>, (hc, lc), Ready (Some (Low, f)))
        | (c, Ready None) \<Rightarrow> recv_loop n mp hc True (st\<lparr>ps_low := c\<rparr>)
        | (c, Pending) \<Rightarrow> (st\<lparr>ps_low := c\<rparr>, (hc, lc), Pending))
      in if hc \<and> lc then (st, (hc, lc), Ready None)
         else if hc then poll_low st
         else case mp_recv mp (ps_high st) of
           (c, Ready (Some f)) \<Rightarrow> (st\<lparr>ps_high := c\<rparr>, (hc, lc), Ready (Some (High, f)))
         | (c, Ready None) \<Rightarrow> recv_loop n mp True lc (st\<lparr>ps_high := c\<rparr>)
         | (c, Pending) \<Rightarrow> poll_low (st\<lparr>ps_high := c\<rparr>))"

definition queues_recv ::
    "('c, 'f) mpsc_lib \<Rightarrow> bool \<times> bool \<Rightarrow> ('c, 'r) push_state \<Rightarrow>
     ('c, 'r) push_state \<times> (bool \<times> bool) \<times> (push_priority \<times> 'f) option poll" where
  "queues_recv mp flags st = recv_loop 3 mp (fst flags) (snd flags) st"

definition queues_close :: "('c, 'f) mpsc_lib \<Rightarrow> ('c, 'r) push_state \<Rightarrow> ('c, 'r) push_state" where
  "queues_close mp st = st\<lparr>ps_high := mp_close mp (ps_high st), ps_low := mp_close mp (ps_low st)\<rparr>"

section \<open>Pushing without waiting\<close>

datatype dlq_state = DlqFull | DlqClosed

record drop_report =
  dr_dropped :: u64
  dr_priority :: push_priority
  dr_policy :: push_policy
  dr_dlq_state :: dlq_state

definition should_log :: "instant \<Rightarrow> u64 \<Rightarrow> 'c dead_letter_state \<Rightarrow> bool" where
  "should_log now dropped d \<longleftrightarrow>
     (dl_log_every_n d \<noteq> 0 \<and> unat dropped mod dl_log_every_n d = 0) \<or>
     dl_log_interval d < saturating_duration_since now (dl_last_log d)"

definition log_if_due :: "instant \<Rightarrow> drop_report \<Rightarrow> 'c dead_letter_state \<Rightarrow> 'c dead_letter_state" where
  "log_if_due now report d =
     (if \<not> should_log now (dr_dropped report) d then d
      else let reported = dl_drops d;
               d' = d\<lparr>dl_drops := 0, dl_last_log := now\<rparr>
           in if reported = 0 then d' else d'\<lparr>dl_reported := dl_reported d' + reported\<rparr>)"

definition route_or_count ::
    "('c, 'f) mpsc_lib \<Rightarrow> instant \<Rightarrow> 'f \<Rightarrow> push_priority \<Rightarrow> push_policy \<Rightarrow> 'c dead_letter_state \<Rightarrow>
     'c dead_letter_state" where
  "route_or_count mp now frame priority policy d =
     (case dl_sink d of
        None \<Rightarrow> d
      | Some queue \<Rightarrow>
          (case mp_try_send mp queue frame of
             (queue', Inr _) \<Rightarrow> d\<lparr>dl_sink := Some queue'\<rparr>
           | (queue', Inl e) \<Rightarrow>
               let state = (case e of TrySendFull _ \<Rightarrow> DlqFull | TrySendClosed _ \<Rightarrow> DlqClosed);
                   d' = d\<lparr>dl_sink := Some queue', dl_drops := dl_drops d + 1\<rparr>
               in log_if_due now
                    \<lparr>dr_dropped = dl_drops d + 1, dr_priority = priority, dr_policy = policy, dr_dlq_state = state\<rparr> d'))"

definition queue_of :: "push_priority \<Rightarrow> ('c, 'r) push_state \<Rightarrow> 'c" where
  "queue_of priority st = (case priority of High \<Rightarrow> ps_high st | Low \<Rightarrow> ps_low st)"

definition set_queue :: "push_priority \<Rightarrow> 'c \<Rightarrow> ('c, 'r) push_state \<Rightarrow> ('c, 'r) push_state" where
  "set_queue priority c st = (case priority of High \<Rightarrow> st\<lparr>ps_high := c\<rparr> | Low \<Rightarrow> st\<lparr>ps_low := c\<rparr>)"

definition try_push ::
    "('c, 'f) mpsc_lib \<Rightarrow> instant \<Rightarrow> 'f \<Rightarrow> push_priority \<Rightarrow> push_policy \<Rightarrow> ('c, 'r) push_state \<Rightarrow>
     ('c, 'r) push_state \<times> (push_error + unit)" where
  "try_push mp now frame priority policy st =
     (case mp_try_send mp (queue_of priority st) frame of
        (c, Inr _) \<Rightarrow> (set_queue priority c st, Inr ())
      | (c, Inl (TrySendFull f)) \<Rightarrow>
          (let st' = set_queue priority c st
           in case policy of
             ReturnErrorIfFull \<Rightarrow> (st', Inl QueueFull)
           | _ \<Rightarrow> (st'\<lparr>ps_dead_letter := route_or_count mp now f priority policy (ps_dead_letter st')\<rparr>, Inr ()))
      | (c, Inl (TrySendClosed _)) \<Rightarrow> (set_queue priority c st, Inl PushClosed))"

section \<open>Awaited pushes\<close>

datatype 'f push_future =
  PushStart 'f push_priority
| PushSleeping 'f push_priority
| PushSending 'f push_priority bool
| PushDone "push_error + unit"

definition record_first_pending :: "'a poll \<Rightarrow> bool \<Rightarrow> push_wait_counters \<Rightarrow> bool \<times> push_wait_counters" where
  "record_first_pending polled recorded waits =
     (if polled = Pending \<and> \<not> recorded then (True, record_capacity_wait waits) else (recorded, waits))"

definition poll_send_capacity ::
    "('c, 'f) mpsc_lib \<Rightarrow> 'f \<Rightarrow> push_priority \<Rightarrow> bool \<Rightarrow> ('c, 'r) push_state \<Rightarrow> ('c, 'r) push_state \<times> 'f push_future" where
  "poll_send_capacity mp frame priority recorded st =
     (let (c, polled) = mp_poll_send mp (queue_of priority st) frame;
          (recorded', waits) = record_first_pending polled recorded (ps_waits st);
          st' = (set_queue priority c st)\<lparr>ps_waits := waits\<rparr>
      in case polled of
           Pending \<Rightarrow> (st', PushSending frame priority recorded')
         | Ready (Inr _) \<Rightarrow> (st', PushDone (Inr ()))
         | Ready (Inl _) \<Rightarrow> (st', PushDone (Inl PushClosed)))"

definition push_probe ::
    "('c, 'f) mpsc_lib \<Rightarrow> 'f \<Rightarrow> push_priority \<Rightarrow> ('c, 'r) push_state \<Rightarrow> ('c, 'r) push_state \<times> 'f push_future" where
  "push_probe mp frame priority st =
     (let st1 = st\<lparr>ps_waits := record_capacity_probe (ps_waits st)\<rparr>
      in case mp_try_reserve mp (queue_of priority st1) of
           (c, Inr _) \<Rightarrow> (set_queue priority (mp_permit_send mp c frame) st1, PushDone (Inr ()))
         | (c, Inl (TrySendFull _)) \<Rightarrow> poll_send_capacity mp frame priority False (set_queue priority c st1)
         | (c, Inl (TrySendClosed _)) \<Rightarrow> (set_queue priority c st1, PushDone (Inl PushClosed)))"

definition wait_for_permit ::
    "('c, 'f) mpsc_lib \<Rightarrow> 'r limiter_lib \<Rightarrow> 'f \<Rightarrow> push_priority \<Rightarrow> ('c, 'r) push_state \<Rightarrow> ('c, 'r) push_state \<times> 'f push_future" where
  "wait_for_permit mp rl frame priority st =
     (case ps_limiter st of
        None \<Rightarrow> push_probe mp frame priority st
      | Some limiter \<Rightarrow>
          (case rl_try_acquire rl limiter of
             (limiter', True) \<Rightarrow> push_probe mp frame priority (st\<lparr>ps_limiter := Some limiter'\<rparr>)
           | (limiter', False) \<Rightarrow> (st\<lparr>ps_limiter := Some limiter'\<rparr>, PushSleeping frame priority)))"

text \<open>\<open>woken\<close> says whether the timer of a sleeping push has elapsed.\<close>

fun push_poll ::
    "('c, 'f) mpsc_lib \<Rightarrow> 'r limiter_lib \<Rightarrow> bool \<Rightarrow> ('c, 'r) push_state \<Rightarrow> 'f push_future \<Rightarrow>
     ('c, 'r) push_state \<times> 'f push_future" where
  "push_poll mp rl woken st (PushStart frame priority) = wait_for_permit mp rl frame priority st"
| "push_poll mp rl woken st (PushSleeping frame priority) =
     (if woken then wait_for_permit mp rl frame priority st else (st, PushSleeping frame priority))"
| "push_poll mp rl woken st (PushSending frame priority recorded) = poll_send_capacity mp frame priority recorded st"
| "push_poll mp rl woken st (PushDone r) = (st, PushDone r)"

definition push_high_priority :: "'f \<Rightarrow> 'f push_future" where
  "push_high_priority frame = PushStart frame High"

definition push_low_priority :: "'f \<Rightarrow> 'f push_future" where
  "push_low_priority frame = PushStart frame Low"

definition wait_counters :: "('c, 'r) push_state \<Rightarrow> push_wait_counters" where
  "wait_counters st = ps_waits st"

end
