(* ===== verification/Push_Refinement.thy ===== *)
theory Push_Refinement
  imports Push_Queues
begin

text \<open>
  What the push queues promise: two bounded first-in first-out queues, of which the receiver takes
  the high-priority one first, an optional bounded dead-letter queue, and a count of lost frames.
  The operations of \<open>push_spec\<close> say this without channels, logging or counters; the detailed
  operations refine them through \<open>push_abs\<close>.
\<close>

section \<open>Abstract queues\<close>

record 'f bounded_queue =
  bq_items :: "'f list"
  bq_free :: int
  bq_promised :: nat
  bq_open :: bool
  bq_producers :: bool

record 'f push_spec =
  sp_high :: "'f bounded_queue"
  sp_low :: "'f bounded_queue"
  sp_dlq :: "'f bounded_queue option"
  sp_lost :: u64

datatype 'f offer = Accepted "'f bounded_queue" | Full | Refused

definition bq_offer :: "'f \<Rightarrow> 'f bounded_queue \<Rightarrow> 'f offer" where
  "bq_offer f q =
     (if \<not> bq_open q then Refused
      else if bq_free q \<le> 0 then Full
      else Accepted (q\<lparr>bq_items := bq_items q @ [f], bq_free := bq_free q - 1\<rparr>))"

definition bq_ended :: "'f bounded_queue \<Rightarrow> bool" where
  "bq_ended q \<longleftrightarrow> bq_items q = [] \<and> \<not> (bq_producers q \<and> (bq_open q \<or> 0 < bq_promised q))"

definition sp_queue :: "push_priority \<Rightarrow> 'f push_spec \<Rightarrow> 'f bounded_queue" where
  "sp_queue p s = (case p of High \<Rightarrow> sp_high s | Low \<Rightarrow> sp_low s)"

definition sp_set_queue :: "push_priority \<Rightarrow> 'f bounded_queue \<Rightarrow> 'f push_spec \<Rightarrow> 'f push_spec" where
  "sp_set_queue p q s = (case p of High \<Rightarrow> s\<lparr>sp_high := q\<rparr> | Low \<Rightarrow> s\<lparr>sp_low := q\<rparr>)"

definition spec_discard :: "'f \<Rightarrow> 'f push_spec \<Rightarrow> 'f push_spec" where
  "spec_discard f s =
     (case sp_dlq s of
        None \<Rightarrow> s
      | Some q \<Rightarrow>
          (case bq_offer f q of
             Accepted q' \<Rightarrow> s\<lparr>sp_dlq := Some q'\<rparr>
           | _ \<Rightarrow> s\<lparr>sp_lost := sp_lost s + 1\<rparr>))"

definition spec_try_push ::
    "'f \<Rightarrow> push_priority \<Rightarrow> push_policy \<Rightarrow> 'f push_spec \<Rightarrow> 'f push_spec \<times> (push_error + unit)" where
  "spec_try_push f p policy s =
     (case bq_offer f (sp_queue p s) of
        Accepted q \<Rightarrow> (sp_set_queue p q s, Inr ())
      | Refused \<Rightarrow> (s, Inl PushClosed)
      | Full \<Rightarrow> if policy = ReturnErrorIfFull then (s, Inl QueueFull) else (spec_discard f s, Inr ()))"

definition bq_take :: "'f bounded_queue \<Rightarrow> 'f bounded_queue" where
  "bq_take q = q\<lparr>bq_items := tl (bq_items q), bq_free := bq_free q + 1\<rparr>"

definition spec_recv :: "'f push_spec \<Rightarrow> 'f push_spec \<times> (push_priority \<times> 'f) option poll" where
  "spec_recv s =
     (if bq_items (sp_high s) \<noteq> [] then (s\<lparr>sp_high := bq_take (sp_high s)\<rparr>, Ready (Some (High, hd (bq_items (sp_high s)))))
      else if bq_items (sp_low s) \<noteq> [] then (s\<lparr>sp_low := bq_take (sp_low s)\<rparr>, Ready (Some (Low, hd (bq_items (sp_low s)))))
      else if bq_ended (sp_high s) \<and> bq_ended (sp_low s) then (s, Ready None)
      else (s, Pending))"

definition spec_close :: "'f push_spec \<Rightarrow> 'f push_spec" where
  "spec_close s = s\<lparr>sp_high := (sp_high s)\<lparr>bq_open := False\<rparr>, sp_low := (sp_low s)\<lparr>bq_open := False\<rparr>\<rparr>"

section \<open>Abstraction\<close>

definition chan_abs :: "'f chan \<Rightarrow> 'f bounded_queue" where
  "chan_abs c =
     \<lparr>bq_items = ch_queue c, bq_free = int (ch_capacity c) - int (length (ch_queue c)) - int (ch_reserved c),
      bq_promised = ch_reserved c, bq_open = (\<not> ch_closed c), bq_producers = ch_senders c\<rparr>"

definition push_abs :: "('c \<Rightarrow> 'f chan) \<Rightarrow> ('c, 'r) push_state \<Rightarrow> 'f push_spec" where
  "push_abs v st =
     \<lparr>sp_high = chan_abs (v (ps_high st)), sp_low = chan_abs (v (ps_low st)),
      sp_dlq = map_option (\<lambda>c. chan_abs (v c)) (dl_sink (ps_dead_letter st)),
      sp_lost = dl_reported (ps_dead_letter st) + dl_drops (ps_dead_letter st)\<rparr>"

lemma chan_abs_offer:
  "chan_try_send c f =
     (case bq_offer f (chan_abs c) of
        Accepted q \<Rightarrow> (c\<lparr>ch_queue := ch_queue c @ [f]\<rparr>, Inr ())
      | Full \<Rightarrow> (c, Inl (TrySendFull f))
      | Refused \<Rightarrow> (c, Inl (TrySendClosed f)))"
  "bq_offer f (chan_abs c) = Accepted q \<Longrightarrow> chan_abs (c\<lparr>ch_queue := ch_queue c @ [f]\<rparr>) = q"
  by (auto simp: chan_try_send_def bq_offer_def chan_abs_def chan_room_def split: if_splits)

lemma try_send_refines:
  assumes "mpsc_documented mp v" and "mp_try_send mp c f = (c', r)"
  shows "case bq_offer f (chan_abs (v c)) of
      Accepted q \<Rightarrow> r = Inr () \<and> chan_abs (v c') = q
    | Full \<Rightarrow> r = Inl (TrySendFull f) \<and> v c' = v c
    | Refused \<Rightarrow> r = Inl (TrySendClosed f) \<and> v c' = v c"
  using mpsc_try_sendD [OF assms] chan_abs_offer(1) [of "v c" f] chan_abs_offer(2) [of f "v c"]
  by (cases "bq_offer f (chan_abs (v c))") auto

lemma log_keeps_losses:
  "dl_reported (log_if_due now r d) + dl_drops (log_if_due now r d) = dl_reported d + dl_drops d"
  "dl_sink (log_if_due now r d) = dl_sink d"
  by (simp_all add: log_if_due_def Let_def)

lemma discard_refines:
  assumes "mpsc_documented mp v"
  shows "push_abs v (st\<lparr>ps_dead_letter := route_or_count mp now f p policy (ps_dead_letter st)\<rparr>) =
    spec_discard f (push_abs v st)"
proof (cases "dl_sink (ps_dead_letter st)")
  case None
  then show ?thesis by (simp add: route_or_count_def spec_discard_def push_abs_def)
next
  case (Some c)
  obtain c' r where send: "mp_try_send mp c f = (c', r)" by fastforce
  from try_send_refines [OF assms send] Some send show ?thesis
    by (auto simp: route_or_count_def spec_discard_def push_abs_def log_keeps_losses Let_def add.assoc
        split: offer.splits)
qed

lemma push_abs_set_queue:
  "push_abs v (set_queue p c st) = sp_set_queue p (chan_abs (v c)) (push_abs v st)"
  by (cases p) (simp_all add: set_queue_def sp_set_queue_def push_abs_def)

lemma sp_queue_abs: "sp_queue p (push_abs v st) = chan_abs (v (queue_of p st))"
  by (cases p) (simp_all add: sp_queue_def queue_of_def push_abs_def)

lemma sp_set_same [simp]: "sp_set_queue p (chan_abs (v (queue_of p st))) (push_abs v st) = push_abs v st"
  by (cases p) (simp_all add: sp_set_queue_def queue_of_def push_abs_def)

lemma try_push_refines:
  assumes "mpsc_documented mp v"
  shows "map_prod (push_abs v) id (try_push mp now f p policy st) = spec_try_push f p policy (push_abs v st)"
proof -
  obtain c r where send: "mp_try_send mp (queue_of p st) f = (c, r)" by fastforce
  from try_send_refines [OF assms send] show ?thesis
    using discard_refines [OF assms, where st = "set_queue p c st" and now = now and f = f and p = p and policy = policy]
    by (cases policy)
      (auto simp: try_push_def send spec_try_push_def sp_queue_abs push_abs_set_queue [of v p c st]
        Let_def split: offer.splits)
qed

lemma queues_close_refines:
  assumes "mpsc_documented mp v"
  shows "push_abs v (queues_close mp st) = spec_close (push_abs v st)"
  using assms by (simp add: queues_close_def spec_close_def push_abs_def mpsc_closeD chan_abs_def)

section \<open>Receiving\<close>

lemma recv_refines:
  assumes "mpsc_documented mp v" and "mp_recv mp c = (c', r)"
  shows "if bq_items (chan_abs (v c)) \<noteq> []
    then r = Ready (Some (hd (bq_items (chan_abs (v c))))) \<and> chan_abs (v c') = bq_take (chan_abs (v c))
    else r = (if bq_ended (chan_abs (v c)) then Ready None else Pending) \<and> v c' = v c"
proof -
  have "v c' = fst (chan_recv (v c))" "r = snd (chan_recv (v c))" using mpsc_recvD [OF assms] by simp_all
  then show ?thesis
    by (cases "ch_queue (v c)") (auto simp: chan_recv_def chan_abs_def bq_take_def bq_ended_def chan_live_def)
qed

text \<open>The future of \<open>recv\<close> has only marked channels that have ended.\<close>

definition flags_sound :: "('c \<Rightarrow> 'f chan) \<Rightarrow> bool \<times> bool \<Rightarrow> ('c, 'r) push_state \<Rightarrow> bool" where
  "flags_sound v flags st \<longleftrightarrow>
     (fst flags \<longrightarrow> bq_ended (sp_high (push_abs v st))) \<and> (snd flags \<longrightarrow> bq_ended (sp_low (push_abs v st)))"

lemma push_abs_queues:
  "push_abs v (st\<lparr>ps_high := c\<rparr>) = (push_abs v st)\<lparr>sp_high := chan_abs (v c)\<rparr>"
  "push_abs v (st\<lparr>ps_low := c\<rparr>) = (push_abs v st)\<lparr>sp_low := chan_abs (v c)\<rparr>"
  "sp_high (push_abs v st) = chan_abs (v (ps_high st))" "sp_low (push_abs v st) = chan_abs (v (ps_low st))"
  by (simp_all add: push_abs_def)

text \<open>Enough turns: one for each channel that is not yet marked, and one more.\<close>

lemma recv_loop_refines:
  fixes st :: "('c, 'r) push_state"
  assumes "mpsc_documented mp v" and "flags_sound v (hc, lc) st" and "of_bool (\<not> hc) + of_bool (\<not> lc) < n"
  shows "case recv_loop n mp hc lc st of (st', flags, r) \<Rightarrow>
    (push_abs v st', r) = spec_recv (push_abs v st) \<and> flags_sound v flags st'"
  using assms(2,3)
proof (induction n arbitrary: hc lc st)
  case (Suc n)
  let ?H = "chan_abs (v (ps_high st))" and ?L = "chan_abs (v (ps_low st))"
  let ?good = "\<lambda>(st', flags, r). (push_abs v st', r) = spec_recv (push_abs v st) \<and> flags_sound v flags st'"
  obtain ch rh cl rl where high: "mp_recv mp (ps_high st) = (ch, rh)" and low: "mp_recv mp (ps_low st) = (cl, rl)"
    by fastforce
  note hi = recv_refines [OF assms(1) high] and lo = recv_refines [OF assms(1) low]
  have sound: "hc \<longrightarrow> bq_ended ?H" "lc \<longrightarrow> bq_ended ?L"
    using Suc.prems(1) by (simp_all add: flags_sound_def push_abs_queues)
  have low_part: "?good (if lc then (st', (hc, lc), Pending)
      else case mp_recv mp (ps_low st') of
          (c, Ready (Some f)) \<Rightarrow> (st'\<lparr>ps_low := c\<rparr>, (hc, lc), Ready (Some (Low, f)))
        | (c, Ready None) \<Rightarrow> recv_loop n mp hc True (st'\<lparr>ps_low := c\<rparr>)
        | (c, Pending) \<Rightarrow> (st'\<lparr>ps_low := c\<rparr>, (hc, lc), Pending))"
    if st': "push_abs v st' = push_abs v st" "ps_low st' = ps_low st"
      and "bq_items ?H = []" "lc \<longrightarrow> \<not> bq_ended ?H" "hc \<or> \<not> bq_ended ?H" for st' :: "('c, 'r) push_state"
  proof (cases "bq_items ?L = [] \<and> \<not> lc \<and> bq_ended ?L")
    case True
    have same: "push_abs v (st'\<lparr>ps_low := cl\<rparr>) = push_abs v st"
      using lo True st' by (simp add: push_abs_def)
    have "?good (recv_loop n mp hc True (st'\<lparr>ps_low := cl\<rparr>))"
      using Suc.IH [of hc True "st'\<lparr>ps_low := cl\<rparr>"] Suc.prems(2) sound True
      by (simp add: flags_sound_def same, (simp add: push_abs_queues)?)
    then show ?thesis using True lo low st'(2) by simp
  next
    case False
    have H: "chan_abs (v (ps_high st')) = ?H"
      using arg_cong [OF st'(1), of sp_high] by (simp add: push_abs_queues)
    have abs: "push_abs v (st'\<lparr>ps_low := cl\<rparr>) = (push_abs v st)\<lparr>sp_low := chan_abs (v cl)\<rparr>"
      by (simp only: push_abs_queues st'(1))
    consider (marked) lc | (item) "\<not> lc" "bq_items ?L \<noteq> []" | (waiting) "\<not> lc" "bq_items ?L = []" "\<not> bq_ended ?L"
      using False by blast
    then show ?thesis
    proof cases
      case marked
      then show ?thesis
        using that(3,4) sound st' by (simp add: spec_recv_def flags_sound_def push_abs_queues(3,4) bq_ended_def)
    next
      case item
      then show ?thesis
        using lo low st'(2) that(3) sound(1) by (simp add: H abs spec_recv_def flags_sound_def push_abs_queues(3,4))
    next
      case waiting
      then have "(push_abs v st)\<lparr>sp_low := chan_abs (v cl)\<rparr> = push_abs v st" using lo by (simp add: push_abs_def)
      then show ?thesis
        using waiting lo low st'(2) that(3) sound(1) by (simp add: H abs spec_recv_def flags_sound_def push_abs_queues(3,4))
    qed
  qed
  show ?case
  proof (cases "hc \<and> lc")
    case True
    then show ?thesis using sound by (simp add: spec_recv_def push_abs_queues flags_sound_def bq_ended_def)
  next
    case notboth: False
    show ?thesis
    proof (cases hc)
      case True
      then show ?thesis using low_part [of st] sound notboth by (simp add: bq_ended_def)
    next
      case False
      have same: "push_abs v (st\<lparr>ps_high := ch\<rparr>) = push_abs v st" if "bq_items ?H = []"
        using hi that by (simp add: push_abs_def)
      consider (item) "bq_items ?H \<noteq> []" | (ended) "bq_items ?H = []" "bq_ended ?H"
        | (waiting) "bq_items ?H = []" "\<not> bq_ended ?H" by blast
      then show ?thesis
      proof cases
        case item
        then show ?thesis
          using hi high False sound by (simp add: spec_recv_def push_abs_queues flags_sound_def)
      next
        case ended
        have "?good (recv_loop n mp True lc (st\<lparr>ps_high := ch\<rparr>))"
          using Suc.IH [of True lc "st\<lparr>ps_high := ch\<rparr>"] Suc.prems(2) sound False ended
          by (simp add: flags_sound_def same, (simp add: push_abs_queues)?)
        then show ?thesis using ended hi high False by simp
      next
        case waiting
        then show ?thesis
          using low_part [of "st\<lparr>ps_high := ch\<rparr>"] same hi high False by (cases lc) simp_all
      qed
    qed
  qed
qed simp

section \<open>Awaited pushes\<close>

text \<open>
  The polls of one push. Between two polls other tasks may do anything to the queues, so every
  poll starts from an arbitrary state; the result lists the states around each poll.
\<close>

fun push_drive ::
    "('c, 'f) mpsc_lib \<Rightarrow> 'r limiter_lib \<Rightarrow> (bool \<times> ('c, 'r) push_state) list \<Rightarrow> 'f push_future \<Rightarrow>
     (('c, 'r) push_state \<times> ('c, 'r) push_state) list \<times> 'f push_future" where
  "push_drive mp rl [] fut = ([], fut)"
| "push_drive mp rl ((woken, st) # envs) fut =
     (let (st', fut') = push_poll mp rl woken st fut;
          (steps, fin) = push_drive mp rl envs fut'
      in ((st, st') # steps, fin))"

definition contents :: "('c \<Rightarrow> 'f chan) \<Rightarrow> push_priority \<Rightarrow> ('c, 'r) push_state \<Rightarrow> 'f list" where
  "contents v p st = ch_queue (v (queue_of p st))"

definition appended :: "('c \<Rightarrow> 'f chan) \<Rightarrow> push_priority \<Rightarrow> 'f \<Rightarrow> ('c, 'r) push_state \<times> ('c, 'r) push_state \<Rightarrow> bool" where
  "appended v p f s \<longleftrightarrow> contents v p (snd s) = contents v p (fst s) @ [f]"

definition untouched :: "('c \<Rightarrow> 'f chan) \<Rightarrow> push_priority \<Rightarrow> ('c, 'r) push_state \<times> ('c, 'r) push_state \<Rightarrow> bool" where
  "untouched v p s \<longleftrightarrow> contents v p (snd s) = contents v p (fst s)"

definition waited :: "('c, 'r) push_state \<times> ('c, 'r) push_state \<Rightarrow> bool" where
  "waited s \<longleftrightarrow> awaited_capacity_waits (ps_waits (snd s)) \<noteq> awaited_capacity_waits (ps_waits (fst s))"

definition probed :: "('c, 'r) push_state \<times> ('c, 'r) push_state \<Rightarrow> bool" where
  "probed s \<longleftrightarrow> capacity_probes (ps_waits (snd s)) \<noteq> capacity_probes (ps_waits (fst s))"

lemma not_appended_untouched: "untouched v p s \<Longrightarrow> \<not> appended v p f s"
  by (simp add: untouched_def appended_def)

text \<open>What one poll may do, by the state of the future before and after it.\<close>

fun poll_effect :: "('c \<Rightarrow> 'f chan) \<Rightarrow> 'f \<Rightarrow> push_priority \<Rightarrow> ('c, 'r) push_state \<times> ('c, 'r) push_state \<Rightarrow>
    'f push_future \<Rightarrow> 'f push_future \<Rightarrow> bool" where
  "poll_effect v f p s (PushDone r) fut' \<longleftrightarrow> fut' = PushDone r \<and> untouched v p s \<and> \<not> waited s \<and> \<not> probed s"
| "poll_effect v f p s (PushSending g q recorded) fut' \<longleftrightarrow> \<not> probed s \<and> (recorded \<longrightarrow> \<not> waited s) \<and>
     (fut' = PushDone (Inr ()) \<and> appended v p f s \<and> \<not> waited s \<or>
      fut' = PushDone (Inl PushClosed) \<and> untouched v p s \<and> \<not> waited s \<or>
      fut' = PushSending g q True \<and> untouched v p s)"
| "poll_effect v f p s fut fut' \<longleftrightarrow>
     (fut' = PushDone (Inr ()) \<and> appended v p f s \<and> \<not> waited s \<or>
      fut' = PushDone (Inl PushClosed) \<and> untouched v p s \<and> \<not> waited s \<or>
      fut' = PushSending f p True \<and> untouched v p s \<or>
      fut' = PushSleeping f p \<and> untouched v p s \<and> \<not> waited s \<and> \<not> probed s)"

definition other :: "push_priority \<Rightarrow> push_priority" where
  "other p = (case p of High \<Rightarrow> Low | Low \<Rightarrow> High)"

fun future_of :: "'f \<Rightarrow> push_priority \<Rightarrow> 'f push_future \<Rightarrow> bool" where
  "future_of f p (PushStart g q) \<longleftrightarrow> g = f \<and> q = p"
| "future_of f p (PushSleeping g q) \<longleftrightarrow> g = f \<and> q = p"
| "future_of f p (PushSending g q recorded) \<longleftrightarrow> g = f \<and> q = p \<and> recorded"
| "future_of f p (PushDone r) \<longleftrightarrow> True"

lemma queue_of_set [simp]:
  "queue_of p (set_queue p c st) = c" "queue_of (other p) (set_queue p c st) = queue_of (other p) st"
  "ps_waits (set_queue p c st) = ps_waits st" "ps_limiter (set_queue p c st) = ps_limiter st"
  by (cases p; simp add: queue_of_def set_queue_def other_def)+

lemma queue_of_fields [simp]:
  "queue_of p (st\<lparr>ps_waits := w\<rparr>) = queue_of p st" "queue_of p (st\<lparr>ps_limiter := l\<rparr>) = queue_of p st"
  by (cases p; simp add: queue_of_def)+

lemma poll_send_capacity_effect:
  assumes "mpsc_documented mp v" and "poll_send_capacity mp f p recorded st = (st', fut')"
  shows "poll_effect v f p (st, st') (PushSending f p recorded) fut' \<and> untouched v (other p) (st, st') \<and>
    capacity_probes (ps_waits st') = capacity_probes (ps_waits st)"
proof -
  obtain c polled where poll: "mp_poll_send mp (queue_of p st) f = (c, polled)" by fastforce
  have "v c = fst (chan_poll_send (v (queue_of p st)) f)" "polled = snd (chan_poll_send (v (queue_of p st)) f)"
    using mpsc_poll_sendD [OF assms(1) poll] by simp_all
  then show ?thesis
    using assms(2)
    by (auto simp: poll_send_capacity_def poll record_first_pending_def record_capacity_wait_def chan_poll_send_def
        appended_def untouched_def contents_def waited_def probed_def Let_def split: if_splits)
qed

lemma push_probe_effect:
  assumes "mpsc_documented mp v" and "push_probe mp f p st = (st', fut')"
  shows "poll_effect v f p (st, st') (PushStart f p) fut' \<and> untouched v (other p) (st, st')"
proof -
  let ?st1 = "st\<lparr>ps_waits := record_capacity_probe (ps_waits st)\<rparr>"
  obtain c r where res: "mp_try_reserve mp (queue_of p ?st1) = (c, r)" by fastforce
  have c: "v c = fst (chan_try_reserve (v (queue_of p st)))" "r = snd (chan_try_reserve (v (queue_of p st)))"
    using mpsc_try_reserveD [OF assms(1) res] by simp_all
  show ?thesis
  proof (cases "\<not> ch_closed (v (queue_of p st)) \<and> \<not> chan_room (v (queue_of p st))")
    case True
    then have full: "r = Inl (TrySendFull ())" "v c = v (queue_of p st)" using c by (simp_all add: chan_try_reserve_def)
    then have "poll_send_capacity mp f p False (set_queue p c ?st1) = (st', fut')"
      using assms(2) res by (simp add: push_probe_def)
    from poll_send_capacity_effect [OF assms(1) this] full(2) show ?thesis
      by (auto simp: appended_def untouched_def contents_def waited_def record_capacity_probe_def)
  next
    case False
    then show ?thesis
      using c assms(2) res mpsc_permit_sendD [OF assms(1), of c f]
      by (auto simp: push_probe_def chan_try_reserve_def chan_permit_send_def appended_def untouched_def contents_def
          waited_def record_capacity_probe_def split: if_splits)
  qed
qed

lemma wait_for_permit_effect:
  assumes "mpsc_documented mp v" and "wait_for_permit mp rl f p st = (st', fut')"
  shows "poll_effect v f p (st, st') (PushStart f p) fut' \<and> untouched v (other p) (st, st')"
proof (cases "ps_limiter st")
  case None
  then show ?thesis using push_probe_effect [OF assms(1)] assms(2) by (simp add: wait_for_permit_def)
next
  case (Some l)
  obtain l' ok where acq: "rl_try_acquire rl l = (l', ok)" by fastforce
  show ?thesis
  proof (cases ok)
    case True
    then have "push_probe mp f p (st\<lparr>ps_limiter := Some l'\<rparr>) = (st', fut')"
      using assms(2) Some acq by (simp add: wait_for_permit_def)
    from push_probe_effect [OF assms(1) this] show ?thesis
      by (simp add: appended_def untouched_def contents_def waited_def probed_def)
  next
    case False
    then show ?thesis
      using assms(2) Some acq
      by (auto simp: wait_for_permit_def appended_def untouched_def contents_def waited_def probed_def)
  qed
qed

lemma push_poll_effect:
  assumes "mpsc_documented mp v" and "future_of f p fut" and "push_poll mp rl woken st fut = (st', fut')"
  shows "poll_effect v f p (st, st') fut fut' \<and> untouched v (other p) (st, st')"
proof (cases fut)
  case (PushSleeping g q)
  then show ?thesis
    using assms wait_for_permit_effect [OF assms(1), of rl f p st st' fut']
    by (cases woken) (auto simp: untouched_def waited_def probed_def)
qed (use assms wait_for_permit_effect [OF assms(1), of rl f p st st' fut']
      poll_send_capacity_effect [OF assms(1), of f p True st st' fut'] in
      \<open>auto simp: untouched_def waited_def probed_def\<close>)

fun waits_left :: "'f push_future \<Rightarrow> nat" where
  "waits_left (PushStart f p) = 1"
| "waits_left (PushSleeping f p) = 1"
| "waits_left (PushSending f p recorded) = (if recorded then 0 else 1)"
| "waits_left (PushDone r) = 0"

fun probes_left :: "'f push_future \<Rightarrow> nat" where
  "probes_left (PushStart f p) = 1"
| "probes_left (PushSleeping f p) = 1"
| "probes_left (PushSending f p recorded) = 0"
| "probes_left (PushDone r) = 0"

fun is_push_done :: "'f push_future \<Rightarrow> bool" where
  "is_push_done (PushDone r) \<longleftrightarrow> True"
| "is_push_done fut \<longleftrightarrow> False"

lemma push_drive_effect:
  assumes "mpsc_documented mp v" and "future_of f p fut" and "push_drive mp rl envs fut = (steps, fin)"
  shows "length (filter (appended v p f) steps) = of_bool (fin = PushDone (Inr ()) \<and> \<not> is_push_done fut) \<and>
    list_all (\<lambda>s. appended v p f s \<or> untouched v p s) steps \<and> list_all (untouched v (other p)) steps \<and>
    length (filter waited steps) \<le> waits_left fut \<and> length (filter probed steps) \<le> probes_left fut \<and>
    (is_push_done fut \<longrightarrow> fin = fut)"
  using assms(2,3)
proof (induction envs arbitrary: fut steps)
  case (Cons e envs)
  obtain woken st where e: "e = (woken, st)" by fastforce
  obtain st' fut' steps' where one: "push_poll mp rl woken st fut = (st', fut')"
    and rest: "push_drive mp rl envs fut' = (steps', fin)" and steps: "steps = (st, st') # steps'"
    using Cons.prems(2) e by (auto simp: Let_def split: prod.splits)
  note eff = push_poll_effect [OF assms(1) Cons.prems(1) one]
  have "future_of f p fut'" using eff Cons.prems(1) by (cases fut) auto
  note IH = Cons.IH [OF this rest]
  show ?case
    using eff IH Cons.prems(1) unfolding steps
    by (cases fut) (auto dest: not_appended_untouched)
qed auto

section \<open>Properties\<close>

definition bq_empty :: "nat \<Rightarrow> 'f bounded_queue" where
  "bq_empty n = \<lparr>bq_items = [], bq_free = int n, bq_promised = 0, bq_open = True, bq_producers = True\<rparr>"

text \<open>
  C8: The push queues are two bounded queues with a dead-letter queue and a loss count. Building
  them yields empty queues of the configured capacities. \<open>try_push\<close> appends to the queue of its
  priority, or reports a full or closed queue, or hands the frame to the dead-letter queue and counts
  a loss exactly when that refuses it; logging never changes the number of losses. \<open>recv\<close> takes the
  oldest high-priority frame if there is one, else the oldest low-priority frame, ends exactly when
  both queues have ended, and waits otherwise. \<open>close\<close> stops further pushes and keeps what is queued.
\<close>

theorem push_queues_refine:
  assumes "mpsc_documented mp v" and "flags_sound v flags st"
  shows "map_prod (push_abs v) id (try_push mp now f p policy st) = spec_try_push f p policy (push_abs v st) \<and>
    (case queues_recv mp flags st of (st', flags', r) \<Rightarrow>
       (push_abs v st', r) = spec_recv (push_abs v st) \<and> flags_sound v flags' st') \<and>
    push_abs v (queues_close mp st) = spec_close (push_abs v st) \<and>
    (\<forall>st0. build_with_config mp rl now cfg = Inr st0 \<longrightarrow>
       push_abs v st0 =
         \<lparr>sp_high = bq_empty (qc_high_capacity cfg), sp_low = bq_empty (qc_low_capacity cfg),
          sp_dlq = map_option (\<lambda>c. chan_abs (v c)) (qc_dlq cfg), sp_lost = 0\<rparr> \<and>
       0 < qc_high_capacity cfg \<and> 0 < qc_low_capacity cfg)"
proof -
  have "case queues_recv mp flags st of (st', flags', r) \<Rightarrow>
      (push_abs v st', r) = spec_recv (push_abs v st) \<and> flags_sound v flags' st'"
    unfolding queues_recv_def using assms by (intro recv_loop_refines) auto
  moreover have "push_abs v st0 = \<lparr>sp_high = bq_empty (qc_high_capacity cfg), sp_low = bq_empty (qc_low_capacity cfg),
      sp_dlq = map_option (\<lambda>c. chan_abs (v c)) (qc_dlq cfg), sp_lost = 0\<rparr> \<and>
      0 < qc_high_capacity cfg \<and> 0 < qc_low_capacity cfg"
    if "build_with_config mp rl now cfg = Inr st0" for st0
    using that mpsc_channelD [OF assms(1)]
    by (auto simp: build_with_config_def push_abs_def dead_letter_new_def chan_abs_def chan_new_def bq_empty_def
        split: option.splits if_splits)
  ultimately show ?thesis
    using try_push_refines [OF assms(1)] queues_close_refines [OF assms(1)] by blast
qed

definition sample_limiter :: "unit limiter_lib" where
  "sample_limiter = \<lparr>rl_build = (\<lambda>n. ()), rl_try_acquire = (\<lambda>u. ((), True))\<rparr>"

definition sample_queues :: "nat list \<Rightarrow> (nat chan, unit) push_state" where
  "sample_queues fs =
     \<lparr>ps_high = (chan_new 1)\<lparr>ch_queue := fs\<rparr>, ps_low = chan_new 1, ps_limiter = None,
      ps_dead_letter = dead_letter_new (Some ((chan_new 1)\<lparr>ch_queue := [9]\<rparr>)) 2 ten_seconds 0,
      ps_waits = \<lparr>awaited_capacity_waits = 0, capacity_probes = 0\<rparr>\<rparr>"

theorem push_queues_refine_witness:
  "spec_recv (push_abs (\<lambda>c. c) (sample_queues [7])) =
     (push_abs (\<lambda>c. c) (fst (queues_recv reference_mpsc (False, False) (sample_queues [7]))), Ready (Some (High, 7))) \<and>
   sp_lost (push_abs (\<lambda>c. c) (fst (try_push reference_mpsc 5 8 High DropIfFull (sample_queues [7])))) = 1"
proof -
  have sound: "flags_sound (\<lambda>c. c) (False, False) (sample_queues [7])" by (simp add: flags_sound_def)
  note refines = push_queues_refine [OF reference_mpsc_documented sound, of 5 8 High DropIfFull sample_limiter builder_default]
  obtain st' flags' r where recv: "queues_recv reference_mpsc (False, False) (sample_queues [7]) = (st', flags', r)"
    by (metis prod_cases3)
  have "spec_recv (push_abs (\<lambda>c. c) (sample_queues [7])) = (push_abs (\<lambda>c. c) st', r)"
    using refines recv by simp
  moreover have "snd (spec_recv (push_abs (\<lambda>c. c) (sample_queues [7]))) = Ready (Some (High, 7))"
    by (simp add: spec_recv_def push_abs_def sample_queues_def chan_abs_def)
  moreover have "push_abs (\<lambda>c. c) (fst (try_push reference_mpsc 5 8 High DropIfFull (sample_queues [7]))) =
      fst (spec_try_push 8 High DropIfFull (push_abs (\<lambda>c. c) (sample_queues [7])))"
    using refines [THEN conjunct1] by (metis fst_map_prod)
  moreover have "sp_lost (fst (spec_try_push 8 High DropIfFull (push_abs (\<lambda>c. c) (sample_queues [7])))) = 1"
    by (simp add: spec_try_push_def spec_discard_def bq_offer_def sp_queue_def push_abs_def sample_queues_def
        chan_abs_def chan_new_def dead_letter_new_def)
  ultimately show ?thesis using recv by simp
qed



end
