(* ===== verification/Dead_Letter_Races.thy ===== *)
theory Dead_Letter_Races
  imports Push_Queues
begin

text \<open>
  The dead-letter accounting (\<open>DeadLetterState::route_or_count\<close> and \<open>log_if_due\<close> of
  \<open>src/push/queues/dlq.rs\<close>) under concurrent producers. Producers share one state: an atomic counter
  of drops, a mutex that holds the time of the last diagnostic, and the total reported. Each atomic
  access and each operation of the mutex is a step of its own, so that steps of different
  producers interleave arbitrarily. The repository checks this with Loom for two and three
  producers; here it is shown for any number of producers and drops. A producer that runs
  alone does exactly what the sequential \<open>log_if_due\<close> does.
\<close>

section \<open>Steps\<close>

type_synonym producer = nat

text \<open>
  Where a producer is: outside, after its \<open>fetch_add\<close> with the count it saw, holding the mutex, about
  to take the count, holding the count it took, or about to report it.
\<close>

datatype drop_pc = Outside | Counted u64 | Locked u64 | Taking | Stamping u64 | Reporting u64

record 'c drop_race =
  race_shared :: "'c dead_letter_state"
  race_lock :: "producer option"
  race_pc :: "producer \<Rightarrow> drop_pc"
  race_produced :: nat

datatype drop_event =
  CountDrop producer | TakeLock producer | Decide producer instant | TakeCount producer | Stamp producer instant | Report producer

definition race_move :: "producer \<Rightarrow> drop_pc \<Rightarrow> 'c drop_race \<Rightarrow> 'c drop_race" where
  "race_move t pc s = s\<lparr>race_pc := (race_pc s)(t := pc)\<rparr>"

definition race_leave :: "producer \<Rightarrow> 'c drop_race \<Rightarrow> 'c drop_race" where
  "race_leave t s = (race_move t Outside s)\<lparr>race_lock := None\<rparr>"

definition count_drop :: "producer \<Rightarrow> 'c drop_race \<Rightarrow> 'c drop_race option" where
  "count_drop t s =
     (if race_pc s t = Outside
      then let n = dl_drops (race_shared s) + 1
           in Some (race_move t (Counted n)
                (s\<lparr>race_shared := (race_shared s)\<lparr>dl_drops := n\<rparr>, race_produced := race_produced s + 1\<rparr>))
      else None)"

definition take_lock :: "producer \<Rightarrow> 'c drop_race \<Rightarrow> 'c drop_race option" where
  "take_lock t s =
     (case race_pc s t of
        Counted n \<Rightarrow> if race_lock s = None then Some (race_move t (Locked n) (s\<lparr>race_lock := Some t\<rparr>)) else None
      | _ \<Rightarrow> None)"

definition decide_log :: "producer \<Rightarrow> instant \<Rightarrow> 'c drop_race \<Rightarrow> 'c drop_race option" where
  "decide_log t now s =
     (case race_pc s t of
        Locked n \<Rightarrow> Some (if should_log now n (race_shared s) then race_move t Taking s else race_leave t s)
      | _ \<Rightarrow> None)"

definition take_count :: "producer \<Rightarrow> 'c drop_race \<Rightarrow> 'c drop_race option" where
  "take_count t s =
     (if race_pc s t = Taking
      then Some (race_move t (Stamping (dl_drops (race_shared s)))
             (s\<lparr>race_shared := (race_shared s)\<lparr>dl_drops := 0\<rparr>\<rparr>))
      else None)"

definition stamp_log :: "producer \<Rightarrow> instant \<Rightarrow> 'c drop_race \<Rightarrow> 'c drop_race option" where
  "stamp_log t now s =
     (case race_pc s t of
        Stamping n \<Rightarrow>
          (let s' = s\<lparr>race_shared := (race_shared s)\<lparr>dl_last_log := now\<rparr>\<rparr>
           in Some (if n = 0 then race_leave t s' else race_move t (Reporting n) s'))
      | _ \<Rightarrow> None)"

definition report_drops :: "producer \<Rightarrow> 'c drop_race \<Rightarrow> 'c drop_race option" where
  "report_drops t s =
     (case race_pc s t of
        Reporting n \<Rightarrow>
          Some (race_leave t (s\<lparr>race_shared := (race_shared s)\<lparr>dl_reported := dl_reported (race_shared s) + n\<rparr>\<rparr>))
      | _ \<Rightarrow> None)"

fun race_event :: "drop_event \<Rightarrow> 'c drop_race \<Rightarrow> 'c drop_race option" where
  "race_event (CountDrop t) s = count_drop t s"
| "race_event (TakeLock t) s = take_lock t s"
| "race_event (Decide t now) s = decide_log t now s"
| "race_event (TakeCount t) s = take_count t s"
| "race_event (Stamp t now) s = stamp_log t now s"
| "race_event (Report t) s = report_drops t s"

definition race_step :: "'c drop_race \<Rightarrow> drop_event \<Rightarrow> 'c drop_race \<Rightarrow> bool" where
  "race_step s e s' \<longleftrightarrow> race_event e s = Some s'"

definition race_start :: "'c option \<Rightarrow> usize \<Rightarrow> duration \<Rightarrow> instant \<Rightarrow> 'c drop_race" where
  "race_start sink n interval now =
     \<lparr>race_shared = dead_letter_new sink n interval now, race_lock = None, race_pc = (\<lambda>t. Outside), race_produced = 0\<rparr>"

fun race_events :: "drop_event list \<Rightarrow> 'c drop_race \<Rightarrow> 'c drop_race option" where
  "race_events [] s = Some s"
| "race_events (e # es) s = (case race_event e s of None \<Rightarrow> None | Some s' \<Rightarrow> race_events es s')"

lemmas race_defs = count_drop_def take_lock_def decide_log_def take_count_def stamp_log_def report_drops_def
  race_move_def race_leave_def Let_def

section \<open>A producer alone\<close>

text \<open>
  What a producer does after a refusal, uninterrupted: the steps after the decision happen only if
  the diagnostic is due, the last only if there is something to report.
\<close>

definition solo_events :: "producer \<Rightarrow> instant \<Rightarrow> 'c drop_race \<Rightarrow> drop_event list" where
  "solo_events t now s =
     [CountDrop t, TakeLock t, Decide t now] @
     (if \<not> should_log now (dl_drops (race_shared s) + 1) (race_shared s) then []
      else [TakeCount t, Stamp t now] @ (if dl_drops (race_shared s) + 1 = 0 then [] else [Report t]))"

lemma solo_run_sequential:
  assumes "race_pc s t = Outside" and "race_lock s = None" and "dr_dropped report = dl_drops (race_shared s) + 1"
  shows "race_events (solo_events t now s) s =
    Some (s\<lparr>race_shared := log_if_due now report ((race_shared s)\<lparr>dl_drops := dl_drops (race_shared s) + 1\<rparr>),
            race_produced := race_produced s + 1\<rparr>)"
  using assms
  by (auto simp: solo_events_def race_defs log_if_due_def should_log_def fun_upd_idem)

section \<open>The invariant\<close>

fun critical :: "drop_pc \<Rightarrow> bool" where
  "critical (Locked n) \<longleftrightarrow> True"
| "critical Taking \<longleftrightarrow> True"
| "critical (Stamping n) \<longleftrightarrow> True"
| "critical (Reporting n) \<longleftrightarrow> True"
| "critical pc \<longleftrightarrow> False"

fun held :: "drop_pc \<Rightarrow> u64" where
  "held (Stamping n) = n"
| "held (Reporting n) = n"
| "held pc = 0"

text \<open>A producer that is going to take the count because of the count it saw.\<close>

fun will_take :: "nat \<Rightarrow> drop_pc \<Rightarrow> bool" where
  "will_take n (Counted d) \<longleftrightarrow> unat d mod n = 0"
| "will_take n (Locked d) \<longleftrightarrow> unat d mod n = 0"
| "will_take n Taking \<longleftrightarrow> True"
| "will_take n pc \<longleftrightarrow> False"

definition in_flight :: "'c drop_race \<Rightarrow> u64" where
  "in_flight s = (case race_lock s of None \<Rightarrow> 0 | Some t \<Rightarrow> held (race_pc s t))"

definition race_inv :: "nat \<Rightarrow> 'c drop_race \<Rightarrow> bool" where
  "race_inv n s \<longleftrightarrow> dl_log_every_n (race_shared s) = n \<and>
     (\<forall>t. critical (race_pc s t) \<longleftrightarrow> race_lock s = Some t) \<and>
     dl_reported (race_shared s) + dl_drops (race_shared s) + in_flight s = word_of_nat (race_produced s) \<and>
     (0 < n \<and> n \<le> unat (dl_drops (race_shared s)) \<longrightarrow> (\<exists>t. will_take n (race_pc s t)))"

lemma unat_inc_reaches:
  assumes "n \<le> unat (d + 1 :: u64)" and "0 < n" and "\<not> n \<le> unat d"
  shows "unat (d + 1) mod n = 0"
proof -
  have "d + 1 \<noteq> 0" using assms(1,2) by auto
  then have "unat (1 + d) = Suc (unat d)" by (intro unatSuc) (simp add: add.commute)
  then have "unat (d + 1) = Suc (unat d)" by (simp add: add.commute)
  then have "unat (d + 1) = n" using assms by simp
  then show ?thesis by simp
qed

lemma not_critical_other:
  assumes "\<forall>t. critical (race_pc s t) \<longleftrightarrow> race_lock s = Some t" and "critical (race_pc s t)"
  shows "race_lock s = Some t" "\<And>u. u \<noteq> t \<Longrightarrow> \<not> critical (race_pc s u)"
  using assms by auto

lemma count_drop_inv:
  assumes "race_inv n s" and "count_drop t s = Some s'"
  shows "race_inv n s'"
proof -
  let ?d = "dl_drops (race_shared s)"
  have t: "race_pc s t = Outside" "\<not> critical (race_pc s t)" and
    s': "s' = race_move t (Counted (?d + 1))
      (s\<lparr>race_shared := (race_shared s)\<lparr>dl_drops := ?d + 1\<rparr>, race_produced := race_produced s + 1\<rparr>)"
    using assms(2) by (auto simp: count_drop_def Let_def split: if_splits)
  have lock: "race_lock s \<noteq> Some t" using assms(1) t(2) by (auto simp: race_inv_def)
  have flight: "in_flight s' = in_flight s"
    using lock by (auto simp: s' in_flight_def race_move_def split: option.splits)
  have "\<exists>u. will_take n (race_pc s' u)" if n: "0 < n" "n \<le> unat (?d + 1)"
  proof (cases "n \<le> unat ?d")
    case True
    then obtain u where u: "will_take n (race_pc s u)" using assms(1) n(1) by (auto simp: race_inv_def)
    then have "u \<noteq> t" using t(1) by auto
    with u show ?thesis by (intro exI [of _ u]) (simp add: s' race_move_def)
  next
    case False
    then show ?thesis using unat_inc_reaches [OF n(2,1)] by (intro exI [of _ t]) (simp add: s' race_move_def)
  qed
  moreover have "\<forall>u. critical (race_pc s' u) \<longleftrightarrow> race_lock s' = Some u" "dl_log_every_n (race_shared s') = n"
    "dl_drops (race_shared s') = ?d + 1"
    using assms(1) lock by (auto simp: race_inv_def s' race_move_def)
  moreover have "dl_reported (race_shared s') + dl_drops (race_shared s') + in_flight s' = word_of_nat (race_produced s')"
    using assms(1) unfolding flight by (simp add: race_inv_def s' race_move_def) (simp add: algebra_simps)
  ultimately show ?thesis unfolding race_inv_def by simp
qed

text \<open>The other steps move one producer; what the count promised is kept unless it is taken.\<close>

lemma will_take_kept:
  assumes "\<exists>u. will_take n (race_pc s u)" and "will_take n (race_pc s t) \<longrightarrow> will_take n pc"
  shows "\<exists>u. will_take n (((race_pc s)(t := pc)) u)"
  using assms by (metis fun_upd_other fun_upd_same)

lemma take_lock_inv:
  assumes "race_inv n s" and "take_lock t s = Some s'"
  shows "race_inv n s'"
proof -
  obtain d where t: "race_pc s t = Counted d" "race_lock s = None" and
    s': "s' = race_move t (Locked d) (s\<lparr>race_lock := Some t\<rparr>)"
    using assms(2) by (auto simp: take_lock_def split: drop_pc.splits if_splits)
  then show ?thesis
    using assms(1) will_take_kept [of n s t "Locked d"]
    by (auto simp: race_inv_def race_move_def in_flight_def)
qed

lemma critical_step_inv:
  assumes "race_inv n s" and "critical (race_pc s t)"
    and "dl_log_every_n sh = n"
    and "dl_reported sh + dl_drops sh + held pc = dl_reported (race_shared s) + dl_drops (race_shared s) + held (race_pc s t)"
    and "0 < n \<and> n \<le> unat (dl_drops sh) \<longrightarrow>
      n \<le> unat (dl_drops (race_shared s)) \<and> (will_take n (race_pc s t) \<longrightarrow> will_take n pc)"
    and "s' = race_move t pc (s\<lparr>race_shared := sh\<rparr>) \<and> critical pc \<or>
      s' = race_leave t (s\<lparr>race_shared := sh\<rparr>) \<and> pc = Outside"
  shows "race_inv n s'"
proof -
  have lock: "race_lock s = Some t" using assms(1,2) by (auto simp: race_inv_def)
  have "in_flight s = held (race_pc s t)" "in_flight s' = held pc"
    using lock assms(6) by (auto simp: in_flight_def race_move_def race_leave_def)
  moreover have "race_pc s' = (race_pc s)(t := pc)" "race_shared s' = sh" "race_produced s' = race_produced s"
    "\<forall>u. (critical (((race_pc s)(t := pc)) u) \<longleftrightarrow> race_lock s' = Some u)"
    using assms(1,6) lock by (auto simp: race_move_def race_leave_def race_inv_def)
  ultimately show ?thesis
    using assms(1,3-5) will_take_kept [of n s t pc] unfolding race_inv_def by auto
qed

lemma decide_log_inv:
  assumes "race_inv n s" and "decide_log t now s = Some s'"
  shows "race_inv n s'"
proof -
  obtain d where t: "race_pc s t = Locked d" and
    s': "s' = (if should_log now d (race_shared s) then race_move t Taking s else race_leave t s)"
    using assms(2) by (auto simp: decide_log_def split: drop_pc.splits)
  have n: "dl_log_every_n (race_shared s) = n" using assms(1) by (simp add: race_inv_def)
  show ?thesis
  proof (cases "should_log now d (race_shared s)")
    case True
    then show ?thesis
      using t s' n by (intro critical_step_inv [OF assms(1), of t "race_shared s" Taking]) auto
  next
    case False
    then show ?thesis
      using t s' n by (intro critical_step_inv [OF assms(1), of t "race_shared s" Outside]) (auto simp: should_log_def)
  qed
qed

lemma take_count_inv:
  assumes "race_inv n s" and "take_count t s = Some s'"
  shows "race_inv n s'"
proof -
  let ?sh = "(race_shared s)\<lparr>dl_drops := 0\<rparr>" and ?pc = "Stamping (dl_drops (race_shared s))"
  have t: "race_pc s t = Taking" and s': "s' = race_move t ?pc (s\<lparr>race_shared := ?sh\<rparr>)"
    using assms(2) by (auto simp: take_count_def split: if_splits)
  have "dl_log_every_n (race_shared s) = n" using assms(1) by (simp add: race_inv_def)
  then show ?thesis
    using t s' by (intro critical_step_inv [OF assms(1), of t ?sh ?pc s']) auto
qed

lemma stamp_log_inv:
  assumes "race_inv n s" and "stamp_log t now s = Some s'"
  shows "race_inv n s'"
proof -
  let ?sh = "(race_shared s)\<lparr>dl_last_log := now\<rparr>"
  obtain r where t: "race_pc s t = Stamping r" and
    s': "s' = (if r = 0 then race_leave t (s\<lparr>race_shared := ?sh\<rparr>) else race_move t (Reporting r) (s\<lparr>race_shared := ?sh\<rparr>))"
    using assms(2) by (auto simp: stamp_log_def Let_def split: drop_pc.splits)
  have n: "dl_log_every_n (race_shared s) = n" using assms(1) by (simp add: race_inv_def)
  show ?thesis
  proof (cases "r = 0")
    case True
    then show ?thesis using t s' n by (intro critical_step_inv [OF assms(1), of t ?sh Outside s']) simp_all
  next
    case False
    then show ?thesis using t s' n by (intro critical_step_inv [OF assms(1), of t ?sh "Reporting r" s']) simp_all
  qed
qed

lemma report_drops_inv:
  assumes "race_inv n s" and "report_drops t s = Some s'"
  shows "race_inv n s'"
proof -
  obtain r where t: "race_pc s t = Reporting r" and
    s': "s' = race_leave t (s\<lparr>race_shared := (race_shared s)\<lparr>dl_reported := dl_reported (race_shared s) + r\<rparr>\<rparr>)"
    using assms(2) by (auto simp: report_drops_def split: drop_pc.splits)
  then show ?thesis
    using assms(1)
    by (intro critical_step_inv [OF assms(1), of t "(race_shared s)\<lparr>dl_reported := dl_reported (race_shared s) + r\<rparr>" Outside])
      (auto simp: race_inv_def ac_simps)
qed

lemmas race_event_inv =
  count_drop_inv take_lock_inv decide_log_inv take_count_inv stamp_log_inv report_drops_inv

interpretation drops: transition_system
  "\<lambda>s. \<exists>interval now sink. s = race_start sink n interval now" race_step "race_inv n" for n
proof unfold_locales
  show "\<exists>interval now sink. s = race_start sink n interval now \<Longrightarrow> race_inv n s" for s
    by (auto simp: race_inv_def race_start_def dead_letter_new_def in_flight_def)
  show "race_inv n s \<Longrightarrow> race_step s e t \<Longrightarrow> race_inv n t" for s e t
    by (cases e) (auto simp: race_step_def intro: race_event_inv)
qed


lemma race_events_reachable:
  assumes "reachable init race_step s" and "race_events es s = Some s'"
  shows "reachable init race_step s'"
  using assms
proof (induction es s rule: race_events.induct)
  case (2 e es s)
  then obtain t where t: "race_event e s = Some t" "race_events es t = Some s'"
    by (auto split: option.splits)
  then have "reachable init race_step t" by (intro reachable.move [OF 2(2)]) (simp add: race_step_def)
  then show ?case using 2(1) t by blast
qed simp

text \<open>
  C21: No drop is lost or reported twice, for any number of producers and any interleaving of their
  steps. At most one producer is past the lock. The drops reported, the drops still counted and
  the drops a producer has taken and not yet reported add up to the drops produced, modulo the
  width of the counter. When every producer has left, nothing is in between and,
  if a count interval is set, fewer drops than the interval remain unreported.
\<close>

theorem drops_accounted:
  assumes "reachable (\<lambda>s. \<exists>interval now sink. s = race_start sink n interval now) race_step s"
  shows "(critical (race_pc s t) \<and> critical (race_pc s u) \<longrightarrow> t = u) \<and>
    dl_reported (race_shared s) + dl_drops (race_shared s) + in_flight s = word_of_nat (race_produced s) \<and>
    ((\<forall>t. race_pc s t = Outside) \<longrightarrow>
       dl_reported (race_shared s) + dl_drops (race_shared s) = word_of_nat (race_produced s) \<and>
       (0 < n \<longrightarrow> unat (dl_drops (race_shared s)) < n))"
proof -
  have inv: "race_inv n s" using assms by (rule drops.inv_reachable)
  then have lock: "\<And>t. critical (race_pc s t) \<longleftrightarrow> race_lock s = Some t"
    and accounted: "dl_reported (race_shared s) + dl_drops (race_shared s) + in_flight s = word_of_nat (race_produced s)"
    and due: "0 < n \<Longrightarrow> n \<le> unat (dl_drops (race_shared s)) \<Longrightarrow> \<exists>t. will_take n (race_pc s t)"
    by (auto simp only: race_inv_def)
  have "in_flight s = 0" "0 < n \<longrightarrow> unat (dl_drops (race_shared s)) < n" if out: "\<forall>t. race_pc s t = Outside"
  proof -
    have "race_lock s \<noteq> Some t" for t unfolding lock [symmetric] using out by simp
    then have "race_lock s = None" by (cases "race_lock s") blast+
    then show "in_flight s = 0" by (simp add: in_flight_def)
    show "0 < n \<longrightarrow> unat (dl_drops (race_shared s)) < n" 
    proof (intro impI)
      assume "0 < n"
      moreover have "\<not> (\<exists>t. will_take n (race_pc s t))" using out by simp
      ultimately show "unat (dl_drops (race_shared s)) < n" using due by (meson not_less)
    qed
  qed
  then have "(\<forall>t. race_pc s t = Outside) \<longrightarrow>
      dl_reported (race_shared s) + dl_drops (race_shared s) = word_of_nat (race_produced s) \<and>
      (0 < n \<longrightarrow> unat (dl_drops (race_shared s)) < n)"
    using accounted by (metis add.right_neutral)
  moreover have "critical (race_pc s t) \<and> critical (race_pc s u) \<longrightarrow> t = u" unfolding lock by auto
  ultimately show ?thesis using accounted by blast
qed

text \<open>Two producers: the second counts its drop before the first, whose count is due, takes the count.\<close>

definition contended_events :: "drop_event list" where
  "contended_events =
     [CountDrop 0, CountDrop 1, TakeLock 1, Decide 1 0, TakeCount 1, Stamp 1 0, CountDrop 2, Report 1,
      TakeLock 0, Decide 0 0, TakeLock 2, Decide 2 0]"

theorem drops_accounted_witness:
  "\<exists>s. race_events contended_events (race_start (Some ()) 2 ten_seconds 0) = Some s \<and>
     (\<forall>t. race_pc s t = Outside) \<and> dl_reported (race_shared s) = 2 \<and> race_produced s = 3 \<and>
     dl_reported (race_shared s) + dl_drops (race_shared s) = 3 \<and> unat (dl_drops (race_shared s)) < 2"
proof -
  let ?s0 = "race_start (Some ()) 2 ten_seconds 0"
  obtain s where s: "race_events contended_events ?s0 = Some s" and out: "\<forall>t. race_pc s t = Outside"
    and n: "dl_reported (race_shared s) = 2" "race_produced s = 3"
    by (simp add: contended_events_def race_start_def race_defs dead_letter_new_def should_log_def ten_seconds_def
        saturating_duration_since_def numeral_3_eq_3)
  have "reachable (\<lambda>s. \<exists>interval now sink. s = race_start sink 2 interval now) race_step s"
    by (rule race_events_reachable [OF reachable.start s]) blast
  from drops_accounted [OF this] out n s show ?thesis by simp
qed

end
