(* ===== verification/Session_Registry.thy ===== *)
theory Session_Registry
  imports Prelude
begin

text \<open>
  The registry of push handles (\<open>src/session.rs\<close>). The concurrent map is the crate \<open>dashmap\<close>: its
  operations are the argument \<open>dm\<close> of the definitions, over an opaque map type \<open>'d\<close>, and
  \<open>dashmap_documented dm v\<close> is what it documents through the view \<open>v\<close> of a map as a partial function.
  \<open>retain\<close> visits the entries in an order of its own, which the documentation leaves open.
  \<open>Arc\<close> and \<open>Weak\<close> are addresses in a heap of strong counts. Each call of the map
  is one step; \<open>get\<close> makes two, with other tasks in between.
\<close>

section \<open>Identifiers and reference counts\<close>

datatype connection_id = ConnectionId u64

definition connection_id_new :: "u64 \<Rightarrow> connection_id" where
  "connection_id_new i = ConnectionId i"

fun connection_id_as_u64 :: "connection_id \<Rightarrow> u64" where
  "connection_id_as_u64 (ConnectionId i) = i"

type_synonym arc = nat
type_synonym strong_counts = "arc \<Rightarrow> nat"

definition weak_upgrade :: "arc \<Rightarrow> strong_counts \<Rightarrow> strong_counts option" where
  "weak_upgrade w h = (if 0 < h w then Some (h(w := h w + 1)) else None)"

definition arc_drop :: "arc \<Rightarrow> strong_counts \<Rightarrow> strong_counts" where
  "arc_drop a h = h(a := h a - 1)"

section \<open>The map library\<close>

record ('d, 's) dashmap_lib =
  dm_get :: "'d \<Rightarrow> connection_id \<Rightarrow> arc option"
  dm_insert :: "connection_id \<Rightarrow> arc \<Rightarrow> 'd \<Rightarrow> 'd"
  dm_remove :: "connection_id \<Rightarrow> 'd \<Rightarrow> 'd"
  dm_remove_if :: "connection_id \<Rightarrow> (connection_id \<Rightarrow> arc \<Rightarrow> bool) \<Rightarrow> 'd \<Rightarrow> 'd"
  dm_retain :: "(connection_id \<Rightarrow> arc \<Rightarrow> 's \<Rightarrow> 's \<times> bool) \<Rightarrow> 'd \<Rightarrow> 's \<Rightarrow> 'd \<times> 's"

text \<open>What a pass over entries keeps when the closure threads a state through its calls.\<close>

fun visit_entries ::
  "('k \<Rightarrow> 'v \<Rightarrow> 's \<Rightarrow> 's \<times> bool) \<Rightarrow> ('k \<times> 'v) list \<Rightarrow> 's \<Rightarrow> ('k \<times> 'v) list \<times> 's" where
  "visit_entries f [] s = ([], s)"
| "visit_entries f ((k, w) # xs) s =
     (let (s', keep) = f k w s; (kept, s'') = visit_entries f xs s'
      in (if keep then (k, w) # kept else kept, s''))"

definition dashmap_documented :: "('d, 's) dashmap_lib \<Rightarrow> ('d \<Rightarrow> connection_id \<rightharpoonup> arc) \<Rightarrow> bool" where
  "dashmap_documented dm v \<longleftrightarrow>
     (\<forall>d k. dm_get dm d k = v d k) \<and>
     (\<forall>k w d. v (dm_insert dm k w d) = (v d)(k \<mapsto> w)) \<and>
     (\<forall>k d. v (dm_remove dm k d) = (v d)(k := None)) \<and>
     (\<forall>k p d. v (dm_remove_if dm k p d) =
        (case v d k of Some w \<Rightarrow> if p k w then (v d)(k := None) else v d | None \<Rightarrow> v d)) \<and>
     (\<forall>f d s. \<exists>xs. distinct (map fst xs) \<and> map_of xs = v d \<and>
        map_prod v id (dm_retain dm f d s) = map_prod map_of id (visit_entries f xs s))"

section \<open>Operations\<close>

definition registry_lookup :: "('d, 's) dashmap_lib \<Rightarrow> connection_id \<Rightarrow> 'd \<Rightarrow> strong_counts \<Rightarrow> strong_counts \<times> arc option" where
  "registry_lookup dm i d h =
     (case dm_get dm d i of
        None \<Rightarrow> (h, None)
      | Some w \<Rightarrow> (case weak_upgrade w h of None \<Rightarrow> (h, None) | Some h' \<Rightarrow> (h', Some w)))"

definition registry_evict :: "('d, 's) dashmap_lib \<Rightarrow> connection_id \<Rightarrow> strong_counts \<Rightarrow> 'd \<Rightarrow> 'd" where
  "registry_evict dm i h d = dm_remove_if dm i (\<lambda>_ w. h w = 0) d"

definition registry_get ::
  "('d, 's) dashmap_lib \<Rightarrow> connection_id \<Rightarrow> 'd \<Rightarrow> strong_counts \<Rightarrow> 'd \<times> strong_counts \<times> arc option" where
  "registry_get dm i d h =
     (let (h', handle) = registry_lookup dm i d h
      in (if handle = None then registry_evict dm i h' d else d, h', handle))"

definition registry_insert :: "('d, 's) dashmap_lib \<Rightarrow> connection_id \<Rightarrow> arc \<Rightarrow> 'd \<Rightarrow> 'd" where
  "registry_insert dm i handle d = dm_insert dm i handle d"

definition registry_remove :: "('d, 's) dashmap_lib \<Rightarrow> connection_id \<Rightarrow> 'd \<Rightarrow> 'd" where
  "registry_remove dm i d = dm_remove dm i d"

definition prune :: "('d, unit) dashmap_lib \<Rightarrow> strong_counts \<Rightarrow> 'd \<Rightarrow> 'd" where
  "prune dm h d = fst (dm_retain dm (\<lambda>_ w s. (s, 0 < h w)) d ())"

text \<open>The closure given to \<open>retain\<close>: \<open>f\<close> consumes the upgraded handle and what it returns is collected.\<close>

definition collect_entry ::
  "(connection_id \<Rightarrow> arc \<Rightarrow> strong_counts \<Rightarrow> strong_counts \<times> 't) \<Rightarrow> connection_id \<Rightarrow> arc \<Rightarrow>
   strong_counts \<times> 't list \<Rightarrow> (strong_counts \<times> 't list) \<times> bool" where
  "collect_entry f i w = (\<lambda>(h, out).
     case weak_upgrade w h of
       None \<Rightarrow> ((h, out), False)
     | Some h' \<Rightarrow> (let (h'', t) = f i w h' in ((h'', out @ [t]), True)))"

definition retain_and_collect ::
  "('d, strong_counts \<times> 't list) dashmap_lib \<Rightarrow>
   (connection_id \<Rightarrow> arc \<Rightarrow> strong_counts \<Rightarrow> strong_counts \<times> 't) \<Rightarrow> 'd \<Rightarrow> strong_counts \<Rightarrow> 'd \<times> strong_counts \<times> 't list" where
  "retain_and_collect dm f d h = dm_retain dm (collect_entry f) d (h, [])"

definition active_handles ::
  "('d, strong_counts \<times> (connection_id \<times> arc) list) dashmap_lib \<Rightarrow> 'd \<Rightarrow> strong_counts \<Rightarrow>
   'd \<times> strong_counts \<times> (connection_id \<times> arc) list" where
  "active_handles dm = retain_and_collect dm (\<lambda>i inner h. (h, (i, inner)))"

definition active_ids ::
  "('d, strong_counts \<times> connection_id list) dashmap_lib \<Rightarrow> 'd \<Rightarrow> strong_counts \<Rightarrow>
   'd \<times> strong_counts \<times> connection_id list" where
  "active_ids dm = retain_and_collect dm (\<lambda>i inner h. (arc_drop inner h, i))"

section \<open>The registry as a map of live handles\<close>

definition live :: "(connection_id \<rightharpoonup> arc) \<Rightarrow> strong_counts \<Rightarrow> connection_id \<rightharpoonup> arc" where
  "live m h i = (case m i of None \<Rightarrow> None | Some a \<Rightarrow> if 0 < h a then Some a else None)"

lemma live_upd [simp]:
  "live (m(i \<mapsto> a)) h = (if 0 < h a then (live m h)(i \<mapsto> a) else (live m h)(i := None))"
  "live (m(i := None)) h = (live m h)(i := None)"
  by (auto simp: live_def fun_eq_iff)

text \<open>Two heaps with the same live addresses give the same live handles.\<close>

lemma live_cong: "(\<And>a. 0 < h' a \<longleftrightarrow> 0 < h a) \<Longrightarrow> live m h' = live m h"
  by (auto simp: live_def fun_eq_iff split: option.split)

lemma map_of_filter_live_at:
  "distinct (map fst xs) \<Longrightarrow> map_of (filter (\<lambda>(k, w). 0 < h w) xs) i = live (map_of xs) h i"
proof (induction xs)
  case (Cons x xs)
  obtain k w where x: "x = (k, w)" by fastforce
  have "map_of xs k = None" using Cons.prems by (simp add: x map_of_eq_None_iff)
  then show ?case using Cons by (cases "i = k") (simp_all add: x live_def)
qed (simp add: live_def)

lemma map_of_filter_live:
  "distinct (map fst xs) \<Longrightarrow> map_of (filter (\<lambda>(k, w). 0 < h w) xs) = live (map_of xs) h"
  by (rule ext) (rule map_of_filter_live_at)

lemma distinct_keys_filter: "distinct (map fst xs) \<Longrightarrow> distinct (map fst (filter P xs))"
  by (induction xs) auto

lemma visit_prune: "visit_entries (\<lambda>_ w s. (s, 0 < h w)) xs s = (filter (\<lambda>(k, w). 0 < h w) xs, s)"
  by (induction xs arbitrary: s) auto

text \<open>
  Collecting: each live entry is visited once. A collector may give its handle back or keep it; either
  way the addresses that are live stay the same, so the visit is a filter by the first heap.
\<close>

lemma visit_collect_ids:
  "visit_entries (collect_entry (\<lambda>i inner h. (arc_drop inner h, i))) xs (h, out) =
     (filter (\<lambda>(k, w). 0 < h w) xs, h, out @ map fst (filter (\<lambda>(k, w). 0 < h w) xs))"
  by (induction xs arbitrary: out) (auto simp: collect_entry_def weak_upgrade_def arc_drop_def)

definition held_by :: "('k \<times> arc) list \<Rightarrow> strong_counts \<Rightarrow> strong_counts" where
  "held_by hs h a = h a + length (filter (\<lambda>(k, w). w = a) hs)"

lemma held_by_Cons: "held_by xs (h(w := h w + 1)) = held_by ((k, w) # xs) h"
  by (auto simp: held_by_def fun_eq_iff)

lemma visit_collect_handles:
  "visit_entries (collect_entry (\<lambda>i inner h. (h, (i, inner)))) xs (h, out) =
     (filter (\<lambda>(k, w). 0 < h w) xs, held_by (filter (\<lambda>(k, w). 0 < h w) xs) h, out @ filter (\<lambda>(k, w). 0 < h w) xs)"
proof (induction xs arbitrary: h out)
  case (Cons x xs)
  obtain k w where x: "x = (k, w)" by fastforce
  let ?h = "h(w := h w + 1)"
  have same: "filter (\<lambda>(k, w). 0 < ?h w) xs = filter (\<lambda>(k, w). 0 < h w) xs" if "0 < h w"
    using that by (intro filter_cong) auto
  show ?case
  proof (cases "0 < h w")
    case True
    then have "weak_upgrade w h = Some ?h" by (simp add: weak_upgrade_def)
    then show ?thesis
      using Cons.IH [of ?h "out @ [(k, w)]"] True
      unfolding same [OF True] held_by_Cons [of _ h w k] by (simp add: x collect_entry_def fun_upd_def)
  next
    case False
    then show ?thesis using Cons.IH [of h out] by (simp add: x collect_entry_def weak_upgrade_def)
  qed
qed (simp add: held_by_def fun_eq_iff)


section \<open>Each operation on the live handles\<close>

lemma dashmap_simps:
  assumes "dashmap_documented dm v"
  shows "dm_get dm d i = v d i" "v (dm_insert dm i w d) = (v d)(i \<mapsto> w)" "v (dm_remove dm i d) = (v d)(i := None)"
    "v (dm_remove_if dm i p d) = (case v d i of Some w \<Rightarrow> if p i w then (v d)(i := None) else v d | None \<Rightarrow> v d)"
  using assms unfolding dashmap_documented_def by simp_all

lemma dashmap_retainE:
  assumes "dashmap_documented dm v"
  obtains xs where "distinct (map fst xs)" "map_of xs = v d"
    "map_prod v id (dm_retain dm f d s) = map_prod map_of id (visit_entries f xs s)"
  using assms unfolding dashmap_documented_def by blast

lemma evict_keeps_live:
  assumes "dashmap_documented dm v"
  shows "live (v (registry_evict dm i h d)) h = live (v d) h"
  by (auto simp: registry_evict_def dashmap_simps [OF assms] live_def fun_eq_iff split: option.split)

lemma lookup_live:
  assumes "dashmap_documented dm v"
  shows "registry_lookup dm i d h =
    (case live (v d) h i of None \<Rightarrow> (h, None) | Some a \<Rightarrow> (h(a := h a + 1), Some a))"
  by (auto simp: registry_lookup_def dashmap_simps [OF assms] live_def weak_upgrade_def split: option.split)

lemma get_live:
  assumes "dashmap_documented dm v" and "registry_get dm i d h = (d', h', r)"
  shows "r = live (v d) h i \<and> live (v d') h' = live (v d) h \<and> (r = None \<longrightarrow> v d' i = None)"
proof (cases "live (v d) h i")
  case None
  then have res: "r = None" "h' = h" "d' = registry_evict dm i h d"
    using assms(2) by (auto simp: registry_get_def lookup_live [OF assms(1)])
  have "v d' i = None"
    using None by (auto simp: res registry_evict_def dashmap_simps [OF assms(1)] live_def split: option.split if_splits)
  then show ?thesis using evict_keeps_live [OF assms(1), of i h d] None by (simp add: res)
next
  case (Some a)
  then have res: "r = Some a" "h' = h(a := h a + 1)" "d' = d"
    using assms(2) by (auto simp: registry_get_def lookup_live [OF assms(1)])
  have "0 < h a" using Some by (auto simp: live_def split: option.splits if_splits)
  then have "live (v d') h' = live (v d) h" unfolding res by (intro live_cong) auto
  then show ?thesis using Some res by simp
qed

lemma prune_live:
  assumes "dashmap_documented dm v"
  shows "v (prune dm h d) = live (v d) h"
proof -
  let ?keep = "\<lambda>_ w s. (s, 0 < h w)"
  obtain xs where xs: "distinct (map fst xs)" "map_of xs = v d"
    "map_prod v id (dm_retain dm ?keep d ()) = map_prod map_of id (visit_entries ?keep xs ())"
    using assms by (rule dashmap_retainE)
  then have "v (prune dm h d) = map_of (filter (\<lambda>(k, w). 0 < h w) xs)"
    unfolding prune_def visit_prune by (metis fst_conv fst_map_prod)
  then show ?thesis using map_of_filter_live [OF xs(1)] by (simp add: xs(2))
qed

lemma active_ids_live:
  assumes "dashmap_documented dm v" and "active_ids dm d h = (d', h', ids)"
  shows "v d' = live (v d) h \<and> h' = h \<and> distinct ids \<and> set ids = dom (live (v d) h)"
proof -
  obtain xs where xs: "distinct (map fst xs)" "map_of xs = v d"
    "map_prod v id (active_ids dm d h) =
       map_prod map_of id (visit_entries (collect_entry (\<lambda>i inner h. (arc_drop inner h, i))) xs (h, []))"
    unfolding active_ids_def retain_and_collect_def using assms(1) by (rule dashmap_retainE)
  let ?ys = "filter (\<lambda>(k, w). 0 < h w) xs"
  have "v d' = map_of ?ys" "h' = h" "ids = map fst ?ys"
    using xs(3) by (auto simp: assms(2) visit_collect_ids)
  then show ?thesis
    using map_of_filter_live [OF xs(1), of h] distinct_keys_filter [OF xs(1)] dom_map_of_conv_image_fst [of ?ys]
    by (simp add: xs(2))
qed

lemma active_handles_live:
  assumes "dashmap_documented dm v" and "active_handles dm d h = (d', h', hs)"
  shows "v d' = live (v d) h \<and> distinct (map fst hs) \<and> map_of hs = live (v d) h \<and> h' = held_by hs h"
proof -
  obtain xs where xs: "distinct (map fst xs)" "map_of xs = v d"
    "map_prod v id (active_handles dm d h) =
       map_prod map_of id (visit_entries (collect_entry (\<lambda>i inner h. (h, (i, inner)))) xs (h, []))"
    unfolding active_handles_def retain_and_collect_def using assms(1) by (rule dashmap_retainE)
  let ?ys = "filter (\<lambda>(k, w). 0 < h w) xs"
  have "v d' = map_of ?ys" "h' = held_by ?ys h" "hs = ?ys"
    using xs(3) by (auto simp: assms(2) visit_collect_handles)
  then show ?thesis
    using map_of_filter_live [OF xs(1), of h] distinct_keys_filter [OF xs(1)] by (simp add: xs(2))
qed

lemma arc_drop_live:
  "live m (arc_drop a h) = (if h a = 1 then (\<lambda>i. if live m h i = Some a then None else live m h i) else live m h)"
  by (auto simp: live_def arc_drop_def fun_eq_iff split: option.split)


text \<open>
  C15: The registry is a map of the live handles. A lookup returns the live handle of the identifier,
  and none if its entry is dead, which it then removes; inserting and removing change the one
  identifier, and the last owner's drop takes out exactly the identifiers of its handle.
  Pruning and the two listings change no live handle, leave no dead entry behind, and
  the listings name each live connection once; \<open>active_ids\<close> keeps no handle alive. The eviction
  that ends a failed lookup runs after other tasks may have changed everything: in whatever
  state it finds the map it removes no live handle.
\<close>

theorem registry_refines_live_map:
  assumes "dashmap_documented dm v" and "dashmap_documented dmu v" and "dashmap_documented dmi v"
    and "dashmap_documented dmh v"
  shows "(0 < h a \<longrightarrow> live (v (registry_insert dm i a d)) h = (live (v d) h)(i \<mapsto> a)) \<and>
    live (v (registry_remove dm i d)) h = (live (v d) h)(i := None) \<and>
    (case registry_get dm i d h of (d', h', r) \<Rightarrow>
       r = live (v d) h i \<and> live (v d') h' = live (v d) h \<and> (r = None \<longrightarrow> v d' i = None)) \<and>
    (\<forall>d' h'. live (v (registry_evict dm i h' d')) h' = live (v d') h') \<and>
    v (prune dmu h d) = live (v d) h \<and>
    (case active_ids dmi d h of (d', h', ids) \<Rightarrow>
       v d' = live (v d) h \<and> h' = h \<and> distinct ids \<and> set ids = dom (live (v d) h)) \<and>
    (case active_handles dmh d h of (d', h', hs) \<Rightarrow>
       v d' = live (v d) h \<and> distinct (map fst hs) \<and> map_of hs = live (v d) h \<and> h' = held_by hs h) \<and>
    live (v d) (arc_drop a h) =
      (if h a = 1 then (\<lambda>i. if live (v d) h i = Some a then None else live (v d) h i) else live (v d) h)"
  using get_live [OF assms(1)] evict_keeps_live [OF assms(1)] prune_live [OF assms(2)] active_ids_live [OF assms(3)]
    active_handles_live [OF assms(4)] arc_drop_live
  by (auto simp: registry_insert_def registry_remove_def dashmap_simps [OF assms(1)])

text \<open>A map that keeps its entries in a list and retains in the order of the list.\<close>

definition reference_dashmap :: "((connection_id \<times> arc) list, 's) dashmap_lib" where
  "reference_dashmap =
     \<lparr>dm_get = map_of, dm_insert = AList.update,
      dm_remove = AList.delete,
      dm_remove_if = (\<lambda>k p d. case map_of d k of Some w \<Rightarrow> if p k w then AList.delete k d else d | None \<Rightarrow> d),
      dm_retain = (\<lambda>f d s. visit_entries f (AList.clearjunk d) s)\<rparr>"

lemma reference_dashmap_documented: "dashmap_documented reference_dashmap map_of"
  by (auto simp: dashmap_documented_def reference_dashmap_def update_conv' delete_conv' map_of_clearjunk
      distinct_clearjunk fun_eq_iff split: option.split intro!: exI [of _ "AList.clearjunk _"])

definition sample_registry :: "(connection_id \<times> arc) list" where
  "sample_registry = [(ConnectionId 5, 0), (ConnectionId 6, 1)]"

theorem registry_refines_live_map_witness:
  "registry_get reference_dashmap (ConnectionId 5) sample_registry (\<lambda>a. a) = ([(ConnectionId 6, 1)], \<lambda>a. a, None) \<and>
   map_of (prune reference_dashmap (\<lambda>a. a) sample_registry) = [ConnectionId 6 \<mapsto> 1] \<and>
   set (snd (snd (active_ids reference_dashmap sample_registry (\<lambda>a. a)))) = {ConnectionId 6}"
proof -
  note doc = reference_dashmap_documented
  have live: "live (map_of sample_registry) (\<lambda>a. a) = [ConnectionId 6 \<mapsto> 1]"
    by (auto simp: live_def sample_registry_def fun_eq_iff)
  from registry_refines_live_map [OF doc doc doc doc, of "\<lambda>a. a" 0 "ConnectionId 5" sample_registry]
  show ?thesis
    unfolding live
    by (auto simp: registry_get_def registry_lookup_def registry_evict_def reference_dashmap_def sample_registry_def
        weak_upgrade_def split: prod.splits)
qed

end
