(* ===== verification/Client_Error.thy ===== *)
theory Client_Error
  imports Wireframe_Error
begin

text \<open>
  The client's error type: \<open>src/client/error.rs\<close>. Boxed error sources and the errors of the preamble
  encoder are opaque texts; nothing looks into them.
\<close>

datatype client_protocol_error = Deserialize string

datatype client_error =
  ClientWireframe "client_protocol_error wireframe_error"
| Serialize string
| PreambleEncode string
| PreambleWrite io_error
| PreambleRead io_error
| PreambleTimeout
| CorrelationMismatch "u64 option" "u64 option"
| StreamCorrelationMismatch "u64 option" "u64 option"
| PoolSaturated usize
| PoolClosed
| SchedulerFailed

definition client_error_decode :: "string \<Rightarrow> client_error" where
  "client_error_decode source = ClientWireframe (WfProtocol (Deserialize source))"

definition client_error_disconnected :: client_error where
  "client_error_disconnected = ClientWireframe (from_io (IoError UnexpectedEof (IoMessage ''connection closed by peer'')))"

fun should_recycle_connection :: "client_error \<Rightarrow> bool" where
  "should_recycle_connection (ClientWireframe _) = True"
| "should_recycle_connection (PreambleWrite _) = True"
| "should_recycle_connection (PreambleRead _) = True"
| "should_recycle_connection PreambleTimeout = True"
| "should_recycle_connection (CorrelationMismatch _ _) = True"
| "should_recycle_connection (StreamCorrelationMismatch _ _) = True"
| "should_recycle_connection (Serialize _) = False"
| "should_recycle_connection (PreambleEncode _) = False"
| "should_recycle_connection (PoolSaturated _) = False"
| "should_recycle_connection PoolClosed = False"
| "should_recycle_connection SchedulerFailed = False"

end
