(* ===== verification/Pool_Lease.thy ===== *)
theory Pool_Lease
  imports Client_Error
begin

text \<open>
  Leases on one physical socket of the client pool: \<open>src/client/pool/lease.rs\<close> and
  \<open>src/client/pool/slot.rs\<close>. Several leases may share a slot. An operation of a lease
  (\<open>dispatch_on_connection\<close>) is asynchronous: it waits for the protocol gate, for the checkout, for
  the replacement of a discarded socket and for the exchange, and its future may be dropped at each of these
  points. A lease runs one operation at a time (it holds the lock on \<open>pending_response_permit\<close>), so
  its progress is a program counter, and the steps of different leases interleave.

  The physical connection comes from the crate \<open>bb8\<close>: a pool of size one, which drops a connection marked
  broken and may give a new one at any checkout. What a connection still owes its readers is
  the list of leases whose requests have not been answered; the server answers each request once
  and in order. The exchange itself (the argument \<open>operation\<close> of \<open>dispatch_on_connection\<close>) is known
  by its outcome: requests written, replies read, and the result.
\<close>

section \<open>State\<close>

type_synonym lease = nat

datatype pending_response_change = ChangeAdd | ChangeRemove | ChangeNone

text \<open>Where an operation waits: for the gate, for the connection, for its replacement, for the exchange.\<close>

datatype dispatch_pc =
  LeaseIdle
| Admitting pending_response_change
| CheckingOut pending_response_change
| Replacing pending_response_change
| Operating pending_response_change
| LeaseDropped

record lease_state =
  pending_responses :: usize
  pending_response_permit :: bool
  lease_pc :: dispatch_pc

definition lease_new :: lease_state where
  "lease_new = \<lparr>pending_responses = 0, pending_response_permit = False, lease_pc = LeaseIdle\<rparr>"

text \<open>
  \<open>slot_gate_free\<close> is the semaphore \<open>protocol_gate\<close> with its one permit. \<open>slot_owed\<close> is the connection,
  absent when \<open>bb8\<close> has none; \<open>slot_reads\<close> records who has read a reply to whose request.
\<close>

record pool_slot =
  slot_owed :: "lease list option"
  slot_gate_free :: bool
  slot_idle_timeout :: duration
  slot_last_returned_at :: "instant option"
  slot_discard :: bool
  slot_leases :: "lease \<Rightarrow> lease_state"
  slot_reads :: "(lease \<times> lease) list"

definition slot_new :: "duration \<Rightarrow> pool_slot" where
  "slot_new idle =
     \<lparr>slot_owed = None, slot_gate_free = True, slot_idle_timeout = idle, slot_last_returned_at = None,
      slot_discard = False, slot_leases = (\<lambda>l. lease_new), slot_reads = []\<rparr>"

definition upd_lease :: "lease \<Rightarrow> (lease_state \<Rightarrow> lease_state) \<Rightarrow> pool_slot \<Rightarrow> pool_slot" where
  "upd_lease l f s = s\<lparr>slot_leases := (slot_leases s)(l := f (slot_leases s l))\<rparr>"

definition lease_at :: "lease \<Rightarrow> dispatch_pc \<Rightarrow> pool_slot \<Rightarrow> pool_slot" where
  "lease_at l pc = upd_lease l (\<lambda>x. x\<lparr>lease_pc := pc\<rparr>)"

section \<open>Operations\<close>

text \<open>\<open>drop(pending_response_permit.take())\<close>.\<close>

definition release_permit :: "lease \<Rightarrow> pool_slot \<Rightarrow> pool_slot" where
  "release_permit l s =
     (upd_lease l (\<lambda>x. x\<lparr>pending_response_permit := False\<rparr>) s)
       \<lparr>slot_gate_free := slot_gate_free s \<or> pending_response_permit (slot_leases s l)\<rparr>"

definition discard_next_checkout :: "pool_slot \<Rightarrow> pool_slot" where
  "discard_next_checkout s = s\<lparr>slot_discard := True\<rparr>"

definition discard_connection_with_pending_response :: "lease \<Rightarrow> pool_slot \<Rightarrow> pool_slot" where
  "discard_connection_with_pending_response l s =
     upd_lease l (\<lambda>x. x\<lparr>pending_responses := 0\<rparr>) (discard_next_checkout s)"

text \<open>The first part of an operation, up to its first wait.\<close>

definition admit_operation :: "lease \<Rightarrow> pending_response_change \<Rightarrow> pool_slot \<Rightarrow> pool_slot" where
  "admit_operation l change s =
     (let has_pending = 0 < pending_responses (slot_leases s l)
      in if has_pending \<and> change = ChangeNone
         then release_permit l (discard_connection_with_pending_response l s)
         else if has_pending then lease_at l (CheckingOut change) s
         else lease_at l (Admitting change) s)"

text \<open>The semaphore grants the gate; the assignment drops a permit that the lease may still hold.\<close>

definition acquire_protocol_permit :: "lease \<Rightarrow> pending_response_change \<Rightarrow> pool_slot \<Rightarrow> pool_slot" where
  "acquire_protocol_permit l change s =
     (lease_at l (CheckingOut change) (upd_lease l (\<lambda>x. x\<lparr>pending_response_permit := True\<rparr>) s))
       \<lparr>slot_gate_free := pending_response_permit (slot_leases s l)\<rparr>"

definition should_recycle_idle :: "instant \<Rightarrow> pool_slot \<Rightarrow> bool" where
  "should_recycle_idle now s =
     (case slot_last_returned_at s of
        None \<Rightarrow> False
      | Some returned_at \<Rightarrow> slot_idle_timeout s \<le> saturating_duration_since now returned_at)"

text \<open>
  \<open>bb8\<close> has given the connection \<open>owed\<close>: it is used, or marked broken and dropped to be replaced.
\<close>

definition checkout :: "lease \<Rightarrow> pending_response_change \<Rightarrow> instant \<Rightarrow> lease list \<Rightarrow> pool_slot \<Rightarrow> pool_slot" where
  "checkout l change now owed s =
     (let discard_requested = slot_discard s;
          s1 = s\<lparr>slot_discard := False, slot_owed := Some owed\<rparr>;
          is_idle_expired = (pending_responses (slot_leases s l) = 0 \<and> should_recycle_idle now s)
      in if discard_requested \<or> is_idle_expired
         then lease_at l (Replacing change) (s1\<lparr>slot_owed := None, slot_last_returned_at := None\<rparr>)
         else lease_at l (Operating change) s1)"

definition checkout_failed :: "lease \<Rightarrow> pool_slot \<Rightarrow> pool_slot" where
  "checkout_failed l s =
     lease_at l LeaseIdle (release_permit l
       (if 0 < pending_responses (slot_leases s l) then discard_connection_with_pending_response l s else s))"

text \<open>The exchange on the wire: requests are written behind what is owed, replies are read from the front.\<close>

record exchange_outcome =
  ex_sent :: nat
  ex_read :: nat
  ex_result :: "client_error + unit"

definition wire_exchange :: "lease \<Rightarrow> exchange_outcome \<Rightarrow> pool_slot \<Rightarrow> pool_slot" where
  "wire_exchange l ex s =
     (case slot_owed s of
        None \<Rightarrow> s
      | Some owed \<Rightarrow>
          (let wire = owed @ replicate (ex_sent ex) l
           in s\<lparr>slot_owed := Some (drop (ex_read ex) wire),
                slot_reads := slot_reads s @ map (\<lambda>r. (l, r)) (take (ex_read ex) wire)\<rparr>))"

fun record_response_change :: "pending_response_change \<Rightarrow> lease_state \<Rightarrow> lease_state" where
  "record_response_change ChangeAdd x = x\<lparr>pending_responses := pending_responses x + 1\<rparr>"
| "record_response_change ChangeRemove x = x\<lparr>pending_responses := saturating_sub_usize (pending_responses x) 1\<rparr>"
| "record_response_change ChangeNone x = x"

text \<open>The state after the update, whether the connection is broken, and whether the socket stays busy.\<close>

definition finish_operation ::
    "lease \<Rightarrow> client_error + unit \<Rightarrow> pending_response_change \<Rightarrow> pool_slot \<Rightarrow> pool_slot \<times> bool \<times> bool" where
  "finish_operation l result change s =
     (case result of
        Inl e \<Rightarrow>
          if should_recycle_connection e
          then (upd_lease l (\<lambda>x. x\<lparr>pending_responses := 0\<rparr>) s, True, False)
          else (s, False, 0 < pending_responses (slot_leases s l))
      | Inr _ \<Rightarrow>
          (let s' = upd_lease l (record_response_change change) s
           in (s', False, 0 < pending_responses (slot_leases s' l))))"

definition finish_protocol_permit :: "lease \<Rightarrow> bool \<Rightarrow> pool_slot \<Rightarrow> pool_slot" where
  "finish_protocol_permit l keeps_socket_busy s = (if keeps_socket_busy then s else release_permit l s)"

text \<open>\<open>SlotConnection::drop\<close>; \<open>bb8\<close> drops a broken connection when it is returned.\<close>

definition slot_connection_drop :: "lease \<Rightarrow> bool \<Rightarrow> bool \<Rightarrow> instant \<Rightarrow> pool_slot \<Rightarrow> pool_slot" where
  "slot_connection_drop l armed broken now s =
     (let s1 = (if armed then upd_lease l (\<lambda>x. x\<lparr>pending_responses := 0\<rparr>) s else s)
      in if armed \<or> broken then s1\<lparr>slot_last_returned_at := None, slot_owed := None\<rparr>
         else s1\<lparr>slot_last_returned_at := Some now\<rparr>)"

text \<open>The last part of an operation, from the end of its exchange.\<close>

definition finish_dispatch ::
    "lease \<Rightarrow> pending_response_change \<Rightarrow> instant \<Rightarrow> exchange_outcome \<Rightarrow> pool_slot \<Rightarrow> pool_slot" where
  "finish_dispatch l change now ex s =
     (let (s1, broken, busy) = finish_operation l (ex_result ex) change (wire_exchange l ex s)
      in lease_at l LeaseIdle (finish_protocol_permit l busy (slot_connection_drop l False broken now s1)))"

text \<open>The future is dropped: during the exchange the connection's guard is still armed.\<close>

definition cancel_dispatch :: "lease \<Rightarrow> instant \<Rightarrow> exchange_outcome \<Rightarrow> pool_slot \<Rightarrow> pool_slot" where
  "cancel_dispatch l now ex s =
     lease_at l LeaseIdle
       (case lease_pc (slot_leases s l) of
          Operating change \<Rightarrow> slot_connection_drop l True False now (wire_exchange l ex s)
        | _ \<Rightarrow> s)"

text \<open>\<open>PooledClientLease::drop\<close>, then the drop of its fields.\<close>

definition lease_drop :: "lease \<Rightarrow> pool_slot \<Rightarrow> pool_slot" where
  "lease_drop l s =
     lease_at l LeaseDropped (release_permit l
       (if 0 < pending_responses (slot_leases s l) then discard_connection_with_pending_response l s else s))"

section \<open>Steps\<close>

datatype lease_event =
  Begin lease pending_response_change
| GateGranted lease
| Checkout lease instant "lease list"
| CheckoutFailed lease
| Replace lease
| Finish lease instant exchange_outcome
| CancelOperation lease instant exchange_outcome
| DropLease lease

text \<open>
  A successful send writes one request and reads nothing, a receive reads one reply, a whole exchange
  reads as many replies as it writes requests. An error that does not recycle the connection (a
  message that cannot be serialised) has left the wire alone.
\<close>

definition exchange_contract :: "pending_response_change \<Rightarrow> exchange_outcome \<Rightarrow> bool" where
  "exchange_contract change ex \<longleftrightarrow>
     (case ex_result ex of
        Inr _ \<Rightarrow>
          (case change of
             ChangeAdd \<Rightarrow> ex_sent ex = 1 \<and> ex_read ex = 0
           | ChangeRemove \<Rightarrow> ex_sent ex = 0 \<and> ex_read ex = 1
           | ChangeNone \<Rightarrow> ex_sent ex = ex_read ex)
      | Inl e \<Rightarrow> should_recycle_connection e \<or> ex_sent ex = 0 \<and> ex_read ex = 0)"

fun lease_move :: "lease_event \<Rightarrow> pool_slot \<Rightarrow> pool_slot option" where
  "lease_move (Begin l change) s =
     (if lease_pc (slot_leases s l) = LeaseIdle then Some (admit_operation l change s) else None)"
| "lease_move (GateGranted l) s =
     (case lease_pc (slot_leases s l) of
        Admitting change \<Rightarrow> if slot_gate_free s then Some (acquire_protocol_permit l change s) else None
      | _ \<Rightarrow> None)"
| "lease_move (Checkout l now owed) s =
     (case lease_pc (slot_leases s l) of
        CheckingOut change \<Rightarrow> if owed = [] \<or> slot_owed s = Some owed then Some (checkout l change now owed s) else None
      | _ \<Rightarrow> None)"
| "lease_move (CheckoutFailed l) s =
     (case lease_pc (slot_leases s l) of
        CheckingOut change \<Rightarrow> Some (checkout_failed l s)
      | Replacing change \<Rightarrow> Some (checkout_failed l s)
      | _ \<Rightarrow> None)"
| "lease_move (Replace l) s =
     (case lease_pc (slot_leases s l) of
        Replacing change \<Rightarrow> Some (lease_at l (Operating change) (s\<lparr>slot_owed := Some []\<rparr>))
      | _ \<Rightarrow> None)"
| "lease_move (Finish l now ex) s =
     (case lease_pc (slot_leases s l) of
        Operating change \<Rightarrow> if exchange_contract change ex then Some (finish_dispatch l change now ex s) else None
      | _ \<Rightarrow> None)"
| "lease_move (CancelOperation l now ex) s =
     (if lease_pc (slot_leases s l) \<in> {LeaseIdle, LeaseDropped} then None else Some (cancel_dispatch l now ex s))"
| "lease_move (DropLease l) s =
     (if lease_pc (slot_leases s l) = LeaseIdle then Some (lease_drop l s) else None)"

definition lease_step :: "pool_slot \<Rightarrow> lease_event \<Rightarrow> pool_slot \<Rightarrow> bool" where
  "lease_step s e s' \<longleftrightarrow> lease_move e s = Some s'"

definition lease_start :: "pool_slot \<Rightarrow> bool" where
  "lease_start s \<longleftrightarrow> (\<exists>idle. s = slot_new idle)"

lemmas lease_defs = upd_lease_def lease_at_def release_permit_def discard_next_checkout_def
  discard_connection_with_pending_response_def admit_operation_def acquire_protocol_permit_def
  checkout_def checkout_failed_def wire_exchange_def finish_operation_def finish_protocol_permit_def
  slot_connection_drop_def finish_dispatch_def cancel_dispatch_def lease_drop_def Let_def


section \<open>The invariant\<close>

fun holding :: "dispatch_pc \<Rightarrow> bool" where
  "holding (CheckingOut c) \<longleftrightarrow> True"
| "holding (Replacing c) \<longleftrightarrow> True"
| "holding (Operating c) \<longleftrightarrow> True"
| "holding pc \<longleftrightarrow> False"

fun fresh_exchange :: "dispatch_pc \<Rightarrow> bool" where
  "fresh_exchange (Admitting c) \<longleftrightarrow> True"
| "fresh_exchange (CheckingOut c) \<longleftrightarrow> c = ChangeNone"
| "fresh_exchange (Replacing c) \<longleftrightarrow> c = ChangeNone"
| "fresh_exchange (Operating c) \<longleftrightarrow> c = ChangeNone"
| "fresh_exchange pc \<longleftrightarrow> False"

text \<open>What one lease guarantees: whoever is owed a reply, or is past the gate, holds the gate.\<close>

definition lease_ok :: "lease_state \<Rightarrow> bool" where
  "lease_ok x \<longleftrightarrow> (holding (lease_pc x) \<or> 0 < pending_responses x \<longrightarrow> pending_response_permit x) \<and>
     (fresh_exchange (lease_pc x) \<longrightarrow> pending_responses x = 0)"

definition gate_ok :: "pool_slot \<Rightarrow> bool" where
  "gate_ok s \<longleftrightarrow>
     (\<forall>l m. pending_response_permit (slot_leases s l) \<and> pending_response_permit (slot_leases s m) \<longrightarrow> l = m) \<and>
     (\<forall>l. pending_response_permit (slot_leases s l) \<longrightarrow> \<not> slot_gate_free s)"

text \<open>Unless it is due to be discarded, a connection owes nothing but replies its holder still expects.\<close>

definition owed_ok :: "pool_slot \<Rightarrow> bool" where
  "owed_ok s \<longleftrightarrow> slot_discard s \<or>
     (case slot_owed s of
        None \<Rightarrow> True
      | Some owed \<Rightarrow> \<forall>r \<in> set owed. length owed \<le> pending_responses (slot_leases s r) \<and> set owed = {r})"

fun checked_out :: "dispatch_pc \<Rightarrow> bool" where
  "checked_out (Replacing c) \<longleftrightarrow> True"
| "checked_out (Operating c) \<longleftrightarrow> True"
| "checked_out pc \<longleftrightarrow> False"

definition operating_ok :: "pool_slot \<Rightarrow> bool" where
  "operating_ok s \<longleftrightarrow> (\<forall>l. checked_out (lease_pc (slot_leases s l)) \<longrightarrow> \<not> slot_discard s)"

lemma checked_out_holding: "checked_out pc \<Longrightarrow> holding pc"
  by (cases pc) auto

definition lease_inv :: "pool_slot \<Rightarrow> bool" where
  "lease_inv s \<longleftrightarrow> (\<forall>l. lease_ok (slot_leases s l)) \<and> gate_ok s \<and> owed_ok s \<and> operating_ok s \<and>
     (\<forall>(reader, owner) \<in> set (slot_reads s). reader = owner)"

lemma lease_invI:
  assumes "\<And>m. lease_ok (slot_leases s m)" "gate_ok s" "owed_ok s" "operating_ok s"
    "\<forall>(reader, owner) \<in> set (slot_reads s). reader = owner"
  shows "lease_inv s"
  using assms by (simp add: lease_inv_def)

lemma lease_invD:
  assumes "lease_inv s"
  shows "lease_ok (slot_leases s l)" "gate_ok s" "owed_ok s" "operating_ok s"
    "\<forall>(reader, owner) \<in> set (slot_reads s). reader = owner"
  using assms by (simp_all add: lease_inv_def)

text \<open>Who holds the gate is alone past it, and nobody else is owed a reply.\<close>

lemma no_permit_out:
  assumes "lease_inv s" and "\<not> pending_response_permit (slot_leases s m)"
  shows "\<not> holding (lease_pc (slot_leases s m))" "pending_responses (slot_leases s m) = 0"
  using assms(2) lease_invD(1) [OF assms(1), of m] unfolding lease_ok_def by auto

lemma others_out:
  assumes "lease_inv s" and "pending_response_permit (slot_leases s l) \<or> slot_gate_free s" and "m \<noteq> l"
  shows "\<not> pending_response_permit (slot_leases s m)" "\<not> holding (lease_pc (slot_leases s m))"
    "pending_responses (slot_leases s m) = 0"
proof -
  show no: "\<not> pending_response_permit (slot_leases s m)"
    using assms lease_invD(2) [OF assms(1)] unfolding gate_ok_def by blast
  show "\<not> holding (lease_pc (slot_leases s m))" "pending_responses (slot_leases s m) = 0"
    using no_permit_out [OF assms(1) no] .
qed

lemma owed_holder:
  assumes "lease_inv s" and "pending_response_permit (slot_leases s l)" and "\<not> slot_discard s" and "slot_owed s = Some owed"
  shows "set owed \<subseteq> {l}" "length owed \<le> pending_responses (slot_leases s l) \<or> owed = []"
proof -
  have ok: "\<forall>r \<in> set owed. length owed \<le> pending_responses (slot_leases s r) \<and> set owed = {r}"
    using lease_invD(3) [OF assms(1)] assms(3,4) by (simp add: owed_ok_def)
  have r: "r = l" if "r \<in> set owed" for r
  proof (rule ccontr)
    assume "r \<noteq> l"
    then have "pending_responses (slot_leases s r) = 0" using others_out(3) [OF assms(1)] assms(2) by blast
    then show False using ok that by (metis le_zero_eq length_0_conv list.set_cases list.distinct(1))
  qed
  then show "set owed \<subseteq> {l}" by blast
  show "length owed \<le> pending_responses (slot_leases s l) \<or> owed = []"
    using ok r by (cases owed) auto
qed


text \<open>A step changes one lease. What it has to respect for the others:\<close>

lemma lease_change_inv:
  assumes "lease_inv s" and "slot_leases s' = (slot_leases s)(l := x)" and "lease_ok x"
    and gate: "pending_response_permit x \<Longrightarrow>
      (pending_response_permit (slot_leases s l) \<or> slot_gate_free s) \<and> \<not> slot_gate_free s'"
    and free: "slot_gate_free s' \<Longrightarrow> slot_gate_free s \<or> pending_response_permit (slot_leases s l)"
    and discard: "slot_discard s' \<Longrightarrow> slot_discard s \<or> pending_response_permit (slot_leases s l)"
    and op: "checked_out (lease_pc x) \<Longrightarrow> \<not> slot_discard s'"
    and owed: "\<not> slot_discard s' \<Longrightarrow>
      \<not> slot_discard s \<and> slot_owed s' = slot_owed s \<and> pending_responses x = pending_responses (slot_leases s l) \<or>
      (case slot_owed s' of None \<Rightarrow> True | Some owed \<Rightarrow> owed = [] \<or> set owed = {l} \<and> length owed \<le> pending_responses x)"
    and reads: "\<forall>(reader, owner) \<in> set (slot_reads s'). reader = owner"
  shows "lease_inv s'"
proof (rule lease_invI)
  show "lease_ok (slot_leases s' m)" for m
    using lease_invD(1) [OF assms(1)] assms(2,3) by simp
  have out: "\<not> (pending_response_permit (slot_leases s l) \<or> slot_gate_free s)"
    if "m \<noteq> l" "pending_response_permit (slot_leases s m) \<or> holding (lease_pc (slot_leases s m))" for m
    using others_out(1,2) [OF assms(1) _ that(1)] that(2) by blast
  have one: "m = n" if "pending_response_permit (slot_leases s m)" "pending_response_permit (slot_leases s n)" for m n
    using that lease_invD(2) [OF assms(1)] unfolding gate_ok_def by blast
  show "gate_ok s'"
    unfolding gate_ok_def assms(2)
  proof (intro conjI allI impI)
    fix m n
    assume "pending_response_permit (((slot_leases s)(l := x)) m) \<and> pending_response_permit (((slot_leases s)(l := x)) n)"
    then show "m = n" using gate out [of m] out [of n] one [of m n] by (cases "m = l"; cases "n = l") simp_all
  next
    fix m
    assume "pending_response_permit (((slot_leases s)(l := x)) m)"
    then show "\<not> slot_gate_free s'" using gate free out [of m] by (cases "m = l") auto
  qed
  show "operating_ok s'"
    unfolding operating_ok_def assms(2)
  proof (intro allI impI)
    fix m
    assume m: "checked_out (lease_pc (((slot_leases s)(l := x)) m))"
    show "\<not> slot_discard s'"
    proof (cases "m = l")
      case True
      then show ?thesis using m op by simp
    next
      case False
      then have "\<not> slot_discard s" "\<not> pending_response_permit (slot_leases s l)"
        using m lease_invD(4) [OF assms(1)] out [of m] by (auto simp: operating_ok_def checked_out_holding)
      then show ?thesis using discard by blast
    qed
  qed
  show "owed_ok s'"
  proof (cases "slot_discard s'")
    case False
    then consider "\<not> slot_discard s" "slot_owed s' = slot_owed s" "pending_responses x = pending_responses (slot_leases s l)"
      | "case slot_owed s' of None \<Rightarrow> True | Some owed \<Rightarrow> owed = [] \<or> set owed = {l} \<and> length owed \<le> pending_responses x"
      using owed by blast
    then show ?thesis
      using lease_invD(3) [OF assms(1)] unfolding owed_ok_def assms(2)
      by cases (auto split: option.splits)
  qed (simp add: owed_ok_def)
qed (rule reads)


lemma begin_inv:
  assumes "lease_inv s" and "lease_pc (slot_leases s l) = LeaseIdle"
  shows "lease_inv (admit_operation l change s)"
proof (cases "0 < pending_responses (slot_leases s l)")
  case True
  then have permit: "pending_response_permit (slot_leases s l)" "\<not> slot_gate_free s"
    using lease_invD(1,2) [OF assms(1)] unfolding lease_ok_def gate_ok_def by blast+
  show ?thesis
  proof (cases "change = ChangeNone")
    case True
    show ?thesis
      by (rule lease_change_inv [OF assms(1), where l = l and
          x = "(slot_leases s l)\<lparr>pending_responses := 0, pending_response_permit := False\<rparr>"])
        (use True permit assms(2) \<open>0 < pending_responses (slot_leases s l)\<close> lease_invD(5) [OF assms(1)]
         in \<open>simp_all add: lease_defs lease_ok_def\<close>)
  next
    case False
    show ?thesis
      by (rule lease_change_inv [OF assms(1), where l = l and x = "(slot_leases s l)\<lparr>lease_pc := CheckingOut change\<rparr>"])
        (use False permit \<open>0 < pending_responses (slot_leases s l)\<close> lease_invD(5) [OF assms(1)]
         in \<open>simp_all add: lease_defs lease_ok_def\<close>)
  qed
next
  case False
  have "\<not> slot_gate_free s" if "pending_response_permit (slot_leases s l)"
    using that lease_invD(2) [OF assms(1)] unfolding gate_ok_def by blast
  then show ?thesis
    by (intro lease_change_inv [OF assms(1), where l = l and x = "(slot_leases s l)\<lparr>lease_pc := Admitting change\<rparr>"])
      (use False lease_invD(5) [OF assms(1)] in \<open>simp_all add: lease_defs lease_ok_def\<close>)
qed

lemma gate_granted_inv:
  assumes "lease_inv s" and "lease_pc (slot_leases s l) = Admitting change" and "slot_gate_free s"
  shows "lease_inv (acquire_protocol_permit l change s)"
proof -
  have "\<not> pending_response_permit (slot_leases s l)" "pending_responses (slot_leases s l) = 0"
    using assms(3) lease_invD(1,2) [OF assms(1)] assms(2) unfolding gate_ok_def lease_ok_def by force+
  then show ?thesis
    by (intro lease_change_inv [OF assms(1), where l = l and
          x = "(slot_leases s l)\<lparr>pending_response_permit := True, lease_pc := CheckingOut change\<rparr>"])
      (use assms(3) lease_invD(5) [OF assms(1)] in \<open>simp_all add: lease_defs lease_ok_def\<close>)
qed

text \<open>Past the gate: the lease holds it, so the others are out.\<close>

lemma holding_permit:
  assumes "lease_inv s" and "holding (lease_pc (slot_leases s l))"
  shows "pending_response_permit (slot_leases s l)" "\<not> slot_gate_free s"
  using assms lease_invD(1,2) [OF assms(1)] unfolding lease_ok_def gate_ok_def by blast+

lemma checked_out_kept:
  assumes "lease_inv s" and "checked_out (lease_pc (slot_leases s l))"
  shows "\<not> slot_discard s"
  using assms lease_invD(4) [OF assms(1)] unfolding operating_ok_def by blast

lemma checkout_inv:
  assumes "lease_inv s" and "lease_pc (slot_leases s l) = CheckingOut change" and "owed = [] \<or> slot_owed s = Some owed"
  shows "lease_inv (checkout l change now owed s)"
proof -
  have permit: "pending_response_permit (slot_leases s l)" "\<not> slot_gate_free s"
    using holding_permit [OF assms(1), of l] assms(2) by simp_all
  have whole: "change = ChangeNone \<longrightarrow> pending_responses (slot_leases s l) = 0"
    using lease_invD(1) [OF assms(1), of l] assms(2) by (simp add: lease_ok_def)
  have owed: "owed = [] \<or> set owed = {l} \<and> length owed \<le> pending_responses (slot_leases s l)" if "\<not> slot_discard s"
    using owed_holder [OF assms(1) permit(1) that] assms(3) by (cases owed) auto
  show ?thesis
  proof (cases "slot_discard s \<or> pending_responses (slot_leases s l) = 0 \<and> should_recycle_idle now s")
    case True
    then show ?thesis
      by (intro lease_change_inv [OF assms(1), where l = l and x = "(slot_leases s l)\<lparr>lease_pc := Replacing change\<rparr>"])
        (use permit whole lease_invD(5) [OF assms(1)] in \<open>auto simp: lease_defs lease_ok_def\<close>)
  next
    case False
    then show ?thesis
      by (intro lease_change_inv [OF assms(1), where l = l and x = "(slot_leases s l)\<lparr>lease_pc := Operating change\<rparr>"])
        (use permit whole owed lease_invD(5) [OF assms(1)] in \<open>auto simp: lease_defs lease_ok_def\<close>)
  qed
qed

lemma replaced_inv:
  assumes "lease_inv s" and "lease_pc (slot_leases s l) = Replacing change"
  shows "lease_inv (lease_at l (Operating change) (s\<lparr>slot_owed := Some []\<rparr>))"
  by (rule lease_change_inv [OF assms(1), where l = l and x = "(slot_leases s l)\<lparr>lease_pc := Operating change\<rparr>"])
    (use holding_permit [OF assms(1), of l] checked_out_kept [OF assms(1), of l] assms(2)
       lease_invD(1) [OF assms(1), of l] lease_invD(5) [OF assms(1)] in \<open>auto simp: lease_defs lease_ok_def\<close>)


text \<open>Giving up: the unread replies are forgotten together with the socket, then the gate is released.\<close>

lemma abandon_inv:
  assumes "lease_inv s" and "\<not> checked_out pc" and "\<not> fresh_exchange pc" and "\<not> holding pc"
  shows "lease_inv (lease_at l pc (release_permit l
     (if 0 < pending_responses (slot_leases s l) then discard_connection_with_pending_response l s else s)))"
proof (cases "0 < pending_responses (slot_leases s l)")
  case True
  then have permit: "pending_response_permit (slot_leases s l)"
    using lease_invD(1) [OF assms(1)] unfolding lease_ok_def by blast
  then show ?thesis
    by (intro lease_change_inv [OF assms(1), where l = l and
          x = "(slot_leases s l)\<lparr>pending_responses := 0, pending_response_permit := False, lease_pc := pc\<rparr>"])
      (use True assms lease_invD(5) [OF assms(1)] in \<open>simp_all add: lease_defs lease_ok_def\<close>)
next
  case False
  then show ?thesis
    by (intro lease_change_inv [OF assms(1), where l = l and
          x = "(slot_leases s l)\<lparr>pending_response_permit := False, lease_pc := pc\<rparr>"])
      (use False assms lease_invD(5) [OF assms(1)] in \<open>simp_all add: lease_defs lease_ok_def\<close>)
qed

lemma checkout_failed_inv: "lease_inv s \<Longrightarrow> lease_inv (checkout_failed l s)"
  unfolding checkout_failed_def by (intro abandon_inv) simp_all

lemma lease_drop_inv: "lease_inv s \<Longrightarrow> lease_inv (lease_drop l s)"
  unfolding lease_drop_def by (intro abandon_inv) simp_all

text \<open>During an exchange every reply on the wire is the lease's own, so it reads no other.\<close>

lemma exchange_wire:
  assumes "lease_inv s" and "lease_pc (slot_leases s l) = Operating change"
  shows "\<forall>(reader, owner) \<in> set (slot_reads (wire_exchange l ex s)). reader = owner"
    and "slot_owed (wire_exchange l ex s) = Some w \<Longrightarrow> \<exists>owed. slot_owed s = Some owed \<and>
      w = drop (ex_read ex) (owed @ replicate (ex_sent ex) l) \<and> set w \<subseteq> {l} \<and>
      (owed = [] \<or> length owed \<le> pending_responses (slot_leases s l))"
proof -
  have permit: "pending_response_permit (slot_leases s l)" and open_slot: "\<not> slot_discard s"
    using holding_permit [OF assms(1), of l] checked_out_kept [OF assms(1), of l] assms(2) by simp_all
  have wire: "set (owed @ replicate (ex_sent ex) l) \<subseteq> {l}" if "slot_owed s = Some owed" for owed
    using owed_holder(1) [OF assms(1) permit open_slot that] by (auto simp: set_replicate_conv_if)
  show "\<forall>(reader, owner) \<in> set (slot_reads (wire_exchange l ex s)). reader = owner"
    using lease_invD(5) [OF assms(1)] wire by (fastforce simp: wire_exchange_def Let_def split: option.splits dest: in_set_takeD)
  show "\<exists>owed. slot_owed s = Some owed \<and> w = drop (ex_read ex) (owed @ replicate (ex_sent ex) l) \<and> set w \<subseteq> {l} \<and>
      (owed = [] \<or> length owed \<le> pending_responses (slot_leases s l))"
    if "slot_owed (wire_exchange l ex s) = Some w"
  proof (cases "slot_owed s")
    case (Some owed)
    then have w: "w = drop (ex_read ex) (owed @ replicate (ex_sent ex) l)" using that by (simp add: wire_exchange_def Let_def)
    then have "set w \<subseteq> {l}" using wire [OF Some] set_drop_subset by fast
    then show ?thesis using Some w owed_holder(2) [OF assms(1) permit open_slot Some] by blast
  qed (use that in \<open>simp add: wire_exchange_def\<close>)
qed

lemma wire_exchange_fields [simp]:
  "slot_leases (wire_exchange l ex s) = slot_leases s" "slot_gate_free (wire_exchange l ex s) = slot_gate_free s"
  "slot_discard (wire_exchange l ex s) = slot_discard s" "slot_last_returned_at (wire_exchange l ex s) = slot_last_returned_at s"
  by (simp_all add: wire_exchange_def Let_def split: option.split)

lemma cancel_inv:
  assumes "lease_inv s" and "lease_pc (slot_leases s l) \<notin> {LeaseIdle, LeaseDropped}"
  shows "lease_inv (cancel_dispatch l now ex s)"
proof (cases "\<exists>change. lease_pc (slot_leases s l) = Operating change")
  case True
  then obtain change where pc: "lease_pc (slot_leases s l) = Operating change" by blast
  have permit: "pending_response_permit (slot_leases s l)" "\<not> slot_gate_free s"
    using holding_permit [OF assms(1), of l] pc by simp_all
  show ?thesis
    by (rule lease_change_inv [OF assms(1), where l = l and
          x = "(slot_leases s l)\<lparr>pending_responses := 0, lease_pc := LeaseIdle\<rparr>"])
      (use pc permit exchange_wire(1) [OF assms(1) pc, of ex] in
       \<open>simp_all add: cancel_dispatch_def slot_connection_drop_def upd_lease_def lease_at_def lease_ok_def Let_def\<close>)
next
  case False
  then have eq: "cancel_dispatch l now ex s = lease_at l LeaseIdle s"
    by (auto simp: cancel_dispatch_def split: dispatch_pc.split)
  have "\<not> slot_gate_free s" if "pending_response_permit (slot_leases s l)"
    using that lease_invD(2) [OF assms(1)] unfolding gate_ok_def by blast
  then show ?thesis
    unfolding eq
    by (intro lease_change_inv [OF assms(1), where l = l and x = "(slot_leases s l)\<lparr>lease_pc := LeaseIdle\<rparr>"])
      (use lease_invD(1) [OF assms(1), of l] lease_invD(5) [OF assms(1)] in \<open>auto simp: lease_at_def upd_lease_def lease_ok_def\<close>)
qed


text \<open>What the end of an exchange leaves: the lease keeps the gate exactly while it is owed a reply.\<close>

fun pending_after :: "pending_response_change \<Rightarrow> client_error + unit \<Rightarrow> usize \<Rightarrow> usize" where
  "pending_after change (Inl e) p = (if should_recycle_connection e then 0 else p)"
| "pending_after ChangeAdd (Inr u) p = p + 1"
| "pending_after ChangeRemove (Inr u) p = p - 1"
| "pending_after ChangeNone (Inr u) p = p"

fun breaks :: "client_error + unit \<Rightarrow> bool" where
  "breaks (Inl e) \<longleftrightarrow> should_recycle_connection e"
| "breaks (Inr u) \<longleftrightarrow> False"

lemma finish_operation_eq:
  fixes s :: pool_slot and r :: "client_error + unit" and l :: lease and change :: pending_response_change
  defines "p \<equiv> pending_after change r (pending_responses (slot_leases s l))"
  shows "finish_operation l r change s = (upd_lease l (\<lambda>x. x\<lparr>pending_responses := p\<rparr>) s, breaks r, 0 < p)"
proof (cases r)
  case (Inl e)
  have "upd_lease l (\<lambda>x. x\<lparr>pending_responses := pending_responses (slot_leases s l)\<rparr>) s = s"
    by (simp add: upd_lease_def)
  then show ?thesis by (simp add: p_def Inl finish_operation_def)
next
  case (Inr u)
  have "record_response_change change x = x\<lparr>pending_responses := pending_after change r (pending_responses x)\<rparr>" for x
    by (cases change) (simp_all add: Inr saturating_sub_usize_def)
  then show ?thesis by (simp add: p_def Inr finish_operation_def upd_lease_def Let_def)
qed

lemma finish_shape:
  fixes s :: pool_slot and l :: lease and change :: pending_response_change and ex :: exchange_outcome and now :: instant
  assumes "pending_response_permit (slot_leases s l)"
  defines "p \<equiv> pending_after change (ex_result ex) (pending_responses (slot_leases s l))"
    and "t \<equiv> finish_dispatch l change now ex s"
  shows "slot_leases t = (slot_leases s)(l := (slot_leases s l)
      \<lparr>pending_responses := p, pending_response_permit := (0 < p), lease_pc := LeaseIdle\<rparr>)"
    and "slot_gate_free t = (if 0 < p then slot_gate_free s else True)" and "slot_discard t = slot_discard s"
    and "slot_reads t = slot_reads (wire_exchange l ex s)"
    and "slot_owed t = (if breaks (ex_result ex) then None else slot_owed (wire_exchange l ex s))"
proof -
  have same: "x\<lparr>pending_responses := p, lease_pc := pc\<rparr> =
      x\<lparr>pending_responses := p, pending_response_permit := True, lease_pc := pc\<rparr>" if "pending_response_permit x" for x pc
    using that by simp
  note defs = t_def finish_dispatch_def finish_operation_eq wire_exchange_fields p_def [symmetric]
  note ends = finish_protocol_permit_def slot_connection_drop_def release_permit_def lease_at_def upd_lease_def
  show "slot_leases t = (slot_leases s)(l := (slot_leases s l)
      \<lparr>pending_responses := p, pending_response_permit := (0 < p), lease_pc := LeaseIdle\<rparr>)"
    unfolding defs using same [OF assms(1)] by (simp add: ends)
  show "slot_gate_free t = (if 0 < p then slot_gate_free s else True)" "slot_discard t = slot_discard s"
    "slot_reads t = slot_reads (wire_exchange l ex s)"
    "slot_owed t = (if breaks (ex_result ex) then None else slot_owed (wire_exchange l ex s))"
    unfolding defs using assms(1) by (simp_all add: ends)
qed

lemma finish_owed:
  assumes "lease_inv s" and "lease_pc (slot_leases s l) = Operating change" and "exchange_contract change ex"
    and "slot_owed (finish_dispatch l change now ex s) = Some w"
  shows "w = [] \<or> set w = {l} \<and> length w \<le> pending_after change (ex_result ex) (pending_responses (slot_leases s l))"
proof -
  let ?p = "pending_responses (slot_leases s l)"
  have permit: "pending_response_permit (slot_leases s l)" using holding_permit [OF assms(1), of l] assms(2) by simp
  have "slot_owed (wire_exchange l ex s) = Some w" and kept: "\<not> breaks (ex_result ex)"
    using assms(4) unfolding finish_shape(5) [OF permit] by (auto split: if_splits)
  from exchange_wire(2) [OF assms(1,2) this(1)] obtain owed where
    w: "w = drop (ex_read ex) (owed @ replicate (ex_sent ex) l)" "set w \<subseteq> {l}" "owed = [] \<or> length owed \<le> ?p" by blast
  have whole: "change = ChangeNone \<longrightarrow> ?p = 0"
    using lease_invD(1) [OF assms(1), of l] assms(2) by (simp add: lease_ok_def)
  have "length w \<le> pending_after change (ex_result ex) ?p"
    using assms(3) kept w(1,3) whole unfolding exchange_contract_def
    by (cases "ex_result ex"; cases change) auto
  then show ?thesis using w(2) by (cases w) auto
qed

lemma finish_inv:
  assumes "lease_inv s" and "lease_pc (slot_leases s l) = Operating change" and "exchange_contract change ex"
  shows "lease_inv (finish_dispatch l change now ex s)"
proof -
  have permit: "pending_response_permit (slot_leases s l)" "\<not> slot_gate_free s"
    using holding_permit [OF assms(1), of l] assms(2) by simp_all
  note shape = finish_shape [OF permit(1), where change = change and ex = ex and now = now]
  have owed: "case slot_owed (finish_dispatch l change now ex s) of None \<Rightarrow> True
      | Some w \<Rightarrow> w = [] \<or> set w = {l} \<and> length w \<le> pending_after change (ex_result ex) (pending_responses (slot_leases s l))"
    using finish_owed [OF assms] by (simp split: option.split)
  show ?thesis
    by (rule lease_change_inv [OF assms(1) shape(1)])
      (use permit exchange_wire(1) [OF assms(1,2), of ex] owed in \<open>auto simp: shape(2-4) lease_ok_def split: option.splits if_splits\<close>)
qed

interpretation leases: transition_system lease_start lease_step lease_inv
proof unfold_locales
  show "lease_start s \<Longrightarrow> lease_inv s" for s
    by (auto simp: lease_start_def slot_new_def lease_inv_def lease_ok_def lease_new_def gate_ok_def owed_ok_def operating_ok_def)
  show "lease_inv s \<Longrightarrow> lease_step s e t \<Longrightarrow> lease_inv t" for s e t
    by (cases e) (auto simp: lease_step_def split: dispatch_pc.splits if_splits
        intro: begin_inv gate_granted_inv checkout_inv checkout_failed_inv replaced_inv finish_inv cancel_inv lease_drop_inv)
qed


section \<open>Whose reply is read\<close>

fun lease_moves :: "lease_event list \<Rightarrow> pool_slot \<Rightarrow> pool_slot option" where
  "lease_moves [] s = Some s"
| "lease_moves (e # es) s = (case lease_move e s of None \<Rightarrow> None | Some s' \<Rightarrow> lease_moves es s')"

lemma lease_moves_reachable:
  assumes "reachable init lease_step s" and "lease_moves es s = Some s'"
  shows "reachable init lease_step s'"
  using assms
proof (induction es s rule: lease_moves.induct)
  case (2 e es s)
  then obtain t where t: "lease_move e s = Some t" "lease_moves es t = Some s'"
    by (auto split: option.splits)
  then have "reachable init lease_step t" by (intro reachable.move [OF 2(2)]) (simp add: lease_step_def)
  then show ?case using 2(1) t by blast
qed simp

text \<open>
  C6: No lease reads a reply to another lease's request. This holds for every interleaving of the
  operations of the leases that share a socket, with operations that fail or are cancelled at any
  point, connections that are recycled, replaced or refused, and leases dropped with unread replies. A
  lease that checks the socket out for an exchange of its own finds no reply of anybody else
  on the wire, and at most one lease is past the gate.
\<close>

theorem lease_reads_own_replies:
  assumes "reachable lease_start lease_step s"
  shows "(\<forall>(reader, owner) \<in> set (slot_reads s). reader = owner) \<and>
    (\<forall>l change owed. lease_pc (slot_leases s l) = Operating change \<and> slot_owed s = Some owed \<longrightarrow>
       set owed \<subseteq> {l} \<and> (change = ChangeNone \<longrightarrow> owed = [])) \<and>
    (holding (lease_pc (slot_leases s l)) \<and> holding (lease_pc (slot_leases s m)) \<longrightarrow> l = m)"
proof -
  have inv: "lease_inv s" using assms by (rule leases.inv_reachable)
  have "set owed \<subseteq> {l} \<and> (change = ChangeNone \<longrightarrow> owed = [])"
    if pc: "lease_pc (slot_leases s l) = Operating change" and owed: "slot_owed s = Some owed" for l change owed
  proof -
    have "pending_response_permit (slot_leases s l)" "\<not> slot_discard s"
      using holding_permit [OF inv, of l] checked_out_kept [OF inv, of l] pc by simp_all
    note owed_holder [OF inv this owed]
    moreover have "change = ChangeNone \<longrightarrow> pending_responses (slot_leases s l) = 0"
      using lease_invD(1) [OF inv, of l] pc by (simp add: lease_ok_def)
    ultimately show ?thesis by auto
  qed
  moreover have "l = m" if "holding (lease_pc (slot_leases s l))" "holding (lease_pc (slot_leases s m))"
    using holding_permit(1) [OF inv] others_out(2) [OF inv] that by metis
  ultimately show ?thesis using lease_invD(5) [OF inv] by blast
qed

text \<open>Two leases: the first sends and is dropped with its reply unread, the second then calls.\<close>

definition sent :: exchange_outcome where
  "sent = \<lparr>ex_sent = 1, ex_read = 0, ex_result = Inr ()\<rparr>"

definition called :: exchange_outcome where
  "called = \<lparr>ex_sent = 1, ex_read = 1, ex_result = Inr ()\<rparr>"

definition abandoned_reply :: "lease_event list" where
  "abandoned_reply =
     [Begin 0 ChangeAdd, GateGranted 0, Checkout 0 0 [], Finish 0 0 sent, Begin 1 ChangeNone, DropLease 0,
      GateGranted 1, Checkout 1 0 [0], Replace 1, Finish 1 0 called]"

theorem lease_reads_own_replies_witness:
  "\<exists>s. lease_moves abandoned_reply (slot_new 5) = Some s \<and> slot_reads s = [(1, 1)] \<and>
     (\<forall>(reader, owner) \<in> set (slot_reads s). reader = owner)"
proof -
  have "map_option slot_reads (lease_moves abandoned_reply (slot_new 5)) = Some [(1, 1)]" by code_simp
  then obtain s where s: "lease_moves abandoned_reply (slot_new 5) = Some s" "slot_reads s = [(1, 1)]" by auto
  have "reachable lease_start lease_step s"
    by (rule lease_moves_reachable [OF reachable.start s(1)]) (auto simp: lease_start_def)
  from lease_reads_own_replies [OF this, of 0 0, THEN conjunct1] s show ?thesis by (intro exI [of _ s] conjI)
qed


section \<open>A cancelled exchange\<close>

text \<open>The lease holds the gate although it is owed nothing and is not past it.\<close>

definition stranded :: "lease \<Rightarrow> (lease \<times> lease) list \<Rightarrow> pool_slot \<Rightarrow> bool" where
  "stranded l rs s \<longleftrightarrow> lease_inv s \<and> pending_response_permit (slot_leases s l) \<and> pending_responses (slot_leases s l) = 0 \<and>
     \<not> holding (lease_pc (slot_leases s l)) \<and> slot_reads s = rs"

lemma stranded_out:
  assumes "stranded l rs s"
  shows "\<not> slot_gate_free s" "\<not> holding (lease_pc (slot_leases s m))" "pending_responses (slot_leases s m) = 0"
    "m \<noteq> l \<Longrightarrow> \<not> pending_response_permit (slot_leases s m)"
proof -
  have inv: "lease_inv s" and permit: "pending_response_permit (slot_leases s l)" using assms by (simp_all add: stranded_def)
  show "\<not> slot_gate_free s" using lease_invD(2) [OF inv] permit unfolding gate_ok_def by blast
  show "\<not> holding (lease_pc (slot_leases s m))" "pending_responses (slot_leases s m) = 0"
    "m \<noteq> l \<Longrightarrow> \<not> pending_response_permit (slot_leases s m)"
    using others_out [OF inv, of l m] permit assms by (cases "m = l"; simp add: stranded_def)+
qed

lemma stranded_event:
  assumes "stranded l rs s" and "e \<noteq> DropLease l" and "lease_move e s = Some s'"
  shows "stranded l rs s'"
proof -
  note out = stranded_out [OF assms(1)]
  have inv: "lease_inv s'" using leases.inv_step [of s e s'] assms(1,3) by (simp add: stranded_def lease_step_def)
  have pcs: "lease_pc (slot_leases s m) \<noteq> CheckingOut c" "lease_pc (slot_leases s m) \<noteq> Replacing c"
    "lease_pc (slot_leases s m) \<noteq> Operating c" for m c
    using out(2) [of m] by auto
  consider m c where "e = Begin m c" "s' = lease_at m (Admitting c) s"
    | m where "s' = lease_at m LeaseIdle s"
    | m where "m \<noteq> l" "s' = lease_at m LeaseDropped (release_permit m s)"
    using assms(2,3) out pcs
    by (cases e) (auto simp: admit_operation_def cancel_dispatch_def lease_drop_def Let_def split: if_splits dispatch_pc.splits)
  then show ?thesis
    using assms(1) inv by cases (auto simp: stranded_def lease_at_def upd_lease_def release_permit_def)
qed

interpretation strands: transition_system
  "\<lambda>s. s = t \<and> stranded l rs s" "\<lambda>s e s'. e \<noteq> DropLease l \<and> lease_step s e s'" "stranded l rs" for t l rs
  by unfold_locales (auto simp: lease_step_def intro: stranded_event)

text \<open>Without cancellation an idle lease keeps the gate only for a reply it is owed.\<close>

definition gate_needed :: "pool_slot \<Rightarrow> bool" where
  "gate_needed s \<longleftrightarrow> lease_inv s \<and>
     (\<forall>l. pending_response_permit (slot_leases s l) \<longrightarrow>
        holding (lease_pc (slot_leases s l)) \<or> 0 < pending_responses (slot_leases s l))"

fun is_cancel :: "lease_event \<Rightarrow> bool" where
  "is_cancel (CancelOperation l now ex) \<longleftrightarrow> True"
| "is_cancel e \<longleftrightarrow> False"

lemma gate_needed_event:
  assumes "gate_needed s" and "\<not> is_cancel e" and "lease_move e s = Some s'"
  shows "gate_needed s'"
proof -
  have inv: "lease_inv s" "lease_inv s'"
    using leases.inv_step [of s e s'] assms(1,3) by (simp_all add: gate_needed_def lease_step_def)
  obtain l x where x: "slot_leases s' = (slot_leases s)(l := x)"
    "pending_response_permit x \<longrightarrow> holding (lease_pc x) \<or> 0 < pending_responses x"
  proof (cases "\<exists>l now ex. e = Finish l now ex")
    case True
    then obtain l now ex change where e: "e = Finish l now ex" "lease_pc (slot_leases s l) = Operating change"
      "s' = finish_dispatch l change now ex s" using assms(3) by (auto split: dispatch_pc.splits if_splits)
    then have "pending_response_permit (slot_leases s l)" using holding_permit [OF inv(1), of l] by simp
    from that [OF finish_shape(1) [OF this, where change = change and ex = ex and now = now, folded e(3)]]
    show ?thesis by simp
  next
    case False
    have needed: "pending_response_permit (slot_leases s l) \<longrightarrow> 0 < pending_responses (slot_leases s l)"
      if "lease_pc (slot_leases s l) = LeaseIdle" for l
      using assms(1) that unfolding gate_needed_def by (metis holding.simps(4))
    show ?thesis
    proof (cases "\<exists>l c. e = Begin l c")
      case True
      then obtain l c where e: "e = Begin l c" "lease_pc (slot_leases s l) = LeaseIdle" "s' = admit_operation l c s"
        using assms(3) by (auto split: if_splits)
      then show ?thesis using needed [OF e(2)] by (intro that [of l "slot_leases s' l"]) (auto simp: lease_defs)
    next
      case no_begin: False
      then show ?thesis
        using assms False that by (cases e) (auto simp: lease_defs split: dispatch_pc.splits if_splits)
    qed
  qed
  then show ?thesis using assms(1) inv(2) by (auto simp: gate_needed_def)
qed

interpretation uncancelled: transition_system
  lease_start "\<lambda>s e s'. \<not> is_cancel e \<and> lease_step s e s'" gate_needed
proof unfold_locales
  show "lease_start s \<Longrightarrow> gate_needed s" for s
    using leases.inv_init [of s] by (auto simp: gate_needed_def lease_start_def slot_new_def lease_new_def)
  show "gate_needed s \<Longrightarrow> \<not> is_cancel e \<and> lease_step s e t \<Longrightarrow> gate_needed t" for s e t
    using gate_needed_event [of s e t] by (simp add: lease_step_def)
qed

text \<open>
  C40: A lease does not survive the cancellation of its exchange. When the future of an exchange is dropped
  the socket is discarded and nothing is pending any more, but the lease keeps the permit of the gate and its
  next operation waits for that same permit. So until the lease is dropped, whatever it and the other leases
  of the slot do, none of them checks the socket out again and no reply is read. Without
  cancellation an idle lease holds the gate only while a reply is pending, and dropping the
  lease frees the gate.
\<close>

theorem cancelled_exchange_blocks_slot:
  fixes s :: pool_slot and l :: lease and now :: instant and ex :: exchange_outcome
  assumes "reachable lease_start lease_step s" and "lease_pc (slot_leases s l) = Operating change"
  defines "t \<equiv> cancel_dispatch l now ex s"
  shows "(\<forall>u m. reachable (\<lambda>x. x = t) (\<lambda>s e s'. e \<noteq> DropLease l \<and> lease_step s e s') u \<longrightarrow>
       \<not> holding (lease_pc (slot_leases u m)) \<and> slot_reads u = slot_reads t) \<and>
    slot_gate_free (lease_drop l t) \<and>
    (\<forall>u m. reachable lease_start (\<lambda>s e s'. \<not> is_cancel e \<and> lease_step s e s') u \<and>
       lease_pc (slot_leases u m) = LeaseIdle \<and> pending_response_permit (slot_leases u m) \<longrightarrow>
       0 < pending_responses (slot_leases u m))"
proof -
  have inv: "lease_inv s" using assms(1) by (rule leases.inv_reachable)
  have permit: "pending_response_permit (slot_leases s l)" using holding_permit [OF inv, of l] assms(2) by simp
  have t: "pending_response_permit (slot_leases t l)" "pending_responses (slot_leases t l) = 0"
    "lease_pc (slot_leases t l) = LeaseIdle"
    using permit assms(2) by (simp_all add: t_def cancel_dispatch_def slot_connection_drop_def lease_at_def upd_lease_def Let_def)
  then have start: "stranded l (slot_reads t) t"
    using cancel_inv [OF inv, of l now ex] assms(2) by (simp add: stranded_def t_def)
  have stays: "stranded l (slot_reads t) u"
    if "reachable (\<lambda>x. x = t) (\<lambda>s e s'. e \<noteq> DropLease l \<and> lease_step s e s') u" for u
  proof -
    have "(\<lambda>x. x = t) = (\<lambda>x. x = t \<and> stranded l (slot_reads t) x)" using start by auto
    then show ?thesis using strands.inv_reachable [of t l "slot_reads t" u] that by simp
  qed
  have "\<not> holding (lease_pc (slot_leases u m)) \<and> slot_reads u = slot_reads t"
    if "reachable (\<lambda>x. x = t) (\<lambda>s e s'. e \<noteq> DropLease l \<and> lease_step s e s') u" for u m
    using stranded_out(2) [OF stays [OF that]] stays [OF that] by (simp add: stranded_def)
  moreover have "slot_gate_free (lease_drop l t)"
    using t by (simp add: lease_drop_def release_permit_def lease_at_def upd_lease_def)
  moreover have "0 < pending_responses (slot_leases u m)"
    if "reachable lease_start (\<lambda>s e s'. \<not> is_cancel e \<and> lease_step s e s') u"
      "lease_pc (slot_leases u m) = LeaseIdle" "pending_response_permit (slot_leases u m)" for u m
    using uncancelled.inv_reachable [OF that(1)] that(2,3) unfolding gate_needed_def by (metis holding.simps(4))
  ultimately show ?thesis by blast
qed

theorem cancelled_exchange_blocks_slot_witness:
  "\<exists>s. lease_moves [Begin 0 ChangeNone, GateGranted 0, Checkout 0 0 []] (slot_new 5) = Some s \<and>
     lease_pc (slot_leases s 0) = Operating ChangeNone \<and>
     (\<forall>u m. reachable (\<lambda>x. x = cancel_dispatch 0 0 sent s) (\<lambda>s e s'. e \<noteq> DropLease 0 \<and> lease_step s e s') u \<longrightarrow>
       \<not> holding (lease_pc (slot_leases u m)))"
proof -
  obtain s where s: "lease_moves [Begin 0 ChangeNone, GateGranted 0, Checkout 0 0 []] (slot_new 5) = Some s"
    "lease_pc (slot_leases s 0) = Operating ChangeNone"
    by (simp add: slot_new_def lease_new_def lease_defs should_recycle_idle_def)
  have "reachable lease_start lease_step s"
    by (rule lease_moves_reachable [OF reachable.start s(1)]) (auto simp: lease_start_def)
  from cancelled_exchange_blocks_slot [OF this s(2), of 0 sent, THEN conjunct1] s show ?thesis
    by (intro exI [of _ s] conjI) simp_all
qed

end
