(* ===== verification/Pool_Waiters.thy ===== *)
theory Pool_Waiters
  imports Prelude
begin

text \<open>
  The waiter queues of the client pool's scheduler: \<open>src/client/pool/scheduler/state.rs\<close> and
  \<open>src/client/pool/policy.rs\<close>. A waiter is the sending half of a one-shot channel (tokio), an opaque
  value of which the code asks only whether its receiver is gone: the argument \<open>closed\<close>.
  The properties are about the order in which waiters are taken while requests arrive, are
  abandoned and sessions leave.
\<close>

section \<open>State\<close>

type_synonym handle_id = u64

datatype pool_fairness_policy = RoundRobin | Fifo

record waiter_admission =
  fairness_policy :: pool_fairness_policy
  max_waiters :: usize

record 'w scheduler_state =
  fifo_queue :: "(handle_id \<times> 'w) list"
  round_robin_order :: "handle_id list"
  handle_waiters :: "(handle_id, 'w list) hm"

datatype 'w waiter_enqueue_result = Enqueued | Saturated 'w

definition scheduler_state_new :: "'w scheduler_state" where
  "scheduler_state_new = \<lparr>fifo_queue = [], round_robin_order = [], handle_waiters = []\<rparr>"

section \<open>Operations\<close>

definition register_handle :: "handle_id \<Rightarrow> 'w scheduler_state \<Rightarrow> 'w scheduler_state" where
  "register_handle h st =
     (if hm_lookup (handle_waiters st) h = None
      then st\<lparr>handle_waiters := hm_insert h [] (handle_waiters st), round_robin_order := round_robin_order st @ [h]\<rparr>
      else st)"

definition deregister_handle :: "handle_id \<Rightarrow> 'w scheduler_state \<Rightarrow> 'w scheduler_state" where
  "deregister_handle h st =
     st\<lparr>handle_waiters := hm_remove h (handle_waiters st),
        round_robin_order := filter (\<lambda>q. q \<noteq> h) (round_robin_order st),
        fifo_queue := filter (\<lambda>(q, _). q \<noteq> h) (fifo_queue st)\<rparr>"

definition prune_cancelled_waiters :: "('w \<Rightarrow> bool) \<Rightarrow> 'w scheduler_state \<Rightarrow> 'w scheduler_state" where
  "prune_cancelled_waiters closed st =
     st\<lparr>fifo_queue := filter (\<lambda>(_, w). \<not> closed w) (fifo_queue st),
        handle_waiters := map (\<lambda>(h, q). (h, filter (\<lambda>w. \<not> closed w) q)) (handle_waiters st)\<rparr>"

definition waiter_count :: "'w scheduler_state \<Rightarrow> usize" where
  "waiter_count st = length (fifo_queue st) + sum_list (map (length \<circ> snd) (handle_waiters st))"

definition has_queued_waiter :: "handle_id \<Rightarrow> 'w scheduler_state \<Rightarrow> bool" where
  "has_queued_waiter h st \<longleftrightarrow>
     (case hm_lookup (handle_waiters st) h of None \<Rightarrow> False | Some q \<Rightarrow> q \<noteq> []) \<or>
     list_ex (\<lambda>(q, _). q = h) (fifo_queue st)"

definition has_live_waiters :: "('w \<Rightarrow> bool) \<Rightarrow> 'w scheduler_state \<Rightarrow> bool" where
  "has_live_waiters closed st \<longleftrightarrow>
     list_ex (\<lambda>(_, w). \<not> closed w) (fifo_queue st) \<or>
     list_ex (\<lambda>(_, q). list_ex (\<lambda>w. \<not> closed w) q) (handle_waiters st)"

definition enqueue_waiter ::
    "('w \<Rightarrow> bool) \<Rightarrow> handle_id \<Rightarrow> 'w \<Rightarrow> waiter_admission \<Rightarrow> 'w scheduler_state \<Rightarrow>
     'w scheduler_state \<times> 'w waiter_enqueue_result" where
  "enqueue_waiter closed h w admission st =
     (let st1 = register_handle h (prune_cancelled_waiters closed st)
      in if max_waiters admission \<le> waiter_count st1 then (st1, Saturated w)
         else case fairness_policy admission of
           Fifo \<Rightarrow> (st1\<lparr>fifo_queue := fifo_queue st1 @ [(h, w)]\<rparr>, Enqueued)
         | RoundRobin \<Rightarrow>
             (case hm_lookup (handle_waiters st1) h of
                Some q \<Rightarrow> (st1\<lparr>handle_waiters := hm_insert h (q @ [w]) (handle_waiters st1)\<rparr>, Enqueued)
              | None \<Rightarrow> (st1, Saturated w)))"

fun pop_live_waiter :: "('w \<Rightarrow> bool) \<Rightarrow> 'w list \<Rightarrow> 'w list \<times> 'w option" where
  "pop_live_waiter closed [] = ([], None)"
| "pop_live_waiter closed (w # q) = (if closed w then pop_live_waiter closed q else (q, Some w))"

text \<open>The loop of \<open>take_next_fifo_waiter\<close> over the queue.\<close>

fun pop_fifo :: "('w \<Rightarrow> bool) \<Rightarrow> (handle_id, 'w list) hm \<Rightarrow> (handle_id \<times> 'w) list \<Rightarrow> (handle_id \<times> 'w) list \<times> 'w option" where
  "pop_fifo closed handles [] = ([], None)"
| "pop_fifo closed handles ((h, w) # q) =
     (if closed w \<or> hm_lookup handles h = None then pop_fifo closed handles q else (q, Some w))"

definition take_next_fifo_waiter :: "('w \<Rightarrow> bool) \<Rightarrow> 'w scheduler_state \<Rightarrow> 'w scheduler_state \<times> 'w option" where
  "take_next_fifo_waiter closed st =
     (let (q, taken) = pop_fifo closed (handle_waiters st) (fifo_queue st) in (st\<lparr>fifo_queue := q\<rparr>, taken))"

text \<open>The body of the loop of \<open>take_next_round_robin_waiter\<close> runs at most once per known handle.\<close>

fun rotate_handles :: "nat \<Rightarrow> ('w \<Rightarrow> bool) \<Rightarrow> 'w scheduler_state \<Rightarrow> 'w scheduler_state \<times> 'w option" where
  "rotate_handles 0 closed st = (st, None)"
| "rotate_handles (Suc n) closed st =
     (case round_robin_order st of
        [] \<Rightarrow> (st, None)
      | h # hs \<Rightarrow>
          (let st1 = st\<lparr>round_robin_order := hs @ [h]\<rparr>
           in case hm_lookup (handle_waiters st1) h of
                None \<Rightarrow> rotate_handles n closed st1
              | Some q \<Rightarrow>
                  (let (q', taken) = pop_live_waiter closed q;
                       st2 = st1\<lparr>handle_waiters := hm_insert h q' (handle_waiters st1)\<rparr>
                   in case taken of
                        Some w \<Rightarrow> (st2, Some w)
                      | None \<Rightarrow> rotate_handles n closed st2)))"

definition take_next_round_robin_waiter :: "('w \<Rightarrow> bool) \<Rightarrow> 'w scheduler_state \<Rightarrow> 'w scheduler_state \<times> 'w option" where
  "take_next_round_robin_waiter closed st = rotate_handles (length (round_robin_order st)) closed st"

definition take_next_waiter ::
    "('w \<Rightarrow> bool) \<Rightarrow> pool_fairness_policy \<Rightarrow> 'w scheduler_state \<Rightarrow> 'w scheduler_state \<times> 'w option" where
  "take_next_waiter closed policy st =
     (case policy of
        RoundRobin \<Rightarrow> take_next_round_robin_waiter closed st
      | Fifo \<Rightarrow> take_next_fifo_waiter closed st)"

text \<open>\<open>while let Some(waiter) = take_next_waiter(..)\<close>: the waiters it serves, in order.\<close>

fun drain_waiters :: "nat \<Rightarrow> ('q \<Rightarrow> 'q \<times> 'w option) \<Rightarrow> 'q \<Rightarrow> 'q \<times> 'w list" where
  "drain_waiters 0 next q = (q, [])"
| "drain_waiters (Suc n) next q =
     (case next q of
        (q', None) \<Rightarrow> (q', [])
      | (q', Some w) \<Rightarrow> (let (q'', ws) = drain_waiters n next q' in (q'', w # ws)))"


section \<open>The interface of a waiter queue\<close>

text \<open>
  What the scheduler relies on, whatever the policy: taking returns an open waiter and loses none but
  abandoned ones; it returns nothing only if every waiter has been abandoned, and then none is left.
\<close>

lemma filter_mset_eq_empty_iff: "filter_mset P M = {#} \<longleftrightarrow> (\<forall>x \<in># M. \<not> P x)"
  by (simp only: set_mset_eq_empty_iff [symmetric]) auto

locale waiter_queue =
  fixes take_waiter :: "('w \<Rightarrow> bool) \<Rightarrow> 'q \<Rightarrow> 'q \<times> 'w option"
    and waiting :: "'q \<Rightarrow> 'w multiset"
    and inv :: "'q \<Rightarrow> bool"
  assumes take_Some: "inv q \<Longrightarrow> take_waiter closed q = (q', Some w) \<Longrightarrow>
      inv q' \<and> \<not> closed w \<and> (\<exists>lost. waiting q = add_mset w (waiting q' + lost) \<and> (\<forall>d \<in># lost. closed d))"
    and take_None: "inv q \<Longrightarrow> take_waiter closed q = (q', None) \<Longrightarrow>
      inv q' \<and> waiting q' = {#} \<and> (\<forall>d \<in># waiting q. closed d)"
begin

lemma take_smaller:
  assumes "inv q" and "take_waiter closed q = (q', Some w)"
  shows "size (waiting q') < size (waiting q)"
  using take_Some [OF assms] by auto

lemma take_inv: "inv q \<Longrightarrow> take_waiter closed q = (q', r) \<Longrightarrow> inv q'"
  using take_Some take_None by (cases r) blast+

text \<open>Taking until nothing is left serves exactly the open waiters.\<close>

lemma take_loop:
  assumes "inv q" and "size (waiting q) < n" and "drain_waiters n (take_waiter closed) q = (q', served)"
  shows "inv q' \<and> waiting q' = {#} \<and> mset served = filter_mset (\<lambda>w. \<not> closed w) (waiting q)"
  using assms
proof (induction n arbitrary: q served)
  case (Suc n)
  show ?case
  proof (cases "take_waiter closed q")
    case (Pair q1 r)
    show ?thesis
    proof (cases r)
      case None
      then have "drain_waiters (Suc n) (take_waiter closed) q = (q1, [])" using Pair by simp
      moreover note take_None [OF Suc.prems(1) Pair [unfolded None]]
      ultimately show ?thesis using Suc.prems(3) by (auto simp: filter_mset_eq_empty_iff)
    next
      case (Some w)
      obtain served' where s: "drain_waiters n (take_waiter closed) q1 = (q', served')" "served = w # served'"
        using Suc.prems(3) Pair Some by (auto split: prod.splits)
      note taken = take_Some [OF Suc.prems(1) Pair [unfolded Some]]
      then obtain lost where lost: "waiting q = add_mset w (waiting q1 + lost)" "\<forall>d \<in># lost. closed d" by blast
      have "filter_mset (\<lambda>w. \<not> closed w) lost = {#}" using lost(2) by (simp add: filter_mset_eq_empty_iff)
      moreover have "size (waiting q1) < n" using lost(1) Suc.prems(2) by simp
      ultimately show ?thesis using Suc.IH [OF _ _ s(1)] taken lost(1) s(2) by simp
    qed
  qed
qed simp

end

section \<open>The two policies\<close>

text \<open>All queued waiters, and what the operations keep of the queues of a pool with the given policy.\<close>

definition waiting :: "'w scheduler_state \<Rightarrow> 'w multiset" where
  "waiting st = mset (map snd (fifo_queue st)) + mset (concat (map snd (handle_waiters st)))"

definition waiters_inv :: "pool_fairness_policy \<Rightarrow> 'w scheduler_state \<Rightarrow> bool" where
  "waiters_inv policy st \<longleftrightarrow> hm_invar (handle_waiters st) \<and> distinct (round_robin_order st) \<and>
     (\<forall>h. h \<in> set (round_robin_order st) \<longleftrightarrow> hm_lookup (handle_waiters st) h \<noteq> None) \<and>
     (\<forall>(h, w) \<in> set (fifo_queue st). hm_lookup (handle_waiters st) h \<noteq> None) \<and>
     (policy = RoundRobin \<longrightarrow> fifo_queue st = []) \<and>
     (policy = Fifo \<longrightarrow> (\<forall>h q. hm_lookup (handle_waiters st) h = Some q \<longrightarrow> q = []))"

lemma size_waiting: "size (waiting st) = waiter_count st"
  by (simp add: waiting_def waiter_count_def length_concat comp_def)

lemma mset_concat_insert:
  assumes "hm_invar m" and "hm_lookup m h = Some q"
  shows "mset (concat (map snd (hm_insert h q' m))) + mset q = mset (concat (map snd m)) + mset q'"
proof -
  have sum: "mset (concat (map snd m)) = (\<Sum>(k, v) \<in># mset m. mset v)" for m :: "('a, 'b list) hm"
    by (induction m) (auto simp: case_prod_beta)
  show ?thesis
    unfolding sum using hm.entries_insert [OF assms(1), of h q'] hm.entries_remove [OF assms] by simp
qed

lemma waiting_insert:
  assumes "hm_invar (handle_waiters st)" and "hm_lookup (handle_waiters st) h = Some q"
  shows "waiting (st\<lparr>handle_waiters := hm_insert h q' (handle_waiters st)\<rparr>) + mset q = waiting st + mset q'"
  using mset_concat_insert [OF assms, of q'] by (simp add: waiting_def)

lemma pop_live_Some:
  "pop_live_waiter closed q = (q', Some w) \<Longrightarrow>
   \<not> closed w \<and> (\<exists>lost. q = lost @ w # q' \<and> (\<forall>d \<in> set lost. closed d))"
proof (induction q)
  case (Cons v q)
  show ?case
  proof (cases "closed v")
    case True
    then obtain lost where "q = lost @ w # q'" "\<not> closed w" "\<forall>d \<in> set lost. closed d" using Cons by auto
    then show ?thesis using True by (intro conjI exI [of _ "v # lost"]) auto
  next
    case False
    then show ?thesis using Cons.prems by auto
  qed
qed simp

lemma pop_live_None: "pop_live_waiter closed q = (q', None) \<Longrightarrow> q' = [] \<and> (\<forall>d \<in> set q. closed d)"
  by (induction q) (auto split: if_splits)


lemma order_known:
  assumes "waiters_inv policy st" and "h \<in> set (round_robin_order st)"
  obtains q where "hm_lookup (handle_waiters st) h = Some q"
  using assms unfolding waiters_inv_def by blast

lemma rotate_handles_Some:
  assumes "waiters_inv policy st" and "rotate_handles n closed st = (st', Some w)"
  shows "waiters_inv policy st' \<and> \<not> closed w \<and>
    (\<exists>lost. waiting st = add_mset w (waiting st' + lost) \<and> (\<forall>d \<in># lost. closed d))"
  using assms
proof (induction n arbitrary: st)
  case (Suc n)
  obtain h hs where order: "round_robin_order st = h # hs"
    using Suc.prems(2) by (cases "round_robin_order st") auto
  obtain q where q: "hm_lookup (handle_waiters st) h = Some q"
    using order_known [OF Suc.prems(1), of h] order by auto
  obtain q' taken where pop: "pop_live_waiter closed q = (q', taken)" by fastforce
  define st2 where "st2 = st\<lparr>round_robin_order := hs @ [h], handle_waiters := hm_insert h q' (handle_waiters st)\<rparr>"
  have hm: "hm_invar (handle_waiters st)" using Suc.prems(1) by (simp add: waiters_inv_def)
  have inv2: "waiters_inv policy st2"
    using Suc.prems(1) order q pop pop_live_None [of closed q q'] pop_live_Some [of closed q q']
    by (cases taken) (auto simp: waiters_inv_def st2_def hm.lookup_insert split: if_splits)
  have count: "waiting st2 + mset q = waiting st + mset q'"
    using waiting_insert [OF hm q, of q'] by (simp add: st2_def waiting_def)
  have step: "rotate_handles (Suc n) closed st = (case taken of Some w \<Rightarrow> (st2, Some w) | None \<Rightarrow> rotate_handles n closed st2)"
    unfolding st2_def using order q pop by (simp add: Let_def)
  show ?case
  proof (cases taken)
    case None
    have lost: "q' = []" "\<forall>d \<in># mset q. closed d" using pop_live_None pop None by fastforce+
    obtain lost where "waiting st2 = add_mset w (waiting st' + lost)" "\<forall>d \<in># lost. closed d"
      and rest: "waiters_inv policy st'" "\<not> closed w"
      using Suc.IH [OF inv2] Suc.prems(2) step None by auto
    then have "waiting st = add_mset w (waiting st' + (lost + mset q)) \<and> (\<forall>d \<in># lost + mset q. closed d)"
      using count lost by (auto simp: add.assoc)
    then show ?thesis using rest by blast
  next
    case (Some v)
    then have v: "v = w" "st' = st2" using Suc.prems(2) step by auto
    from pop_live_Some [OF pop [unfolded Some]] obtain lost where
      lost: "q = lost @ w # q'" "\<forall>d \<in> set lost. closed d" "\<not> closed w" by (auto simp: v)
    then have "waiting st = add_mset w (waiting st' + mset lost) \<and> (\<forall>d \<in># mset lost. closed d)"
      using count by (simp add: v)
    then show ?thesis using inv2 lost(3) v by blast
  qed
qed simp

lemma rotate_handles_None:
  assumes "waiters_inv policy st" and "n \<le> length (round_robin_order st)" and "rotate_handles n closed st = (st', None)"
  shows "waiters_inv policy st' \<and> fifo_queue st' = fifo_queue st \<and>
    (\<forall>h. hm_lookup (handle_waiters st') h =
      (if h \<in> set (take n (round_robin_order st)) then Some [] else hm_lookup (handle_waiters st) h)) \<and>
    (\<forall>h \<in> set (take n (round_robin_order st)). \<forall>q. hm_lookup (handle_waiters st) h = Some q \<longrightarrow> (\<forall>d \<in> set q. closed d))"
  using assms
proof (induction n arbitrary: st)
  case (Suc n)
  obtain h hs where order: "round_robin_order st = h # hs" using Suc.prems(2) by (cases "round_robin_order st") auto
  obtain q where q: "hm_lookup (handle_waiters st) h = Some q"
    using order_known [OF Suc.prems(1), of h] order by auto
  obtain q' taken where pop: "pop_live_waiter closed q = (q', taken)" by fastforce
  have none: "taken = None" using Suc.prems(3) order q pop by (cases taken) (simp_all add: Let_def)
  have lost: "q' = []" "\<forall>d \<in> set q. closed d" using pop_live_None pop none by fastforce+
  define st2 where "st2 = st\<lparr>round_robin_order := hs @ [h], handle_waiters := hm_insert h [] (handle_waiters st)\<rparr>"
  have hm: "hm_invar (handle_waiters st)" using Suc.prems(1) by (simp add: waiters_inv_def)
  have inv2: "waiters_inv policy st2"
    using Suc.prems(1) order q by (auto simp: waiters_inv_def st2_def hm.lookup_insert)
  have take: "take n (round_robin_order st2) = take n hs" "h \<notin> set hs"
    using Suc.prems(1,2) order by (auto simp: st2_def waiters_inv_def)
  have "rotate_handles n closed st2 = (st', None)"
    using Suc.prems(3) order q pop none lost by (simp add: st2_def Let_def)
  from Suc.IH [OF inv2 _ this] Suc.prems(2) order
  have ih: "waiters_inv policy st'" "fifo_queue st' = fifo_queue st2"
    "\<forall>h'. hm_lookup (handle_waiters st') h' = (if h' \<in> set (take n hs) then Some [] else hm_lookup (handle_waiters st2) h')"
    "\<forall>h' \<in> set (take n hs). \<forall>q. hm_lookup (handle_waiters st2) h' = Some q \<longrightarrow> (\<forall>d \<in> set q. closed d)"
    unfolding take(1) by (simp_all add: st2_def)
  have "h \<notin> set (take n hs)" using take(2) by (meson in_set_takeD)
  then have old: "hm_lookup (handle_waiters st2) h' = hm_lookup (handle_waiters st) h'" if "h' \<in> set (take n hs)" for h'
    using that by (auto simp: st2_def hm.lookup_insert)
  have "hm_lookup (handle_waiters st') h' =
      (if h' \<in> set (take (Suc n) (round_robin_order st)) then Some [] else hm_lookup (handle_waiters st) h')" for h'
    using ih(3) [rule_format, of h'] by (simp add: order st2_def hm.lookup_insert)
  moreover have "\<forall>h' \<in> set (take (Suc n) (round_robin_order st)). \<forall>q. hm_lookup (handle_waiters st) h' = Some q \<longrightarrow>
      (\<forall>d \<in> set q. closed d)"
    using ih(4) old q lost(2) by (simp add: order)
  ultimately show ?case using ih(1,2) by (simp add: st2_def)
qed simp

lemma round_robin_None:
  assumes "waiters_inv RoundRobin st" and "take_next_round_robin_waiter closed st = (st', None)"
  shows "waiters_inv RoundRobin st' \<and> waiting st' = {#} \<and> (\<forall>d \<in># waiting st. closed d)"
proof -
  note none = rotate_handles_None [OF assms(1) _ assms(2) [unfolded take_next_round_robin_waiter_def]]
  have known: "\<forall>h q. hm_lookup (handle_waiters st) h = Some q \<longrightarrow> h \<in> set (round_robin_order st)"
    using assms(1) by (auto simp: waiters_inv_def)
  have inv': "waiters_inv RoundRobin st'" and empty: "\<And>h q. hm_lookup (handle_waiters st') h = Some q \<Longrightarrow> q = []"
    using none known by (auto split: if_splits)
  have hm: "hm_invar (handle_waiters st)" "hm_invar (handle_waiters st')" "fifo_queue st = []" "fifo_queue st' = []"
    using assms(1) inv' by (auto simp: waiters_inv_def)
  have "\<forall>(h, q) \<in> set (handle_waiters st'). q = []"
    using empty hm.lookup_entries [OF hm(2)] by blast
  then have "waiting st' = {#}" using hm(4) by (auto simp: waiting_def)
  moreover have "\<forall>d \<in># waiting st. closed d"
    using none known hm(3) hm.lookup_entries [OF hm(1)] by (fastforce simp: waiting_def)
  ultimately show ?thesis using inv' by blast
qed

lemma pop_fifo_Some:
  "pop_fifo closed handles q = (q', Some w) \<Longrightarrow>
   \<exists>lost h. q = lost @ (h, w) # q' \<and> \<not> closed w \<and> hm_lookup handles h \<noteq> None \<and>
     (\<forall>(g, d) \<in> set lost. closed d \<or> hm_lookup handles g = None)"
proof (induction q)
  case (Cons e q)
  obtain g v where e: "e = (g, v)" by fastforce
  show ?case
  proof (cases "closed v \<or> hm_lookup handles g = None")
    case True
    then obtain lost h where "q = lost @ (h, w) # q'" "\<not> closed w" "hm_lookup handles h \<noteq> None"
      "\<forall>(g, d) \<in> set lost. closed d \<or> hm_lookup handles g = None" using Cons e by auto
    then show ?thesis using True e by (intro exI [of _ "e # lost"] exI [of _ h]) auto
  next
    case False
    then show ?thesis using Cons.prems e by (intro exI [of _ "[]"] exI [of _ g]) auto
  qed
qed simp

lemma pop_fifo_None:
  "pop_fifo closed handles q = (q', None) \<Longrightarrow> q' = [] \<and> (\<forall>(g, d) \<in> set q. closed d \<or> hm_lookup handles g = None)"
  by (induction closed handles q rule: pop_fifo.induct) (auto split: if_splits)


lemma fifo_registered:
  "waiters_inv policy st \<Longrightarrow> (h, w) \<in> set (fifo_queue st) \<Longrightarrow> hm_lookup (handle_waiters st) h \<noteq> None"
  unfolding waiters_inv_def by blast

lemma fifo_Some:
  assumes "waiters_inv Fifo st" and "take_next_fifo_waiter closed st = (st', Some w)"
  shows "waiters_inv Fifo st' \<and> \<not> closed w \<and>
    (\<exists>lost. waiting st = add_mset w (waiting st' + lost) \<and> (\<forall>d \<in># lost. closed d))"
proof -
  obtain q where q: "pop_fifo closed (handle_waiters st) (fifo_queue st) = (q, Some w)" "st' = st\<lparr>fifo_queue := q\<rparr>"
    using assms(2) by (auto simp: take_next_fifo_waiter_def split: prod.splits)
  obtain lost h where fifo: "fifo_queue st = lost @ (h, w) # q" "\<not> closed w"
    "\<forall>(g, d) \<in> set lost. closed d \<or> hm_lookup (handle_waiters st) g = None"
    using pop_fifo_Some [OF q(1)] by blast
  have "closed d" if "(g, d) \<in> set lost" for g d
    using fifo_registered [OF assms(1), of g d] fifo(1,3) that by auto
  then have "\<forall>d \<in># mset (map snd lost). closed d" by auto
  moreover have "waiting st = add_mset w (waiting st' + mset (map snd lost))" by (simp add: waiting_def fifo(1) q(2))
  moreover have "waiters_inv Fifo st'" using assms(1) fifo(1) by (auto simp: waiters_inv_def q(2))
  ultimately show ?thesis using fifo(2) by blast
qed

lemma fifo_None:
  assumes "waiters_inv Fifo st" and "take_next_fifo_waiter closed st = (st', None)"
  shows "waiters_inv Fifo st' \<and> waiting st' = {#} \<and> (\<forall>d \<in># waiting st. closed d)"
proof -
  have q: "pop_fifo closed (handle_waiters st) (fifo_queue st) = ([], None)" "st' = st\<lparr>fifo_queue := []\<rparr>"
    using assms(2) pop_fifo_None by (fastforce simp: take_next_fifo_waiter_def split: prod.splits)+
  have hm: "hm_invar (handle_waiters st)" using assms(1) by (simp add: waiters_inv_def)
  have "\<forall>(h, q) \<in> set (handle_waiters st). q = []"
    using assms(1) hm.lookup_entries [OF hm] by (auto simp: waiters_inv_def)
  then have none: "mset (concat (map snd (handle_waiters st))) = {#}" by auto
  moreover have "closed d" if "(g, d) \<in> set (fifo_queue st)" for g d
    using fifo_registered [OF assms(1) that] pop_fifo_None [OF q(1)] that by auto
  then have "\<forall>d \<in># waiting st. closed d" unfolding waiting_def none by auto
  ultimately show ?thesis using assms(1) by (auto simp: waiters_inv_def waiting_def q(2))
qed

interpretation waiters: waiter_queue "\<lambda>closed. take_next_waiter closed policy" waiting "waiters_inv policy" for policy
proof unfold_locales
  show "waiters_inv policy st' \<and> \<not> closed w \<and> (\<exists>lost. waiting st = add_mset w (waiting st' + lost) \<and> (\<forall>d \<in># lost. closed d))"
    if "waiters_inv policy st" "take_next_waiter closed policy st = (st', Some w)" for closed st st' w
  proof (cases policy)
    case RoundRobin
    then show ?thesis
      using rotate_handles_Some [of policy st "length (round_robin_order st)" closed st' w] that
      by (simp add: take_next_waiter_def take_next_round_robin_waiter_def)
  next
    case Fifo
    then show ?thesis using fifo_Some [of st closed st' w] that by (simp add: take_next_waiter_def)
  qed
  show "waiters_inv policy st' \<and> waiting st' = {#} \<and> (\<forall>d \<in># waiting st. closed d)"
    if "waiters_inv policy st" "take_next_waiter closed policy st = (st', None)" for closed st st'
    using that round_robin_None [of st closed st'] fifo_None [of st closed st']
    by (cases policy) (simp_all add: take_next_waiter_def)
qed

section \<open>The other operations\<close>

lemma map_of_map_values: "map_of (map (\<lambda>(k, v). (k, f v)) m) k = map_option f (map_of m k)"
  by (induction m) auto

lemma prune_inv: "waiters_inv policy st \<Longrightarrow> waiters_inv policy (prune_cancelled_waiters closed st)"
  by (fastforce simp: waiters_inv_def prune_cancelled_waiters_def map_of_map_values hm_invar_def comp_def case_prod_beta)

lemma prune_waiting:
  fixes st :: "'w scheduler_state"
  shows "waiting (prune_cancelled_waiters closed st) = filter_mset (\<lambda>w. \<not> closed w) (waiting st)"
proof -
  have "mset (map snd (filter (\<lambda>(_, w). \<not> closed w) q)) = filter_mset (\<lambda>w. \<not> closed w) (mset (map snd q))"
    for q :: "(handle_id \<times> 'w) list" by (induction q) auto
  moreover have "mset (concat (map snd (map (\<lambda>(h, q). (h, filter (\<lambda>w. \<not> closed w) q)) m))) =
      filter_mset (\<lambda>w. \<not> closed w) (mset (concat (map snd m)))" for m :: "(handle_id, 'w list) hm"
    by (induction m) auto
  ultimately show ?thesis by (simp add: waiting_def prune_cancelled_waiters_def)
qed

lemma register_inv: "waiters_inv policy st \<Longrightarrow> waiters_inv policy (register_handle h st)"
  by (fastforce simp: waiters_inv_def register_handle_def hm.lookup_insert split: if_splits)

lemma register_waiting:
  fixes st :: "'w scheduler_state"
  assumes "hm_invar (handle_waiters st)"
  shows "waiting (register_handle h st) = waiting st"
proof -
  have "mset (concat (map snd (hm_insert h [] m))) = mset (concat (map snd m))"
    if "hm_lookup m h = None" for m :: "(handle_id, 'w list) hm"
    using that by (induction m) (auto simp: hm_insert_def split: if_splits)
  then show ?thesis by (simp add: register_handle_def waiting_def)
qed

lemma deregister_inv: "waiters_inv policy st \<Longrightarrow> waiters_inv policy (deregister_handle h st)"
  by (fastforce simp: waiters_inv_def deregister_handle_def hm.lookup_remove split: if_splits)

lemma deregister_waiting:
  fixes st :: "'w scheduler_state"
  shows "waiting (deregister_handle h st) \<subseteq># waiting st"
proof -
  have "mset (map snd (filter P q)) \<subseteq># mset (map snd q)" for P and q :: "(handle_id \<times> 'w) list"
    by (simp add: image_mset_subseteq_mono)
  moreover have "mset (concat (map snd (hm_remove h m))) \<subseteq># mset (concat (map snd m))" for m :: "(handle_id, 'w list) hm"
    by (induction m) (auto simp: hm_remove_def delete_simps intro: subset_mset.add_mono subset_mset.add_increasing)
  ultimately show ?thesis by (simp add: waiting_def deregister_handle_def subset_mset.add_mono)
qed

text \<open>Admission: the waiter joins the queue, after those abandoned have left, or comes back.\<close>

lemma enqueue_waiter_cases:
  assumes "waiters_inv (fairness_policy adm) st" and "enqueue_waiter closed h w adm st = (st', r)"
  shows "waiters_inv (fairness_policy adm) st' \<and>
    (r = Enqueued \<and> waiting st' = add_mset w (filter_mset (\<lambda>w. \<not> closed w) (waiting st)) \<and>
        waiter_count st' \<le> max_waiters adm \<or>
     r = Saturated w \<and> waiting st' = filter_mset (\<lambda>w. \<not> closed w) (waiting st) \<and> max_waiters adm \<le> waiter_count st')"
proof -
  define st1 where "st1 = register_handle h (prune_cancelled_waiters closed st)"
  have inv1: "waiters_inv (fairness_policy adm) st1" using assms(1) by (simp add: st1_def register_inv prune_inv)
  have hm: "hm_invar (handle_waiters st1)" "hm_invar (handle_waiters (prune_cancelled_waiters closed st))"
    using inv1 prune_inv [OF assms(1), of closed] by (simp_all add: waiters_inv_def)
  have w1: "waiting st1 = filter_mset (\<lambda>w. \<not> closed w) (waiting st)"
    using hm(2) by (simp add: st1_def register_waiting prune_waiting)
  obtain q where q: "hm_lookup (handle_waiters st1) h = Some q"
    by (cases "hm_lookup (handle_waiters (prune_cancelled_waiters closed st)) h")
      (auto simp: st1_def register_handle_def hm.lookup_insert)
  show ?thesis
  proof (cases "max_waiters adm \<le> waiter_count st1")
    case True
    then have "st' = st1" "r = Saturated w" using assms(2) by (simp_all add: enqueue_waiter_def st1_def [symmetric] Let_def)
    then show ?thesis using True inv1 w1 by simp
  next
    case False
    have more: "waiting st' = add_mset w (waiting st1) \<and> waiters_inv (fairness_policy adm) st' \<and> r = Enqueued"
    proof (cases "fairness_policy adm")
      case Fifo
      then have "st' = st1\<lparr>fifo_queue := fifo_queue st1 @ [(h, w)]\<rparr>" "r = Enqueued"
        using assms(2) False by (simp_all add: enqueue_waiter_def st1_def [symmetric] Let_def)
      then show ?thesis using inv1 q Fifo by (auto simp: waiting_def waiters_inv_def)
    next
      case RoundRobin
      then have st': "st' = st1\<lparr>handle_waiters := hm_insert h (q @ [w]) (handle_waiters st1)\<rparr>" "r = Enqueued"
        using assms(2) False q by (simp_all add: enqueue_waiter_def st1_def [symmetric] Let_def)
      then show ?thesis
        using waiting_insert [OF hm(1) q, of "q @ [w]"] inv1 q RoundRobin
        by (auto simp: waiters_inv_def hm.lookup_insert)
    qed
    then have "waiter_count st' = Suc (waiter_count st1)" using size_waiting [of st'] size_waiting [of st1] by simp
    then show ?thesis using more False w1 by simp
  qed
qed


section \<open>Waiting is bounded\<close>

text \<open>Everything that can happen to the queues; each operation sees who has gone away by then.\<close>

datatype 'w waiter_op =
  TakeNext "'w \<Rightarrow> bool"
| Enqueue "'w \<Rightarrow> bool" handle_id 'w waiter_admission
| Deregister handle_id
| Prune "'w \<Rightarrow> bool"

fun waiter_step :: "pool_fairness_policy \<Rightarrow> 'w waiter_op \<Rightarrow> 'w scheduler_state \<Rightarrow> 'w scheduler_state \<times> 'w option" where
  "waiter_step policy (TakeNext closed) st = take_next_waiter closed policy st"
| "waiter_step policy (Enqueue closed h w n) st =
     (fst (enqueue_waiter closed h w \<lparr>fairness_policy = policy, max_waiters = max_waiters n\<rparr> st), None)"
| "waiter_step policy (Deregister h) st = (deregister_handle h st, None)"
| "waiter_step policy (Prune closed) st = (prune_cancelled_waiters closed st, None)"

fun waiter_run :: "pool_fairness_policy \<Rightarrow> 'w waiter_op list \<Rightarrow> 'w scheduler_state \<Rightarrow> 'w scheduler_state \<times> 'w list" where
  "waiter_run policy [] st = (st, [])"
| "waiter_run policy (e # es) st =
     (let (st1, r) = waiter_step policy e st; (st2, ws) = waiter_run policy es st1
      in (st2, case r of None \<Rightarrow> ws | Some w \<Rightarrow> w # ws))"

fun is_take :: "'w waiter_op \<Rightarrow> bool" where
  "is_take (TakeNext closed) \<longleftrightarrow> True"
| "is_take e \<longleftrightarrow> False"

text \<open>The request \<open>w\<close> of session \<open>h\<close> is not abandoned in this operation.\<close>

fun keeps_waiter :: "handle_id \<Rightarrow> 'w \<Rightarrow> 'w waiter_op \<Rightarrow> bool" where
  "keeps_waiter h w (TakeNext closed) \<longleftrightarrow> \<not> closed w"
| "keeps_waiter h w (Enqueue closed g v n) \<longleftrightarrow> \<not> closed w"
| "keeps_waiter h w (Deregister g) \<longleftrightarrow> g \<noteq> h"
| "keeps_waiter h w (Prune closed) \<longleftrightarrow> \<not> closed w"

text \<open>
  At most \<open>k\<close> turns come before the request: its session is number \<open>k\<close> of the rotation and the
  request is the oldest of its session, or it is number \<open>k\<close> in order of arrival.
\<close>

fun turns_before :: "pool_fairness_policy \<Rightarrow> handle_id \<Rightarrow> 'w \<Rightarrow> nat \<Rightarrow> 'w scheduler_state \<Rightarrow> bool" where
  "turns_before RoundRobin h w k st \<longleftrightarrow>
     (\<exists>q. hm_lookup (handle_waiters st) h = Some (w # q)) \<and>
     (\<exists>before after. round_robin_order st = before @ h # after \<and> length before \<le> k)"
| "turns_before Fifo h w k st \<longleftrightarrow>
     (\<exists>q. hm_lookup (handle_waiters st) h = Some q) \<and>
     (\<exists>before after. fifo_queue st = before @ (h, w) # after \<and> length before \<le> k)"

lemma turns_before_mono: "turns_before policy h w k st \<Longrightarrow> k \<le> n \<Longrightarrow> turns_before policy h w n st"
  by (cases policy) (auto intro: order_trans)

lemma rotate_serves:
  assumes "hm_lookup (handle_waiters st) h = Some (w # q)" and "round_robin_order st = before @ h # after"
    and "distinct (round_robin_order st)" and "length before < n" and "\<not> closed w"
    and "rotate_handles n closed st = (st', r)"
  shows "r = Some w \<or> (\<exists>v before' after'. r = Some v \<and> hm_lookup (handle_waiters st') h = Some (w # q) \<and>
    round_robin_order st' = before' @ h # after' \<and> length before' < length before)"
  using assms
proof (induction n arbitrary: st before after)
  case (Suc n)
  show ?case
  proof (cases before)
    case Nil
    then show ?thesis using Suc.prems by (simp add: Let_def)
  next
    case (Cons g rest)
    have g: "g \<noteq> h" "round_robin_order st = g # rest @ h # after" using Suc.prems(2,3) Cons by auto
    define q' where "q' = (case hm_lookup (handle_waiters st) g of None \<Rightarrow> [] | Some p \<Rightarrow> fst (pop_live_waiter closed p))"
    define st1 where "st1 = st\<lparr>round_robin_order := rest @ h # after @ [g]\<rparr>"
    define st2 where "st2 = st1\<lparr>handle_waiters := hm_insert g q' (handle_waiters st1)\<rparr>"
    have look: "hm_lookup (handle_waiters s) h = Some (w # q)" "round_robin_order s = rest @ h # (after @ [g])"
      "distinct (round_robin_order s)" if "s \<in> {st1, st2}" for s
      using that g Suc.prems(1,3) by (auto simp: st1_def st2_def hm.lookup_insert)
    have "rotate_handles (Suc n) closed st \<in> {rotate_handles n closed st1, rotate_handles n closed st2} \<or>
        (\<exists>v. rotate_handles (Suc n) closed st = (st2, Some v))"
      by (cases "hm_lookup (handle_waiters st) g")
        (auto simp: g(2) st1_def st2_def q'_def Let_def split: prod.splits option.splits)
    then consider s where "s \<in> {st1, st2}" "rotate_handles n closed s = (st', r)" | v where "st' = st2" "r = Some v"
      unfolding Suc.prems(6) by (metis insertE prod.inject singletonD insertI1 insertI2)
    then show ?thesis
    proof cases
      case 1
      have "length rest < n" using Suc.prems(4) Cons by simp
      from Suc.IH [OF look [OF 1(1)] this Suc.prems(5) 1(2)] show ?thesis using Cons by auto
    next
      case 2
      then show ?thesis using look [of st2] Cons by auto
    qed
  qed
qed simp

lemma pop_fifo_serves:
  assumes "fifo = before @ (h, w) # after" and "hm_lookup handles h \<noteq> None" and "\<not> closed w"
    and "pop_fifo closed handles fifo = (fifo', r)"
  shows "r = Some w \<or> (\<exists>v before'. r = Some v \<and> fifo' = before' @ (h, w) # after \<and> length before' < length before)"
  using assms
proof (induction before arbitrary: fifo)
  case (Cons e before)
  then show ?case by (cases e) (fastforce split: if_splits)
qed auto


lemma take_serves:
  assumes "waiters_inv policy st" and "turns_before policy h w k st" and "\<not> closed w"
    and "take_next_waiter closed policy st = (st', r)"
  shows "r = Some w \<or> (\<exists>v n. r = Some v \<and> n < k \<and> turns_before policy h w n st')"
proof (cases policy)
  case RoundRobin
  from assms(2) obtain q before after where
    w: "hm_lookup (handle_waiters st) h = Some (w # q)" "round_robin_order st = before @ h # after" "length before \<le> k"
    by (auto simp: RoundRobin)
  have "distinct (round_robin_order st)" using assms(1) by (simp add: waiters_inv_def)
  from rotate_serves [where n = "length (round_robin_order st)" and closed = closed and st' = st' and r = r,
      OF w(1,2) this _ assms(3)]
  consider "r = Some w" | v before' after' where "r = Some v" "hm_lookup (handle_waiters st') h = Some (w # q)"
    "round_robin_order st' = before' @ h # after'" "length before' < length before"
    using assms(4) w(2) by (auto simp: RoundRobin take_next_waiter_def take_next_round_robin_waiter_def)
  then show ?thesis
  proof cases
    case 2
    then have "turns_before policy h w (length before') st'" by (auto simp: RoundRobin)
    then show ?thesis using 2 w(3) by (intro disjI2 exI [of _ v] exI [of _ "length before'"]) simp
  qed simp
next
  case Fifo
  from assms(2) obtain before after where
    w: "hm_lookup (handle_waiters st) h \<noteq> None" "fifo_queue st = before @ (h, w) # after" "length before \<le> k"
    by (auto simp: Fifo)
  obtain q where q: "pop_fifo closed (handle_waiters st) (fifo_queue st) = (q, r)" "st' = st\<lparr>fifo_queue := q\<rparr>"
    using assms(4) by (auto simp: Fifo take_next_waiter_def take_next_fifo_waiter_def split: prod.splits)
  from pop_fifo_serves [OF w(2,1) assms(3) q(1)]
  consider "r = Some w" | v before' where "r = Some v" "q = before' @ (h, w) # after" "length before' < length before"
    by blast
  then show ?thesis
  proof cases
    case 2
    then have "turns_before policy h w (length before') st'" using w(1) by (auto simp: Fifo q(2))
    then show ?thesis using 2 w(3) by (intro disjI2 exI [of _ v] exI [of _ "length before'"]) simp
  qed simp
qed

lemma prune_keeps_turn:
  assumes "turns_before policy h w k st" and "\<not> closed w"
  shows "turns_before policy h w k (prune_cancelled_waiters closed st)"
proof (cases policy)
  case RoundRobin
  then show ?thesis using assms by (auto simp: prune_cancelled_waiters_def map_of_map_values)
next
  case Fifo
  from assms(1) obtain before after where "fifo_queue st = before @ (h, w) # after" "length before \<le> k"
    by (auto simp: Fifo)
  then have "fifo_queue (prune_cancelled_waiters closed st) =
      filter (\<lambda>(_, v). \<not> closed v) before @ (h, w) # filter (\<lambda>(_, v). \<not> closed v) after"
    "length (filter (\<lambda>(_, v). \<not> closed v) before) \<le> k"
    using assms(2) le_trans [OF length_filter_le] by (auto simp: prune_cancelled_waiters_def)
  moreover have "\<exists>q. hm_lookup (handle_waiters (prune_cancelled_waiters closed st)) h = Some q"
    using assms(1) by (auto simp: Fifo prune_cancelled_waiters_def map_of_map_values)
  ultimately show ?thesis unfolding Fifo turns_before.simps by blast
qed

lemma register_keeps_turn: "turns_before policy h w k st \<Longrightarrow> turns_before policy h w k (register_handle g st)"
  by (cases policy) (fastforce simp: register_handle_def hm.lookup_insert)+

lemma enqueue_keeps_turn:
  assumes "turns_before policy h w k st" and "\<not> closed w"
  shows "turns_before policy h w k (fst (enqueue_waiter closed g v \<lparr>fairness_policy = policy, max_waiters = n\<rparr> st))"
proof -
  have "turns_before policy h w k (register_handle g (prune_cancelled_waiters closed st))"
    using assms by (intro register_keeps_turn prune_keeps_turn)
  then show ?thesis
    by (cases policy) (fastforce simp: enqueue_waiter_def Let_def hm.lookup_insert split: option.split)+
qed

lemma deregister_keeps_turn:
  assumes "turns_before policy h w k st" and "g \<noteq> h"
  shows "turns_before policy h w k (deregister_handle g st)"
proof (cases policy)
  case RoundRobin
  from assms(1) obtain before after where "round_robin_order st = before @ h # after" "length before \<le> k"
    by (auto simp: RoundRobin)
  then have "round_robin_order (deregister_handle g st) = filter (\<lambda>q. q \<noteq> g) before @ h # filter (\<lambda>q. q \<noteq> g) after"
    "length (filter (\<lambda>q. q \<noteq> g) before) \<le> k"
    using assms(2) le_trans [OF length_filter_le] by (auto simp: deregister_handle_def)
  then show ?thesis using assms by (auto simp: RoundRobin deregister_handle_def hm.lookup_remove)
next
  case Fifo
  from assms(1) obtain before after where "fifo_queue st = before @ (h, w) # after" "length before \<le> k"
    by (auto simp: Fifo)
  then have "fifo_queue (deregister_handle g st) =
      filter (\<lambda>(q, _). q \<noteq> g) before @ (h, w) # filter (\<lambda>(q, _). q \<noteq> g) after"
    "length (filter (\<lambda>(q, _). q \<noteq> g) before) \<le> k"
    using assms(2) le_trans [OF length_filter_le] by (auto simp: deregister_handle_def)
  then show ?thesis using assms by (auto simp: Fifo deregister_handle_def hm.lookup_remove)
qed

lemma waiter_step_inv: "waiters_inv policy st \<Longrightarrow> waiters_inv policy (fst (waiter_step policy e st))"
proof (cases e)
  case (TakeNext closed)
  then show "waiters_inv policy st \<Longrightarrow> ?thesis"
    using waiters.take_inv [of policy st closed] by (cases "take_next_waiter closed policy st") simp
next
  case (Enqueue closed h w n)
  let ?adm = "\<lparr>fairness_policy = policy, max_waiters = max_waiters n\<rparr>"
  show "waiters_inv policy st \<Longrightarrow> ?thesis"
    using enqueue_waiter_cases [of ?adm st closed h w] Enqueue
    by (cases "enqueue_waiter closed h w ?adm st") simp
qed (simp_all add: deregister_inv prune_inv)

text \<open>
  C16: Waiting is bounded by the turns before it. Under round robin, the oldest request of a session
  that is number \<open>k\<close> of the rotation is served by one of the next \<open>k + 1\<close> selections; under FIFO so is
  the request with \<open>k\<close> arrivals before it. Requests that arrive meanwhile, sessions that join, requests
  that are abandoned and sessions that leave do not delay it, as long as its own caller
  keeps waiting.
\<close>

theorem waiter_served_within_turns:
  assumes "waiters_inv policy st" and "turns_before policy h w k st" and "list_all (keeps_waiter h w) es"
    and "k < length (filter is_take es)"
  shows "w \<in> set (snd (waiter_run policy es st))"
  using assms
proof (induction es arbitrary: st k)
  case (Cons e es)
  obtain st1 r where step: "waiter_step policy e st = (st1, r)" by fastforce
  have inv1: "waiters_inv policy st1" using waiter_step_inv [OF Cons.prems(1), of e] step by simp
  have run: "set (snd (waiter_run policy (e # es) st)) = set_option r \<union> set (snd (waiter_run policy es st1))"
    by (auto simp: step split: prod.splits option.splits)
  have later: "w \<in> set (snd (waiter_run policy es st1))"
    if "turns_before policy h w n st1" "n < length (filter is_take es)" for n
    using Cons.IH [OF inv1 that(1)] Cons.prems(3) that(2) by simp
  show ?case
  proof (cases "is_take e")
    case True
    then obtain closed where e: "e = TakeNext closed" by (cases e) auto
    with take_serves [OF Cons.prems(1,2), of closed st1 r] Cons.prems(3) step
    consider "r = Some w" | n where "n < k" "turns_before policy h w n st1" by auto
    then show ?thesis using run later Cons.prems(4) e by cases auto
  next
    case False
    then have "turns_before policy h w k st1"
      using Cons.prems(2,3) step
      by (cases e) (auto dest!: arg_cong [of _ _ fst] simp: enqueue_keeps_turn deregister_keeps_turn prune_keeps_turn)
    then show ?thesis using run later Cons.prems(4) False by auto
  qed
qed simp

text \<open>Two sessions with two requests each: the second session's first request is served second.\<close>

definition two_sessions :: "nat scheduler_state" where
  "two_sessions = \<lparr>fifo_queue = [], round_robin_order = [1, 2], handle_waiters = [(1, [10, 11]), (2, [20, 21])]\<rparr>"

theorem waiter_served_within_turns_witness:
  "20 \<in> set (snd (waiter_run RoundRobin
     [TakeNext (\<lambda>w. False), Enqueue (\<lambda>w. False) 3 30 \<lparr>fairness_policy = RoundRobin, max_waiters = 9\<rparr>, TakeNext (\<lambda>w. False)]
     two_sessions))"
proof -
  have "waiters_inv RoundRobin two_sessions" by (auto simp: waiters_inv_def two_sessions_def hm_invar_def split: if_splits)
  moreover have "turns_before RoundRobin 2 20 1 two_sessions"
    by (simp add: two_sessions_def) (intro exI [of _ "[1]"] exI [of _ "[]"], simp)
  ultimately show ?thesis by (rule waiter_served_within_turns) simp_all
qed

end
