(* ===== verification/Pool_Scheduler.thy ===== *)
theory Pool_Scheduler
  imports Pool_Waiters Client_Error
begin

text \<open>
  The scheduler of the client pool: \<open>src/client/pool/scheduler/actor.rs\<close>, the lifecycle it shares
  with its handles (\<open>scheduler/handle.rs\<close>, \<open>scheduler/command.rs\<close>) and the slots it grants from
  (\<open>src/client/pool/core.rs\<close>, the admission permits of \<open>src/client/pool/slot.rs\<close>).

  One task owns the queues, so each handler is one step; callers go away at any time, also between the
  selection of a waiter and the send (\<open>late\<close>). The semaphores (tokio) are the argument \<open>sl\<close>, with
  \<open>semaphore_documented sl v\<close> for the view \<open>v\<close> of a semaphore as its free permits. The race for
  a permit ends with a permit of some slot or with an error. What the task sends is the list
  \<open>tk_replies\<close>; metrics and logs are not modelled.
\<close>

section \<open>Slots\<close>

record 'm semaphore_lib =
  sem_try_acquire :: "'m \<Rightarrow> 'm \<times> bool"
  sem_release :: "'m \<Rightarrow> 'm"

definition semaphore_documented :: "'m semaphore_lib \<Rightarrow> ('m \<Rightarrow> nat) \<Rightarrow> bool" where
  "semaphore_documented sl v \<longleftrightarrow>
     (\<forall>m. snd (sem_try_acquire sl m) \<longleftrightarrow> 0 < v m) \<and>
     (\<forall>m. v (fst (sem_try_acquire sl m)) = v m - 1) \<and>
     (\<forall>m. v (sem_release sl m) = v m + 1)"

record 'm pool_core =
  core_slots :: "'m list"
  core_next_slot :: u64
  core_shutdown :: bool

definition pool_core_new :: "'m list \<Rightarrow> 'm pool_core" where
  "pool_core_new slots = \<lparr>core_slots = slots, core_next_slot = 0, core_shutdown = False\<rparr>"

definition shutdown_core :: "'m pool_core \<Rightarrow> 'm pool_core" where
  "shutdown_core core = core\<lparr>core_shutdown := True\<rparr>"

definition rotation_start :: "usize \<Rightarrow> u64 \<Rightarrow> usize" where
  "rotation_start len cursor = (if len = 0 then 0 else unat cursor mod len)"

definition rotation_indices :: "usize \<Rightarrow> usize \<Rightarrow> usize list" where
  "rotation_indices len start = map (\<lambda>offset. ((start + offset) mod (usize_max + 1)) mod max len 1) [0..<len]"

definition ordered_slot_indices :: "'m pool_core \<Rightarrow> 'm pool_core \<times> usize list" where
  "ordered_slot_indices core =
     (let len = length (core_slots core)
      in if len = 0 then (core, rotation_indices len 0)
         else (core\<lparr>core_next_slot := core_next_slot core + 1\<rparr>,
               rotation_indices len (rotation_start len (core_next_slot core))))"

text \<open>\<open>find_map\<close> over the slots: the first that grants a permit.\<close>

fun probe_slots :: "'m semaphore_lib \<Rightarrow> usize list \<Rightarrow> 'm pool_core \<Rightarrow> 'm pool_core \<times> usize option" where
  "probe_slots sl [] core = (core, None)"
| "probe_slots sl (i # is) core =
     (if i < length (core_slots core)
      then case sem_try_acquire sl (core_slots core ! i) of
             (m, True) \<Rightarrow> (core\<lparr>core_slots := (core_slots core)[i := m]\<rparr>, Some i)
           | (m, False) \<Rightarrow> probe_slots sl is (core\<lparr>core_slots := (core_slots core)[i := m]\<rparr>)
      else probe_slots sl is core)"

definition release_permit_of :: "'m semaphore_lib \<Rightarrow> usize \<Rightarrow> 'm pool_core \<Rightarrow> 'm pool_core" where
  "release_permit_of sl i core = core\<lparr>core_slots := (core_slots core)[i := sem_release sl (core_slots core ! i)]\<rparr>"

definition try_acquire_permit :: "'m semaphore_lib \<Rightarrow> 'm pool_core \<Rightarrow> 'm pool_core \<times> usize option" where
  "try_acquire_permit sl core =
     (if core_shutdown core then (core, None)
      else let (core1, is) = ordered_slot_indices core; (core2, selected) = probe_slots sl is core1
           in if core_shutdown core2
              then (case selected of None \<Rightarrow> core2 | Some i \<Rightarrow> release_permit_of sl i core2, None)
              else (core2, selected))"

section \<open>Lifecycle\<close>

datatype scheduler_lifecycle = Running | Closed | Failed

definition lifecycle_from_raw :: "u8 \<Rightarrow> scheduler_lifecycle" where
  "lifecycle_from_raw raw = (if raw = 0 then Running else if raw = 1 then Closed else Failed)"

definition mark_lifecycle_closed :: "scheduler_lifecycle \<Rightarrow> scheduler_lifecycle" where
  "mark_lifecycle_closed l = (if l = Running then Closed else l)"

definition mark_lifecycle_failed :: "scheduler_lifecycle \<Rightarrow> scheduler_lifecycle" where
  "mark_lifecycle_failed l = Failed"

fun close_error :: "scheduler_lifecycle \<Rightarrow> client_error" where
  "close_error Failed = SchedulerFailed"
| "close_error Running = PoolClosed"
| "close_error Closed = PoolClosed"

section \<open>The task\<close>

datatype 'w scheduler_command = Acquire handle_id 'w | DeregisterHandle handle_id

text \<open>
  \<open>tk_replies\<close> is what callers have been sent, a slot or an error, \<open>tk_leases\<close> the slots of the leases
  in use. \<open>tk_submitted\<close>, \<open>tk_gone\<close> and \<open>tk_forgotten\<close> record the requests made, the callers that
  have gone away and the requests dropped with their session.
\<close>

record ('m, 'w) scheduler_task =
  tk_core :: "'m pool_core"
  tk_lifecycle :: scheduler_lifecycle
  tk_state :: "'w scheduler_state"
  tk_mailbox :: "'w scheduler_command list"
  tk_mailbox_closed :: bool
  tk_admission :: waiter_admission
  tk_capacity_waits :: u64
  tk_replies :: "('w \<times> (client_error + usize)) list"
  tk_leases :: "usize list"
  tk_submitted :: "'w list"
  tk_gone :: "'w set"
  tk_forgotten :: "'w set"

definition scheduler_task_new :: "'m pool_core \<Rightarrow> waiter_admission \<Rightarrow> ('m, 'w) scheduler_task" where
  "scheduler_task_new core admission =
     \<lparr>tk_core = core, tk_lifecycle = Running, tk_state = scheduler_state_new, tk_mailbox = [],
      tk_mailbox_closed = False, tk_admission = admission, tk_capacity_waits = 0, tk_replies = [],
      tk_leases = [], tk_submitted = [], tk_gone = {}, tk_forgotten = {}\<rparr>"

text \<open>Sending to a caller that has gone fails, and the value is dropped.\<close>

definition send_reply :: "'w set \<Rightarrow> 'w \<Rightarrow> client_error + usize \<Rightarrow> ('m, 'w) scheduler_task \<Rightarrow> ('m, 'w) scheduler_task" where
  "send_reply gone w r tk = (if w \<in> gone then tk else tk\<lparr>tk_replies := tk_replies tk @ [(w, r)]\<rparr>)"

definition deliver ::
    "'m semaphore_lib \<Rightarrow> 'w set \<Rightarrow> 'w \<Rightarrow> usize \<Rightarrow> ('m, 'w) scheduler_task \<Rightarrow> ('m, 'w) scheduler_task" where
  "deliver sl gone w i tk =
     (if i < length (core_slots (tk_core tk))
      then if w \<in> gone then tk\<lparr>tk_core := release_permit_of sl i (tk_core tk)\<rparr>
           else send_reply gone w (Inr i) (tk\<lparr>tk_leases := i # tk_leases tk\<rparr>)
      else send_reply gone w (Inl SchedulerFailed) tk)"

text \<open>The loop takes a waiter in each turn, so one more turn than there are waiters is enough.\<close>

fun grant_loop ::
    "nat \<Rightarrow> 'm semaphore_lib \<Rightarrow> 'w set \<Rightarrow> ('m, 'w) scheduler_task \<Rightarrow> ('m, 'w) scheduler_task" where
  "grant_loop 0 sl late tk = tk"
| "grant_loop (Suc n) sl late tk =
     (if \<not> has_live_waiters (\<lambda>w. w \<in> tk_gone tk) (tk_state tk) then tk
      else case try_acquire_permit sl (tk_core tk) of
        (core, None) \<Rightarrow> tk\<lparr>tk_core := core\<rparr>
      | (core, Some i) \<Rightarrow>
          (case take_next_waiter (\<lambda>w. w \<in> tk_gone tk) (fairness_policy (tk_admission tk)) (tk_state tk) of
             (st, None) \<Rightarrow> tk\<lparr>tk_core := release_permit_of sl i core, tk_state := st\<rparr>
           | (st, Some w) \<Rightarrow>
               grant_loop n sl late (deliver sl (tk_gone tk \<union> late) w i (tk\<lparr>tk_core := core, tk_state := st\<rparr>))))"

definition grant_sweep :: "'m semaphore_lib \<Rightarrow> 'w set \<Rightarrow> ('m, 'w) scheduler_task \<Rightarrow> ('m, 'w) scheduler_task" where
  "grant_sweep sl late tk = grant_loop (Suc (waiter_count (tk_state tk))) sl late tk"

definition handle_acquire ::
    "'m semaphore_lib \<Rightarrow> 'w set \<Rightarrow> handle_id \<Rightarrow> 'w \<Rightarrow> ('m, 'w) scheduler_task \<Rightarrow> ('m, 'w) scheduler_task" where
  "handle_acquire sl late h w tk =
     (let gone = tk_gone tk \<union> late
      in if tk_lifecycle tk \<noteq> Running then send_reply gone w (Inl (close_error (tk_lifecycle tk))) tk
         else case enqueue_waiter (\<lambda>w. w \<in> tk_gone tk) h w (tk_admission tk) (tk_state tk) of
           (st, Saturated rejected) \<Rightarrow>
             send_reply gone rejected (Inl (PoolSaturated (max_waiters (tk_admission tk)))) (tk\<lparr>tk_state := st\<rparr>)
         | (st, Enqueued) \<Rightarrow>
             (let tk1 = grant_sweep sl late (tk\<lparr>tk_state := st\<rparr>)
              in if has_queued_waiter h (tk_state tk1)
                 then tk1\<lparr>tk_capacity_waits := tk_capacity_waits tk1 + 1\<rparr> else tk1))"

definition handle_command ::
    "'m semaphore_lib \<Rightarrow> 'w set \<Rightarrow> 'w scheduler_command \<Rightarrow> ('m, 'w) scheduler_task \<Rightarrow> ('m, 'w) scheduler_task" where
  "handle_command sl late command tk =
     (case command of
        Acquire h w \<Rightarrow> handle_acquire sl late h w tk
      | DeregisterHandle h \<Rightarrow>
          tk\<lparr>tk_state := deregister_handle h (tk_state tk),
             tk_forgotten := tk_forgotten tk \<union> set_mset (waiting (tk_state tk) - waiting (deregister_handle h (tk_state tk)))\<rparr>)"

definition on_permit_won ::
    "'m semaphore_lib \<Rightarrow> 'w set \<Rightarrow> usize \<Rightarrow> ('m, 'w) scheduler_task \<Rightarrow> ('m, 'w) scheduler_task" where
  "on_permit_won sl late i tk =
     (case take_next_waiter (\<lambda>w. w \<in> tk_gone tk) (fairness_policy (tk_admission tk)) (tk_state tk) of
        (st, None) \<Rightarrow> tk\<lparr>tk_state := st, tk_core := release_permit_of sl i (tk_core tk)\<rparr>
      | (st, Some w) \<Rightarrow> deliver sl (tk_gone tk \<union> late) w i (tk\<lparr>tk_state := st\<rparr>))"

text \<open>\<open>while let Some(waiter) = take_next_waiter(..) { waiter.send(Err(error)) }\<close>.\<close>

definition refuse_waiters :: "'w set \<Rightarrow> client_error \<Rightarrow> ('m, 'w) scheduler_task \<Rightarrow> ('m, 'w) scheduler_task" where
  "refuse_waiters late e tk =
     (let (st, ws) = drain_waiters (Suc (waiter_count (tk_state tk)))
            (take_next_waiter (\<lambda>w. w \<in> tk_gone tk) (fairness_policy (tk_admission tk))) (tk_state tk)
      in fold (\<lambda>w. send_reply (tk_gone tk \<union> late) w (Inl e)) ws (tk\<lparr>tk_state := st\<rparr>))"

definition fail_on_race_error :: "'w set \<Rightarrow> ('m, 'w) scheduler_task \<Rightarrow> ('m, 'w) scheduler_task" where
  "fail_on_race_error late tk =
     (let lifecycle = (if tk_lifecycle tk = Running then mark_lifecycle_failed (tk_lifecycle tk) else tk_lifecycle tk)
      in (refuse_waiters late (close_error lifecycle) (tk\<lparr>tk_lifecycle := lifecycle\<rparr>))\<lparr>tk_mailbox_closed := True\<rparr>)"

definition handle_permit_outcome ::
    "'m semaphore_lib \<Rightarrow> 'w set \<Rightarrow> (client_error + usize) option \<Rightarrow> ('m, 'w) scheduler_task \<Rightarrow> ('m, 'w) scheduler_task" where
  "handle_permit_outcome sl late outcome tk =
     (case outcome of
        Some (Inr i) \<Rightarrow> grant_sweep sl late (on_permit_won sl late i tk)
      | Some (Inl e) \<Rightarrow> fail_on_race_error late tk
      | None \<Rightarrow> tk)"

fun refuse_command :: "'w set \<Rightarrow> 'w scheduler_command \<Rightarrow> ('m, 'w) scheduler_task \<Rightarrow> ('m, 'w) scheduler_task" where
  "refuse_command gone (Acquire h w) tk = send_reply gone w (Inl PoolClosed) tk"
| "refuse_command gone (DeregisterHandle h) tk = tk"

definition drain_for_shutdown :: "'w set \<Rightarrow> ('m, 'w) scheduler_task \<Rightarrow> ('m, 'w) scheduler_task" where
  "drain_for_shutdown late tk =
     (let tk1 = refuse_waiters late PoolClosed (tk\<lparr>tk_lifecycle := mark_lifecycle_closed (tk_lifecycle tk)\<rparr>);
          tk2 = tk1\<lparr>tk_mailbox_closed := True, tk_mailbox := []\<rparr>
      in fold (refuse_command (tk_gone tk \<union> late)) (tk_mailbox tk1) tk2)"


section \<open>Permits\<close>

text \<open>
  Every permit of a slot is free, in a lease, or in the hand of the handler (\<open>held\<close>). The slots fill no more than
  half of the address space, as every allocation does.
\<close>

definition permits_ok :: "('m \<Rightarrow> nat) \<Rightarrow> nat list \<Rightarrow> usize option \<Rightarrow> 'm pool_core \<Rightarrow> usize list \<Rightarrow> bool" where
  "permits_ok v caps held core leases \<longleftrightarrow> length (core_slots core) = length caps \<and>
     (\<forall>i < length caps. v (core_slots core ! i) + count_list leases i + (if held = Some i then 1 else 0) = caps ! i) \<and>
     (\<forall>i \<in> set leases \<union> set_option held. i < length caps)"

definition exhausted :: "('m \<Rightarrow> nat) \<Rightarrow> 'm pool_core \<Rightarrow> bool" where
  "exhausted v core \<longleftrightarrow> (\<forall>m \<in> set (core_slots core). v m = 0)"

lemma semaphore_cases:
  assumes "semaphore_documented sl v"
  obtains m' where "sem_try_acquire sl m = (m', True)" "v m = v m' + 1" | m' where "sem_try_acquire sl m = (m', False)" "v m = 0" "v m' = 0"
proof (cases "sem_try_acquire sl m")
  case (Pair m' b)
  have "b \<longleftrightarrow> 0 < v m" "v m' = v m - 1"
    using assms Pair unfolding semaphore_documented_def by (metis fst_conv snd_conv)+
  then show thesis using that Pair by (cases b) auto
qed

lemma release_permit_ok:
  assumes "semaphore_documented sl v" and "permits_ok v caps (Some i) core leases"
  shows "permits_ok v caps None (release_permit_of sl i core) leases"
proof -
  have "v (sem_release sl m) = v m + 1" for m using assms(1) by (simp add: semaphore_documented_def)
  moreover have "i < length caps" using assms(2) by (simp add: permits_ok_def)
  ultimately show ?thesis
    using assms(2) by (auto simp: permits_ok_def release_permit_of_def nth_list_update)
qed

lemma probe_slots_ok:
  assumes "semaphore_documented sl v" and "permits_ok v caps None core leases" and "probe_slots sl is core = (core', r)"
  shows "permits_ok v caps r core' leases \<and> core_shutdown core' = core_shutdown core \<and>
    (\<forall>j < length caps. v (core_slots core' ! j) \<le> v (core_slots core ! j)) \<and>
    (r = None \<longrightarrow> (\<forall>i \<in> set is. i < length caps \<longrightarrow> v (core_slots core' ! i) = 0))"
  using assms(2,3)
proof (induction "is" arbitrary: core)
  case (Cons i "is")
  show ?case
  proof (cases "i < length (core_slots core)")
    case True
    let ?m = "core_slots core ! i"
    have len: "length (core_slots core) = length caps" using Cons.prems(1) by (simp add: permits_ok_def)
    from assms(1) show ?thesis
    proof (cases rule: semaphore_cases [where m = ?m])
      case (1 m')
      then have "core' = core\<lparr>core_slots := (core_slots core)[i := m']\<rparr>" "r = Some i"
        using Cons.prems(2) True by simp_all
      then show ?thesis
        using Cons.prems(1) 1(2) True by (auto simp: permits_ok_def nth_list_update)
    next
      case (2 m')
      let ?core = "core\<lparr>core_slots := (core_slots core)[i := m']\<rparr>"
      have ok: "permits_ok v caps None ?core leases"
        using Cons.prems(1) 2 True by (auto simp: permits_ok_def nth_list_update)
      have "probe_slots sl is ?core = (core', r)" using Cons.prems(2) 2 True by simp
      from Cons.IH [OF ok this] have ih: "permits_ok v caps r core' leases" "core_shutdown core' = core_shutdown core"
        "\<forall>j < length caps. v (core_slots core' ! j) \<le> v ((core_slots core)[i := m'] ! j)"
        "r = None \<longrightarrow> (\<forall>i \<in> set is. i < length caps \<longrightarrow> v (core_slots core' ! i) = 0)" by simp_all
      have le: "v ((core_slots core)[i := m'] ! j) \<le> v (core_slots core ! j)" for j
        using 2 True by (simp add: nth_list_update)
      have "v (core_slots core' ! i) = 0" using ih(3) [rule_format, of i] 2 True len by simp
      moreover have "v (core_slots core' ! j) \<le> v (core_slots core ! j)" if "j < length caps" for j
        using ih(3) [rule_format, OF that] le [of j] by (rule order_trans)
      ultimately show ?thesis using ih(1,2,4) by simp
    qed
  next
    case False
    moreover have "length (core_slots core) = length caps" using Cons.prems(1) by (simp add: permits_ok_def)
    ultimately show ?thesis using Cons.IH [OF Cons.prems(1)] Cons.prems(2) by simp
  qed
qed simp

lemma rotation_covers:
  assumes "start < len" and "2 * len \<le> usize_max"
  shows "set (rotation_indices len start) = {..<len}"
proof -
  have "(\<lambda>offset. ((start + offset) mod (usize_max + 1)) mod max len 1) ` {0..<len} = (\<lambda>offset. (start + offset) mod len) ` {0..<len}"
    using assms by (intro image_cong) auto
  also have "\<dots> = {..<len}"
  proof -
    have "i \<in> (\<lambda>offset. (start + offset) mod len) ` {0..<len}" if "i < len" for i
    proof (cases "start \<le> i")
      case True
      then show ?thesis using that by (intro image_eqI [of _ _ "i - start"]) auto
    next
      case False
      then show ?thesis using that assms(1) by (intro image_eqI [of _ _ "i + len - start"]) auto
    qed
    then show ?thesis using assms(1) by auto
  qed
  finally show ?thesis by (simp add: rotation_indices_def)
qed

lemma try_acquire_ok:
  assumes "semaphore_documented sl v" and "permits_ok v caps None core leases" and "2 * length caps \<le> usize_max"
    and "try_acquire_permit sl core = (core', r)"
  shows "permits_ok v caps r core' leases \<and> core_shutdown core' = core_shutdown core \<and>
    (r = None \<longrightarrow> core_shutdown core \<or> exhausted v core')"
proof (cases "core_shutdown core")
  case True
  then show ?thesis using assms(2,4) by (simp add: try_acquire_permit_def)
next
  case False
  obtain core1 "is" where order: "ordered_slot_indices core = (core1, is)" by fastforce
  have core1: "core_slots core1 = core_slots core" "core_shutdown core1 = core_shutdown core"
    using order by (auto simp: ordered_slot_indices_def Let_def split: if_splits)
  have len: "length (core_slots core) = length caps" using assms(2) by (simp add: permits_ok_def)
  have all: "set is = {..<length caps}"
    using order rotation_covers [OF _ assms(3)] len
    by (auto simp: ordered_slot_indices_def Let_def rotation_start_def rotation_indices_def split: if_splits)
  have ok1: "permits_ok v caps None core1 leases" using assms(2) core1 by (simp add: permits_ok_def)
  obtain core2 sel where probe: "probe_slots sl is core1 = (core2, sel)" by fastforce
  note probed = probe_slots_ok [OF assms(1) ok1 probe]
  then have "core' = core2" "r = sel" using assms(4) False order probe core1(2) by (simp_all add: try_acquire_permit_def)
  then show ?thesis
    using probed core1 all by (auto simp: exhausted_def permits_ok_def in_set_conv_nth)
qed


section \<open>Requests\<close>

fun command_waiter :: "'w scheduler_command \<Rightarrow> 'w list" where
  "command_waiter (Acquire h w) = [w]"
| "command_waiter (DeregisterHandle h) = []"

text \<open>The requests the task knows of: queued, answered, or still in the mailbox.\<close>

definition known :: "('m, 'w) scheduler_task \<Rightarrow> 'w multiset" where
  "known tk = waiting (tk_state tk) + mset (map fst (tk_replies tk)) + mset (concat (map command_waiter (tk_mailbox tk)))"

text \<open>
  A handler that is given the requests \<open>new\<close> loses none but those of callers that have gone and of sessions
  that have been dropped.
\<close>

definition accounts :: "'w set \<Rightarrow> 'w multiset \<Rightarrow> ('m, 'w) scheduler_task \<Rightarrow> ('m, 'w) scheduler_task \<Rightarrow> bool" where
  "accounts late new tk tk' \<longleftrightarrow> (\<exists>lost. known tk + new = known tk' + lost \<and>
     set_mset lost \<subseteq> tk_gone tk \<union> late \<union> tk_forgotten tk') \<and> tk_forgotten tk \<subseteq> tk_forgotten tk'"

definition same_env :: "('m, 'w) scheduler_task \<Rightarrow> ('m, 'w) scheduler_task \<Rightarrow> bool" where
  "same_env tk tk' \<longleftrightarrow> tk_admission tk' = tk_admission tk \<and> tk_gone tk' = tk_gone tk \<and> tk_submitted tk' = tk_submitted tk \<and>
     core_shutdown (tk_core tk') = core_shutdown (tk_core tk)"

definition task_ok :: "('m \<Rightarrow> nat) \<Rightarrow> nat list \<Rightarrow> usize option \<Rightarrow> ('m, 'w) scheduler_task \<Rightarrow> bool" where
  "task_ok v caps held tk \<longleftrightarrow> waiters_inv (fairness_policy (tk_admission tk)) (tk_state tk) \<and>
     permits_ok v caps held (tk_core tk) (tk_leases tk) \<and> 2 * length caps \<le> usize_max"

lemma same_env_refl [simp]: "same_env tk tk"
  by (simp add: same_env_def)

lemma same_env_trans: "same_env tk tk1 \<Longrightarrow> same_env tk1 tk2 \<Longrightarrow> same_env tk tk2"
  by (simp add: same_env_def)

lemma accountsI:
  assumes "known tk + new = known tk' + lost" and "set_mset lost \<subseteq> tk_gone tk \<union> late \<union> tk_forgotten tk'"
    and "tk_forgotten tk \<subseteq> tk_forgotten tk'"
  shows "accounts late new tk tk'"
  using assms unfolding accounts_def by blast

lemma accounts_refl [simp]: "accounts late {#} tk tk"
  by (rule accountsI [where lost = "{#}"]) simp_all

lemma accounts_trans:
  assumes "accounts late new tk tk1" and "accounts late extra tk1 tk2" and "tk_gone tk1 = tk_gone tk"
  shows "accounts late (new + extra) tk tk2"
proof -
  obtain lost1 lost2 where lost: "known tk + new = known tk1 + lost1" "known tk1 + extra = known tk2 + lost2"
    "set_mset lost1 \<subseteq> tk_gone tk \<union> late \<union> tk_forgotten tk1" "set_mset lost2 \<subseteq> tk_gone tk \<union> late \<union> tk_forgotten tk2"
    "tk_forgotten tk \<subseteq> tk_forgotten tk1" "tk_forgotten tk1 \<subseteq> tk_forgotten tk2"
    using assms by (auto simp: accounts_def)
  have "known tk + (new + extra) = known tk2 + (lost1 + lost2)"
    using lost(1,2) by (metis add.assoc add.commute)
  then show ?thesis using lost(3-6) by (intro accountsI [where lost = "lost1 + lost2"]) auto
qed

lemma live_iff: "has_live_waiters closed st \<longleftrightarrow> (\<exists>w \<in># waiting st. \<not> closed w)"
  unfolding has_live_waiters_def waiting_def list_ex_iff case_prod_beta by auto

lemma send_reply_fields [simp]:
  "tk_core (send_reply gone w r tk) = tk_core tk" "tk_state (send_reply gone w r tk) = tk_state tk"
  "tk_leases (send_reply gone w r tk) = tk_leases tk" "tk_admission (send_reply gone w r tk) = tk_admission tk"
  "tk_gone (send_reply gone w r tk) = tk_gone tk" "tk_submitted (send_reply gone w r tk) = tk_submitted tk"
  "tk_forgotten (send_reply gone w r tk) = tk_forgotten tk" "tk_mailbox (send_reply gone w r tk) = tk_mailbox tk"
  "tk_lifecycle (send_reply gone w r tk) = tk_lifecycle tk"
  by (simp_all add: send_reply_def)

lemma send_reply_accounts: "accounts late {#w#} tk (send_reply (tk_gone tk \<union> late) w r tk)"
  by (rule accountsI [where lost = "if w \<in> tk_gone tk \<union> late then {#w#} else {#}"])
    (auto simp: send_reply_def known_def)

text \<open>Delivering uses the permit up: it goes into the lease, or back to the slot.\<close>

lemma deliver_ok:
  assumes "semaphore_documented sl v" and "task_ok v caps (Some i) tk"
  shows "task_ok v caps None (deliver sl (tk_gone tk \<union> late) w i tk) \<and>
    same_env tk (deliver sl (tk_gone tk \<union> late) w i tk) \<and>
    accounts late {#w#} tk (deliver sl (tk_gone tk \<union> late) w i tk) \<and>
    tk_state (deliver sl (tk_gone tk \<union> late) w i tk) = tk_state tk"
proof -
  have i: "i < length (core_slots (tk_core tk))" using assms(2) by (auto simp: task_ok_def permits_ok_def)
  show ?thesis
  proof (cases "w \<in> tk_gone tk \<union> late")
    case True
    then have "deliver sl (tk_gone tk \<union> late) w i tk = tk\<lparr>tk_core := release_permit_of sl i (tk_core tk)\<rparr>"
      using i by (auto simp: deliver_def)
    moreover have "accounts late {#w#} tk (tk\<lparr>tk_core := release_permit_of sl i (tk_core tk)\<rparr>)"
      using True by (intro accountsI [where lost = "{#w#}"]) (auto simp: known_def)
    ultimately show ?thesis
      using assms(2) release_permit_ok [OF assms(1)]
      by (auto simp: task_ok_def same_env_def release_permit_of_def)
  next
    case False
    let ?tk = "tk\<lparr>tk_leases := i # tk_leases tk\<rparr>"
    have eq: "deliver sl (tk_gone tk \<union> late) w i tk = send_reply (tk_gone tk \<union> late) w (Inr i) ?tk"
      using False i by (simp add: deliver_def)
    have "accounts late {#w#} ?tk (send_reply (tk_gone ?tk \<union> late) w (Inr i) ?tk)" by (rule send_reply_accounts)
    then have "accounts late {#w#} tk (send_reply (tk_gone tk \<union> late) w (Inr i) ?tk)"
      by (simp add: accounts_def known_def)
    moreover have "permits_ok v caps None (tk_core tk) (i # tk_leases tk)"
      using assms(2) by (auto simp: task_ok_def permits_ok_def)
    ultimately show ?thesis using assms(2) unfolding eq by (simp add: task_ok_def same_env_def)
  qed
qed


text \<open>Taking a waiter from the queue puts it in the hand of the handler.\<close>

lemma take_accounts:
  assumes "task_ok v caps held tk" and "take_next_waiter (\<lambda>w. w \<in> tk_gone tk) (fairness_policy (tk_admission tk)) (tk_state tk) = (st, r)"
  shows "waiters_inv (fairness_policy (tk_admission tk)) st"
    and "\<exists>lost. waiting (tk_state tk) = waiting st + mset (case r of None \<Rightarrow> [] | Some w \<Rightarrow> [w]) + lost \<and> set_mset lost \<subseteq> tk_gone tk"
    and "r = None \<Longrightarrow> \<not> has_live_waiters (\<lambda>w. w \<in> tk_gone tk) (tk_state tk)"
proof -
  let ?closed = "\<lambda>w. w \<in> tk_gone tk" and ?policy = "fairness_policy (tk_admission tk)"
  have inv: "waiters_inv ?policy (tk_state tk)" using assms(1) by (simp add: task_ok_def)
  show "waiters_inv ?policy st" using waiters.take_inv [OF inv assms(2)] .
  show "\<exists>lost. waiting (tk_state tk) = waiting st + mset (case r of None \<Rightarrow> [] | Some w \<Rightarrow> [w]) + lost \<and> set_mset lost \<subseteq> tk_gone tk"
  proof (cases r)
    case None
    then show ?thesis
      using waiters.take_None [OF inv] assms(2) by (intro exI [of _ "waiting (tk_state tk)"]) auto
  next
    case (Some w)
    then obtain lost where "waiting (tk_state tk) = add_mset w (waiting st + lost)" "\<forall>d \<in># lost. d \<in> tk_gone tk"
      using waiters.take_Some [OF inv assms(2) [unfolded Some]] by blast
    then show ?thesis by (intro exI [of _ lost]) (auto simp: Some)
  qed
  show "r = None \<Longrightarrow> \<not> has_live_waiters ?closed (tk_state tk)"
    using waiters.take_None [OF inv] assms(2) by (auto simp: live_iff)
qed

lemma serve_ok:
  fixes tk :: "('m, 'w) scheduler_task" and late :: "'w set"
  assumes "semaphore_documented sl v" and "task_ok v caps (Some i) (tk\<lparr>tk_core := core\<rparr>)"
    and "core_shutdown core = core_shutdown (tk_core tk)"
    and "take_next_waiter (\<lambda>w. w \<in> tk_gone tk) (fairness_policy (tk_admission tk)) (tk_state tk) = (st, Some w)"
  defines "tk' \<equiv> deliver sl (tk_gone tk \<union> late) w i (tk\<lparr>tk_core := core, tk_state := st\<rparr>)"
  shows "task_ok v caps None tk' \<and> same_env tk tk' \<and> accounts late {#} tk tk' \<and> tk_state tk' = st \<and> waiter_count st < waiter_count (tk_state tk)"
proof -
  let ?tk = "tk\<lparr>tk_core := core, tk_state := st\<rparr>"
  have t: "take_next_waiter (\<lambda>w. w \<in> tk_gone (tk\<lparr>tk_core := core\<rparr>)) (fairness_policy (tk_admission (tk\<lparr>tk_core := core\<rparr>)))
      (tk_state (tk\<lparr>tk_core := core\<rparr>)) = (st, Some w)" using assms(4) by simp
  note taken = take_accounts [OF assms(2) t]
  then obtain lost where lost: "waiting (tk_state tk) = waiting st + {#w#} + lost" "set_mset lost \<subseteq> tk_gone tk" by auto
  have ok: "task_ok v caps (Some i) ?tk" using assms(2) taken(1) by (simp add: task_ok_def)
  note d = deliver_ok [OF assms(1) ok, of late w]
  have "same_env tk ?tk" using assms(3) by (simp add: same_env_def)
  moreover obtain lost2 where "known ?tk + {#w#} = known tk' + lost2" "set_mset lost2 \<subseteq> tk_gone tk \<union> late \<union> tk_forgotten tk'"
    "tk_forgotten tk \<subseteq> tk_forgotten tk'" using d by (auto simp: accounts_def tk'_def)
  moreover have "known tk = known ?tk + {#w#} + lost" using lost(1) by (simp add: known_def ac_simps)
  ultimately have "accounts late {#} tk tk'" using lost(2) by (intro accountsI [where lost = "lost2 + lost"]) (auto simp: ac_simps)
  moreover have "waiter_count st < waiter_count (tk_state tk)" using lost(1) size_waiting [of st] size_waiting [of "tk_state tk"] by simp
  ultimately show ?thesis using d \<open>same_env tk ?tk\<close> same_env_trans [of tk ?tk tk'] by (simp add: tk'_def)
qed

text \<open>The sweep ends with every waiter gone, every permit used, or the pool shut down.\<close>

lemma grant_loop_ok:
  assumes "semaphore_documented sl v" and "task_ok v caps None tk" and "waiter_count (tk_state tk) < n"
  shows "task_ok v caps None (grant_loop n sl late tk) \<and> same_env tk (grant_loop n sl late tk) \<and>
    accounts late {#} tk (grant_loop n sl late tk) \<and>
    waiter_count (tk_state (grant_loop n sl late tk)) \<le> waiter_count (tk_state tk) \<and>
    (has_live_waiters (\<lambda>w. w \<in> tk_gone tk) (tk_state (grant_loop n sl late tk)) \<longrightarrow>
       core_shutdown (tk_core tk) \<or> exhausted v (tk_core (grant_loop n sl late tk)))"
  using assms(2,3)
proof (induction n arbitrary: tk)
  case (Suc n)
  let ?live = "has_live_waiters (\<lambda>w. w \<in> tk_gone tk) (tk_state tk)"
  show ?case
  proof (cases ?live)
    case False
    then show ?thesis using Suc.prems by simp
  next
    case True
    obtain core r where acq: "try_acquire_permit sl (tk_core tk) = (core, r)" by fastforce
    note tried = try_acquire_ok [OF assms(1) _ _ acq, of caps "tk_leases tk"]
    have ok: "task_ok v caps r (tk\<lparr>tk_core := core\<rparr>)" and shut: "core_shutdown core = core_shutdown (tk_core tk)"
      and none: "r = None \<Longrightarrow> core_shutdown (tk_core tk) \<or> exhausted v core"
      using tried Suc.prems(1) by (auto simp: task_ok_def)
    show ?thesis
    proof (cases r)
      case None
      have "accounts late {#} tk (tk\<lparr>tk_core := core\<rparr>)" by (rule accountsI [where lost = "{#}"]) (simp_all add: known_def)
      then show ?thesis using True acq None ok none shut by (simp add: same_env_def)
    next
      case (Some i)
      obtain st t where take: "take_next_waiter (\<lambda>w. w \<in> tk_gone tk) (fairness_policy (tk_admission tk)) (tk_state tk) = (st, t)"
        by fastforce
      obtain w where t: "t = Some w" using take_accounts(3) [OF Suc.prems(1) take] True by (cases t) auto
      let ?tk = "deliver sl (tk_gone tk \<union> late) w i (tk\<lparr>tk_core := core, tk_state := st\<rparr>)"
      note served = serve_ok [OF assms(1) ok [unfolded Some] shut take [unfolded t], of late]
      have eq: "grant_loop (Suc n) sl late tk = grant_loop n sl late ?tk" using True acq Some take t by simp
      have same: "tk_gone ?tk = tk_gone tk" "core_shutdown (tk_core ?tk) = core_shutdown (tk_core tk)"
        using served by (simp_all add: same_env_def)
      have "task_ok v caps None ?tk" "waiter_count (tk_state ?tk) < n" using served Suc.prems(2) by simp_all
      from Suc.IH [OF this] served same show ?thesis
        unfolding eq using accounts_trans [of late "{#}" tk ?tk "{#}"] by (auto intro: same_env_trans)
    qed
  qed
qed simp


lemma grant_sweep_ok:
  assumes "semaphore_documented sl v" and "task_ok v caps None tk"
  shows "task_ok v caps None (grant_sweep sl late tk)" "same_env tk (grant_sweep sl late tk)"
    "accounts late {#} tk (grant_sweep sl late tk)"
    "waiter_count (tk_state (grant_sweep sl late tk)) \<le> waiter_count (tk_state tk)"
    "has_live_waiters (\<lambda>w. w \<in> tk_gone tk) (tk_state (grant_sweep sl late tk)) \<Longrightarrow>
       core_shutdown (tk_core tk) \<or> exhausted v (tk_core (grant_sweep sl late tk))"
  using grant_loop_ok [OF assms, of "Suc (waiter_count (tk_state tk))" late] unfolding grant_sweep_def by blast+

lemma accounts_cong:
  assumes "known tk1 = known tk" and "tk_gone tk1 = tk_gone tk" and "tk_forgotten tk1 = tk_forgotten tk"
    and "known tk2 = known tk'" and "tk_forgotten tk2 = tk_forgotten tk'"
  shows "accounts late new tk1 tk2 = accounts late new tk tk'"
  using assms by (simp add: accounts_def)

lemma handle_acquire_ok:
  assumes "semaphore_documented sl v" and "task_ok v caps None tk" and "waiter_count (tk_state tk) \<le> max_waiters (tk_admission tk)"
  shows "task_ok v caps None (handle_acquire sl late h w tk) \<and> same_env tk (handle_acquire sl late h w tk) \<and>
    accounts late {#w#} tk (handle_acquire sl late h w tk) \<and>
    waiter_count (tk_state (handle_acquire sl late h w tk)) \<le> max_waiters (tk_admission tk)"
proof (cases "tk_lifecycle tk = Running")
  case False
  then show ?thesis
    using assms(2,3) send_reply_accounts [of late w tk]
    by (simp add: handle_acquire_def task_ok_def same_env_def)
next
  case True
  let ?adm = "tk_admission tk" and ?closed = "\<lambda>w. w \<in> tk_gone tk"
  obtain st r where enq: "enqueue_waiter ?closed h w ?adm (tk_state tk) = (st, r)" by fastforce
  note e = enqueue_waiter_cases [OF _ enq]
  let ?tk = "tk\<lparr>tk_state := st\<rparr>"
  define lost where "lost = filter_mset ?closed (waiting (tk_state tk))"
  have split: "waiting (tk_state tk) = filter_mset (\<lambda>w. \<not> ?closed w) (waiting (tk_state tk)) + lost"
    unfolding lost_def by (metis multiset_partition add.commute)
  have gone: "set_mset lost \<subseteq> tk_gone tk" by (auto simp: lost_def)
  have ok: "task_ok v caps None ?tk" "same_env tk ?tk" using e assms(2) by (auto simp: task_ok_def same_env_def)
  consider "r = Saturated w" "waiting st + lost = waiting (tk_state tk)"
    | "r = Enqueued" "waiting st + lost = waiting (tk_state tk) + {#w#}" "waiter_count st \<le> max_waiters ?adm"
    using e assms(2) split by (auto simp: task_ok_def)
  then show ?thesis
  proof cases
    case 1
    let ?tk' = "send_reply (tk_gone tk \<union> late) w (Inl (PoolSaturated (max_waiters ?adm))) ?tk"
    have "waiter_count st \<le> waiter_count (tk_state tk)"
      using arg_cong [OF 1(2), of size] by (simp add: size_waiting [symmetric])
    moreover have "accounts late {#} tk ?tk"
      using 1(2) gone by (intro accountsI [where lost = lost]) (auto simp: known_def ac_simps)
    then have "accounts late {#w#} tk ?tk'"
      using accounts_trans [of late "{#}" tk ?tk "{#w#}" ?tk'] send_reply_accounts [of late w ?tk] by simp
    ultimately show ?thesis
      using ok assms(3) True enq 1(1) by (simp add: handle_acquire_def Let_def task_ok_def same_env_def)
  next
    case 2
    let ?tk1 = "grant_sweep sl late ?tk"
    have acc: "accounts late {#w#} tk ?tk"
      using 2(2) gone by (intro accountsI [where lost = lost]) (auto simp: known_def ac_simps)
    have g: "task_ok v caps None ?tk1" "same_env ?tk ?tk1" "accounts late {#} ?tk ?tk1" "waiter_count (tk_state ?tk1) \<le> waiter_count st"
      using grant_sweep_ok [OF assms(1) ok(1), of late] by simp_all
    have "accounts late {#w#} tk ?tk1" using accounts_trans [OF acc g(3)] by simp
    then have "accounts late {#w#} tk (?tk1\<lparr>tk_capacity_waits := n\<rparr>)" for n
      using accounts_cong [of tk tk "?tk1\<lparr>tk_capacity_waits := n\<rparr>" ?tk1] by (simp add: known_def)
    then show ?thesis
      using g 2 True enq ok(2) \<open>accounts late {#w#} tk ?tk1\<close> same_env_trans [OF ok(2) g(2)]
      by (auto simp: handle_acquire_def Let_def task_ok_def same_env_def)
  qed
qed

lemma fold_send_reply:
  "tk_core (fold (\<lambda>w. send_reply gone w r) ws tk) = tk_core tk \<and> tk_state (fold (\<lambda>w. send_reply gone w r) ws tk) = tk_state tk \<and>
   tk_leases (fold (\<lambda>w. send_reply gone w r) ws tk) = tk_leases tk \<and> tk_admission (fold (\<lambda>w. send_reply gone w r) ws tk) = tk_admission tk \<and>
   tk_gone (fold (\<lambda>w. send_reply gone w r) ws tk) = tk_gone tk \<and> tk_submitted (fold (\<lambda>w. send_reply gone w r) ws tk) = tk_submitted tk \<and>
   tk_forgotten (fold (\<lambda>w. send_reply gone w r) ws tk) = tk_forgotten tk \<and> tk_mailbox (fold (\<lambda>w. send_reply gone w r) ws tk) = tk_mailbox tk \<and>
   tk_lifecycle (fold (\<lambda>w. send_reply gone w r) ws tk) = tk_lifecycle tk \<and>
   tk_replies (fold (\<lambda>w. send_reply gone w r) ws tk) = tk_replies tk @ map (\<lambda>w. (w, r)) (filter (\<lambda>w. w \<notin> gone) ws)"
  by (induction ws arbitrary: tk) (auto simp: send_reply_def)

text \<open>Refusing: the queues are empty afterwards and everyone who still listens has the error.\<close>

lemma refuse_waiters_ok:
  fixes tk :: "('m, 'w) scheduler_task" and late :: "'w set" and e :: client_error
  assumes "task_ok v caps held tk"
  defines "tk' \<equiv> refuse_waiters late e tk"
  shows "task_ok v caps held tk' \<and> same_env tk tk' \<and> accounts late {#} tk tk' \<and> waiting (tk_state tk') = {#} \<and>
    tk_lifecycle tk' = tk_lifecycle tk \<and> tk_mailbox tk' = tk_mailbox tk \<and> tk_leases tk' = tk_leases tk \<and>
    (\<exists>ws. mset ws = filter_mset (\<lambda>w. w \<notin> tk_gone tk \<union> late) (waiting (tk_state tk)) \<and>
      tk_replies tk' = tk_replies tk @ map (\<lambda>w. (w, Inl e)) ws)"
proof -
  let ?closed = "\<lambda>w. w \<in> tk_gone tk" and ?gone = "tk_gone tk \<union> late"
  have inv: "waiters_inv (fairness_policy (tk_admission tk)) (tk_state tk)" using assms(1) by (simp add: task_ok_def)
  obtain st ws where d: "drain_waiters (Suc (waiter_count (tk_state tk)))
      (take_next_waiter ?closed (fairness_policy (tk_admission tk))) (tk_state tk) = (st, ws)" by fastforce
  have drained: "waiters_inv (fairness_policy (tk_admission tk)) st" "waiting st = {#}"
    "mset ws = filter_mset (\<lambda>w. \<not> ?closed w) (waiting (tk_state tk))"
    using waiters.take_loop [OF inv _ d] by (simp_all add: size_waiting)
  have tk': "tk' = fold (\<lambda>w. send_reply ?gone w (Inl e)) ws (tk\<lparr>tk_state := st\<rparr>)"
    unfolding tk'_def refuse_waiters_def d by simp
  note f = fold_send_reply [of ?gone "Inl e" ws "tk\<lparr>tk_state := st\<rparr>", folded tk']
  let ?ws = "filter (\<lambda>w. w \<notin> ?gone) ws"
  have served: "mset ?ws = filter_mset (\<lambda>w. w \<notin> ?gone) (waiting (tk_state tk))"
    using drained(3) by (auto simp: filter_filter_mset intro: filter_mset_cong)
  have "known tk + {#} = known tk' + filter_mset (\<lambda>w. \<not> (w \<notin> ?gone)) (waiting (tk_state tk))"
    using f drained(2) served by (simp add: known_def comp_def)
  then have "accounts late {#} tk tk'" using f by (intro accountsI) auto
  then show ?thesis using f assms(1) drained served by (auto simp: task_ok_def same_env_def intro!: exI [of _ ?ws])
qed


section \<open>Steps\<close>

datatype 'w task_event =
  Submit "'w scheduler_command"
| HandleCommand "'w set"
| PermitOutcome "client_error + usize" "'w set"
| DrainShutdown "'w set"
| CallerGone 'w
| LeaseReturned usize
| ShutdownPool
| MailboxEnded

text \<open>
  A command enters the mailbox while it is open, each with a reply channel of its own. A permit can be
  won only from a slot that has one. When the mailbox has ended the task returns and drops its queues, so
  those requests are forgotten. After a handler, the callers in \<open>late\<close> are among those that have gone.
\<close>

definition gone_late :: "'w set \<Rightarrow> ('m, 'w) scheduler_task \<Rightarrow> ('m, 'w) scheduler_task" where
  "gone_late late tk = tk\<lparr>tk_gone := tk_gone tk \<union> late\<rparr>"

fun task_move :: "'m semaphore_lib \<Rightarrow> 'w task_event \<Rightarrow> ('m, 'w) scheduler_task \<Rightarrow> ('m, 'w) scheduler_task option" where
  "task_move sl (Submit c) tk =
     (if tk_mailbox_closed tk \<or> \<not> set (command_waiter c) \<inter> set (tk_submitted tk) = {} then None
      else Some (tk\<lparr>tk_mailbox := tk_mailbox tk @ [c], tk_submitted := tk_submitted tk @ command_waiter c\<rparr>))"
| "task_move sl (HandleCommand late) tk =
     (case tk_mailbox tk of [] \<Rightarrow> None | c # cs \<Rightarrow> Some (gone_late late (handle_command sl late c (tk\<lparr>tk_mailbox := cs\<rparr>))))"
| "task_move sl (PermitOutcome (Inr i) late) tk =
     (if i < length (core_slots (tk_core tk))
      then case sem_try_acquire sl (core_slots (tk_core tk) ! i) of
             (m, True) \<Rightarrow> Some (gone_late late (handle_permit_outcome sl late (Some (Inr i))
                 (tk\<lparr>tk_core := (tk_core tk)\<lparr>core_slots := (core_slots (tk_core tk))[i := m]\<rparr>\<rparr>)))
           | (m, False) \<Rightarrow> None
      else None)"
| "task_move sl (PermitOutcome (Inl e) late) tk = Some (gone_late late (handle_permit_outcome sl late (Some (Inl e)) tk))"
| "task_move sl (DrainShutdown late) tk =
     (if core_shutdown (tk_core tk) then Some (gone_late late (drain_for_shutdown late tk)) else None)"
| "task_move sl (CallerGone w) tk = Some (gone_late {w} tk)"
| "task_move sl (LeaseReturned i) tk =
     (if i \<in> set (tk_leases tk)
      then Some (tk\<lparr>tk_leases := remove1 i (tk_leases tk), tk_core := release_permit_of sl i (tk_core tk)\<rparr>) else None)"
| "task_move sl ShutdownPool tk = Some (tk\<lparr>tk_core := shutdown_core (tk_core tk)\<rparr>)"
| "task_move sl MailboxEnded tk =
     (if tk_mailbox tk = []
      then Some (tk\<lparr>tk_lifecycle := mark_lifecycle_closed (tk_lifecycle tk), tk_mailbox_closed := True,
                    tk_state := scheduler_state_new, tk_forgotten := tk_forgotten tk \<union> set_mset (waiting (tk_state tk))\<rparr>)
      else None)"

definition task_step :: "'m semaphore_lib \<Rightarrow> ('m, 'w) scheduler_task \<Rightarrow> 'w task_event \<Rightarrow> ('m, 'w) scheduler_task \<Rightarrow> bool" where
  "task_step sl tk e tk' \<longleftrightarrow> task_move sl e tk = Some tk'"

definition task_start ::
    "('m \<Rightarrow> nat) \<Rightarrow> nat list \<Rightarrow> waiter_admission \<Rightarrow> ('m, 'w) scheduler_task \<Rightarrow> bool" where
  "task_start v caps adm tk \<longleftrightarrow>
     (\<exists>slots. tk = scheduler_task_new (pool_core_new slots) adm \<and> map v slots = caps \<and> 2 * length slots \<le> usize_max)"

definition task_inv :: "('m \<Rightarrow> nat) \<Rightarrow> nat list \<Rightarrow> waiter_admission \<Rightarrow> ('m, 'w) scheduler_task \<Rightarrow> bool" where
  "task_inv v caps adm tk \<longleftrightarrow> tk_admission tk = adm \<and> task_ok v caps None tk \<and> waiter_count (tk_state tk) \<le> max_waiters adm \<and>
     distinct (tk_submitted tk) \<and>
     (\<exists>lost. mset (tk_submitted tk) = known tk + lost \<and> set_mset lost \<subseteq> tk_gone tk \<union> tk_forgotten tk)"

text \<open>A handler that accounts for its requests keeps the invariant.\<close>

lemma handled_inv:
  assumes "task_inv v caps adm tk" and "tk_mailbox tk = ms @ tk_mailbox tk0" and f: "tk_state tk0 = tk_state tk" "tk_replies tk0 = tk_replies tk"
      "tk_gone tk0 = tk_gone tk" "tk_forgotten tk0 = tk_forgotten tk"
    and acc: "accounts late (mset (concat (map command_waiter ms))) tk0 tk'" and env: "tk_admission tk' = adm"
      "tk_gone tk' = tk_gone tk" "tk_submitted tk' = tk_submitted tk"
    and ok: "task_ok v caps None tk'" "waiter_count (tk_state tk') \<le> max_waiters adm"
  shows "task_inv v caps adm (gone_late late tk')"
proof -
  have k: "known tk = known tk0 + mset (concat (map command_waiter ms))" using f assms(2) by (simp add: known_def)
  obtain lost where lost: "mset (tk_submitted tk) = known tk + lost" "set_mset lost \<subseteq> tk_gone tk \<union> tk_forgotten tk"
    using assms(1) by (auto simp: task_inv_def)
  obtain lost2 where lost2: "known tk0 + mset (concat (map command_waiter ms)) = known tk' + lost2"
    "set_mset lost2 \<subseteq> tk_gone tk \<union> late \<union> tk_forgotten tk'" "tk_forgotten tk \<subseteq> tk_forgotten tk'"
    using acc f by (auto simp: accounts_def)
  have g: "known (gone_late late tk') = known tk'" "task_ok v caps None (gone_late late tk')"
    using ok(1) by (simp_all add: gone_late_def known_def task_ok_def)
  have "mset (tk_submitted tk') = known (gone_late late tk') + (lost2 + lost)"
    unfolding g using env(3) lost(1) k lost2(1) by (simp add: add.assoc)
  moreover have "set_mset (lost2 + lost) \<subseteq> tk_gone (gone_late late tk') \<union> tk_forgotten (gone_late late tk')"
    using lost(2) lost2(2,3) env(2) by (auto simp: gone_late_def)
  moreover have "distinct (tk_submitted tk')" using assms(1) env(3) by (simp add: task_inv_def)
  ultimately show ?thesis using env(1) ok(2) g(2) unfolding task_inv_def by (auto simp: gone_late_def)
qed


lemma submit_inv:
  assumes "task_inv v caps adm tk" and "task_move sl (Submit c) tk = Some tk'"
  shows "task_inv v caps adm tk'"
proof -
  have tk': "tk' = tk\<lparr>tk_mailbox := tk_mailbox tk @ [c], tk_submitted := tk_submitted tk @ command_waiter c\<rparr>"
    and fresh: "set (command_waiter c) \<inter> set (tk_submitted tk) = {}"
    using assms(2) by (auto split: if_splits)
  have "known tk' = known tk + mset (command_waiter c)" by (simp add: tk' known_def)
  moreover have "distinct (command_waiter c)" by (cases c) simp_all
  ultimately show ?thesis using assms(1) fresh by (auto simp: task_inv_def tk' task_ok_def)
qed

lemma command_inv:
  assumes "semaphore_documented sl v" and "task_inv v caps adm tk" and "task_move sl (HandleCommand late) tk = Some tk'"
  shows "task_inv v caps adm tk'"
proof -
  obtain c cs where m: "tk_mailbox tk = c # cs" and tk': "tk' = gone_late late (handle_command sl late c (tk\<lparr>tk_mailbox := cs\<rparr>))"
    using assms(3) by (auto split: list.splits)
  let ?tk = "tk\<lparr>tk_mailbox := cs\<rparr>"
  have ok: "task_ok v caps None ?tk" "waiter_count (tk_state ?tk) \<le> max_waiters (tk_admission ?tk)" "tk_admission tk = adm"
    using assms(2) by (auto simp: task_inv_def task_ok_def)
  have "task_ok v caps None (handle_command sl late c ?tk) \<and> same_env ?tk (handle_command sl late c ?tk) \<and>
      accounts late (mset (command_waiter c)) ?tk (handle_command sl late c ?tk) \<and>
      waiter_count (tk_state (handle_command sl late c ?tk)) \<le> max_waiters adm"
  proof (cases c)
    case (Acquire h w)
    then show ?thesis using handle_acquire_ok [OF assms(1) ok(1,2)] ok(3) by (simp add: handle_command_def)
  next
    case (DeregisterHandle h)
    let ?st = "tk_state tk" and ?st' = "deregister_handle h (tk_state tk)"
    have sub: "waiting ?st' \<subseteq># waiting ?st" by (rule deregister_waiting)
    then have "waiting ?st = waiting ?st' + (waiting ?st - waiting ?st')" by simp
    then have "accounts late {#} ?tk (handle_command sl late c ?tk)"
      by (intro accountsI [where lost = "waiting ?st - waiting ?st'"])
        (auto simp: known_def DeregisterHandle handle_command_def ac_simps)
    moreover have "waiter_count ?st' \<le> waiter_count ?st" using size_mset_mono [OF sub] by (simp add: size_waiting)
    ultimately show ?thesis
      using ok by (auto simp: DeregisterHandle handle_command_def task_ok_def same_env_def deregister_inv)
  qed
  then show ?thesis
    unfolding tk' using ok(3) m
    by (intro handled_inv [OF assms(2), of "[c]" ?tk]) (auto simp: same_env_def)
qed

lemma won_ok:
  fixes tk :: "('m, 'w) scheduler_task"
  assumes "semaphore_documented sl v" and "task_ok v caps (Some i) tk"
  shows "task_ok v caps None (on_permit_won sl late i tk) \<and> same_env tk (on_permit_won sl late i tk) \<and>
    accounts late {#} tk (on_permit_won sl late i tk) \<and>
    waiter_count (tk_state (on_permit_won sl late i tk)) \<le> waiter_count (tk_state tk)"
proof -
  define tk1 where "tk1 = on_permit_won sl late i tk"
  obtain st r where take: "take_next_waiter (\<lambda>w. w \<in> tk_gone tk) (fairness_policy (tk_admission tk)) (tk_state tk) = (st, r)" by fastforce
  have "task_ok v caps None tk1 \<and> same_env tk tk1 \<and> accounts late {#} tk tk1 \<and> waiter_count (tk_state tk1) \<le> waiter_count (tk_state tk)"
  proof (cases r)
    case None
    then have eq: "tk1 = tk\<lparr>tk_state := st, tk_core := release_permit_of sl i (tk_core tk)\<rparr>"
      using take by (simp add: tk1_def on_permit_won_def)
    obtain lost where lost: "waiting (tk_state tk) = waiting st + lost" "set_mset lost \<subseteq> tk_gone tk"
      using take_accounts(2) [OF assms(2) take] None by auto
    have "waiter_count st \<le> waiter_count (tk_state tk)" using lost(1) by (simp add: size_waiting [symmetric])
    moreover have "accounts late {#} tk tk1"
      using lost by (intro accountsI [where lost = lost]) (auto simp: eq known_def ac_simps)
    ultimately show ?thesis
      using take_accounts(1) [OF assms(2) take] assms(2) release_permit_ok [OF assms(1)]
      by (auto simp: eq task_ok_def same_env_def release_permit_of_def)
  next
    case (Some w)
    have "task_ok v caps (Some i) (tk\<lparr>tk_core := tk_core tk\<rparr>)" using assms(2) by simp
    from serve_ok [OF assms(1) this refl take [unfolded Some], of late] show ?thesis
      using take Some by (simp add: tk1_def on_permit_won_def)
  qed
  then show ?thesis unfolding tk1_def .
qed

lemma permit_inv:
  assumes "semaphore_documented sl v" and "task_inv v caps adm tk" and "task_move sl (PermitOutcome (Inr i) late) tk = Some tk'"
  shows "task_inv v caps adm tk'"
    "has_live_waiters (\<lambda>w. w \<in> tk_gone tk) (tk_state tk') \<Longrightarrow> core_shutdown (tk_core tk) \<or> exhausted v (tk_core tk')"
proof -
  obtain m where m: "sem_try_acquire sl (core_slots (tk_core tk) ! i) = (m, True)" "i < length (core_slots (tk_core tk))"
    and tk': "tk' = gone_late late (handle_permit_outcome sl late (Some (Inr i))
      (tk\<lparr>tk_core := (tk_core tk)\<lparr>core_slots := (core_slots (tk_core tk))[i := m]\<rparr>\<rparr>))"
    using assms(3) by (auto split: if_splits prod.splits bool.splits)
  define core where "core = (tk_core tk)\<lparr>core_slots := (core_slots (tk_core tk))[i := m]\<rparr>"
  define tk0 where "tk0 = tk\<lparr>tk_core := core\<rparr>"
  have vm: "v (core_slots (tk_core tk) ! i) = v m + 1"
    using semaphore_cases [OF assms(1), of "core_slots (tk_core tk) ! i"] m(1) by fastforce
  have adm: "tk_admission tk = adm" and count: "waiter_count (tk_state tk) \<le> max_waiters adm" and ok: "task_ok v caps None tk"
    using assms(2) by (simp_all add: task_inv_def)
  have held: "task_ok v caps (Some i) tk0"
    using ok m(2) vm by (auto simp: task_ok_def permits_ok_def tk0_def core_def nth_list_update)
  define tk1 where "tk1 = on_permit_won sl late i tk0"
  note won = won_ok [OF assms(1) held, of late, folded tk1_def]
  note sweep = grant_sweep_ok [OF assms(1) conjunct1 [OF won], of late]
  have eq: "tk' = gone_late late (grant_sweep sl late tk1)"
    by (simp add: tk' tk1_def tk0_def core_def handle_permit_outcome_def)
  have env: "same_env tk0 (grant_sweep sl late tk1)" using same_env_trans won sweep(2) by blast
  have acc: "accounts late {#} tk0 (grant_sweep sl late tk1)"
    using accounts_trans [of late "{#}" tk0 tk1 "{#}"] won sweep(3) by (simp add: same_env_def)
  show "has_live_waiters (\<lambda>w. w \<in> tk_gone tk) (tk_state tk') \<Longrightarrow> core_shutdown (tk_core tk) \<or> exhausted v (tk_core tk')"
    using sweep(5) won by (simp add: eq gone_late_def same_env_def tk0_def core_def)
  show "task_inv v caps adm tk'"
    unfolding eq
    by (rule handled_inv [OF assms(2), of "[]" tk0])
      (use env acc sweep(1,4) won adm count in \<open>auto simp: tk0_def same_env_def\<close>)
qed

lemma race_error_inv:
  assumes "task_inv v caps adm tk"
  shows "task_inv v caps adm (gone_late late (fail_on_race_error late tk))"
proof -
  define l where "l = (if tk_lifecycle tk = Running then mark_lifecycle_failed (tk_lifecycle tk) else tk_lifecycle tk)"
  let ?tk = "tk\<lparr>tk_lifecycle := l\<rparr>" and ?e = "close_error l"
  define tk1 where "tk1 = refuse_waiters late ?e ?tk"
  have ok: "task_ok v caps None ?tk" using assms by (auto simp: task_inv_def task_ok_def)
  note r = refuse_waiters_ok [OF ok, of late ?e, folded tk1_def]
  have eq: "fail_on_race_error late tk = tk1\<lparr>tk_mailbox_closed := True\<rparr>"
    by (simp add: fail_on_race_error_def tk1_def l_def Let_def)
  have "accounts late {#} ?tk (tk1\<lparr>tk_mailbox_closed := True\<rparr>)"
    using r accounts_cong [of ?tk ?tk "tk1\<lparr>tk_mailbox_closed := True\<rparr>" tk1] by (simp add: known_def)
  moreover have "waiter_count (tk_state tk1) = 0" using r by (simp add: size_waiting [symmetric])
  ultimately show ?thesis
    unfolding eq using r assms
    by (intro handled_inv [OF assms, of "[]" ?tk]) (auto simp: same_env_def task_ok_def task_inv_def)
qed

lemma fold_refuse_command:
  "tk_core (fold (refuse_command gone) cs tk) = tk_core tk \<and> tk_state (fold (refuse_command gone) cs tk) = tk_state tk \<and>
   tk_leases (fold (refuse_command gone) cs tk) = tk_leases tk \<and> tk_admission (fold (refuse_command gone) cs tk) = tk_admission tk \<and>
   tk_gone (fold (refuse_command gone) cs tk) = tk_gone tk \<and> tk_submitted (fold (refuse_command gone) cs tk) = tk_submitted tk \<and>
   tk_forgotten (fold (refuse_command gone) cs tk) = tk_forgotten tk \<and> tk_mailbox (fold (refuse_command gone) cs tk) = tk_mailbox tk \<and>
   tk_lifecycle (fold (refuse_command gone) cs tk) = tk_lifecycle tk \<and>
   tk_replies (fold (refuse_command gone) cs tk) =
     tk_replies tk @ map (\<lambda>w. (w, Inl PoolClosed)) (filter (\<lambda>w. w \<notin> gone) (concat (map command_waiter cs)))"
proof (induction cs arbitrary: tk)
  case (Cons c cs)
  then show ?case by (cases c) (simp_all add: send_reply_def)
qed simp

text \<open>What is left of the requests after the drain: all that still listen have the error.\<close>

lemma drain_ok:
  assumes "task_ok v caps None tk"
  shows "task_ok v caps None (drain_for_shutdown late tk) \<and> same_env tk (drain_for_shutdown late tk) \<and>
    accounts late {#} tk (drain_for_shutdown late tk) \<and> waiting (tk_state (drain_for_shutdown late tk)) = {#} \<and>
    tk_mailbox (drain_for_shutdown late tk) = [] \<and> tk_lifecycle (drain_for_shutdown late tk) = mark_lifecycle_closed (tk_lifecycle tk) \<and>
    (\<exists>ws. mset ws = filter_mset (\<lambda>w. w \<notin> tk_gone tk \<union> late)
        (waiting (tk_state tk) + mset (concat (map command_waiter (tk_mailbox tk)))) \<and>
      tk_replies (drain_for_shutdown late tk) = tk_replies tk @ map (\<lambda>w. (w, Inl PoolClosed)) ws)"
proof -
  let ?gone = "tk_gone tk \<union> late"
  define tk0 where "tk0 = tk\<lparr>tk_lifecycle := mark_lifecycle_closed (tk_lifecycle tk)\<rparr>"
  define tk1 where "tk1 = refuse_waiters late PoolClosed tk0"
  define tk2 where "tk2 = tk1\<lparr>tk_mailbox_closed := True, tk_mailbox := []\<rparr>"
  define tk' where "tk' = drain_for_shutdown late tk"
  have ok0: "task_ok v caps None tk0" using assms by (simp add: tk0_def task_ok_def)
  note r = refuse_waiters_ok [OF ok0, of late PoolClosed, folded tk1_def]
  have tk': "tk' = fold (refuse_command ?gone) (tk_mailbox tk) tk2"
    using r by (simp add: tk'_def drain_for_shutdown_def tk0_def tk1_def tk2_def Let_def)
  note f = fold_refuse_command [of ?gone "tk_mailbox tk" tk2, folded tk']
  let ?ms = "concat (map command_waiter (tk_mailbox tk))"
  obtain ws where ws: "mset ws = filter_mset (\<lambda>w. w \<notin> ?gone) (waiting (tk_state tk))" "tk_replies tk1 = tk_replies tk @ map (\<lambda>w. (w, Inl PoolClosed)) ws"
    using r by (auto simp: tk0_def)
  have replies: "tk_replies tk' = tk_replies tk @ map (\<lambda>w. (w, Inl PoolClosed)) (ws @ filter (\<lambda>w. w \<notin> ?gone) ?ms)"
    using f ws(2) by (simp add: tk2_def)
  have all: "mset (ws @ filter (\<lambda>w. w \<notin> ?gone) ?ms) = filter_mset (\<lambda>w. w \<notin> ?gone) (waiting (tk_state tk) + mset ?ms)"
    using ws(1) by simp
  have empty: "waiting (tk_state tk') = {#}" "tk_mailbox tk' = []" using f r by (simp_all add: tk2_def)
  have "known tk + {#} = known tk' + filter_mset (\<lambda>w. \<not> (w \<notin> ?gone)) (waiting (tk_state tk) + mset ?ms)"
    unfolding known_def empty replies map_append map_map comp_def fst_conv map_ident mset_append
    using all multiset_partition [of "waiting (tk_state tk) + mset ?ms" "\<lambda>w. w \<notin> ?gone"] by (simp add: ac_simps)
  then have "accounts late {#} tk tk'" using f r by (intro accountsI) (auto simp: tk0_def tk2_def same_env_def accounts_def)
  moreover have "task_ok v caps None tk'" "same_env tk tk'" "tk_lifecycle tk' = mark_lifecycle_closed (tk_lifecycle tk)"
    using f r by (auto simp: task_ok_def same_env_def tk0_def tk2_def)
  ultimately show ?thesis unfolding tk'_def [symmetric] using empty replies all by blast
qed

lemma drain_inv:
  assumes "task_inv v caps adm tk"
  shows "task_inv v caps adm (gone_late late (drain_for_shutdown late tk))"
proof -
  have ok: "task_ok v caps None tk" "tk_admission tk = adm" using assms by (simp_all add: task_inv_def)
  note d = drain_ok [OF ok(1), of late]
  have "waiter_count (tk_state (drain_for_shutdown late tk)) = 0" using d by (simp add: size_waiting [symmetric])
  then show ?thesis
    using d ok(2) by (intro handled_inv [OF assms, of "[]" tk]) (auto simp: same_env_def)
qed

lemma count_list_remove1:
  "x \<in> set xs \<Longrightarrow> count_list xs y = count_list (remove1 x xs) y + (if x = y then 1 else 0)"
  by (induction xs) auto

lemma lease_returned_inv:
  assumes "semaphore_documented sl v" and "task_inv v caps adm tk" and "i \<in> set (tk_leases tk)"
  shows "task_inv v caps adm (tk\<lparr>tk_leases := remove1 i (tk_leases tk), tk_core := release_permit_of sl i (tk_core tk)\<rparr>)"
proof -
  have "permits_ok v caps None (tk_core tk) (tk_leases tk)" using assms(2) by (simp add: task_inv_def task_ok_def)
  then have "permits_ok v caps (Some i) (tk_core tk) (remove1 i (tk_leases tk))"
    using assms(3) set_remove1_subset [of i "tk_leases tk"]
    unfolding permits_ok_def count_list_remove1 [OF assms(3)] by (auto simp: add.assoc)
  note ok = release_permit_ok [OF assms(1) this]
  show ?thesis using assms(2) ok unfolding task_inv_def task_ok_def by (auto simp: known_def)
qed

lemma ended_inv:
  assumes "task_inv v caps adm tk"
  shows "task_inv v caps adm (tk\<lparr>tk_lifecycle := l, tk_mailbox_closed := b, tk_state := scheduler_state_new,
    tk_forgotten := tk_forgotten tk \<union> set_mset (waiting (tk_state tk))\<rparr>)"
proof -
  obtain lost where lost: "mset (tk_submitted tk) = known tk + lost" "set_mset lost \<subseteq> tk_gone tk \<union> tk_forgotten tk"
    using assms by (auto simp: task_inv_def)
  let ?tk = "tk\<lparr>tk_lifecycle := l, tk_mailbox_closed := b, tk_state := scheduler_state_new,
    tk_forgotten := tk_forgotten tk \<union> set_mset (waiting (tk_state tk))\<rparr>"
  have new: "waiting (scheduler_state_new :: 'b scheduler_state) = {#}" "waiter_count (scheduler_state_new :: 'b scheduler_state) = 0"
    "waiters_inv p (scheduler_state_new :: 'b scheduler_state)" for p
    by (simp_all add: scheduler_state_new_def waiting_def waiter_count_def waiters_inv_def)
  have "mset (tk_submitted tk) = known ?tk + (waiting (tk_state tk) + lost)" using lost(1) by (simp add: known_def new ac_simps)
  moreover have "set_mset (waiting (tk_state tk) + lost) \<subseteq> tk_gone ?tk \<union> tk_forgotten ?tk" using lost(2) by auto
  ultimately have "\<exists>lost. mset (tk_submitted ?tk) = known ?tk + lost \<and> set_mset lost \<subseteq> tk_gone ?tk \<union> tk_forgotten ?tk"
    by (intro exI [of _ "waiting (tk_state tk) + lost"]) simp
  then show ?thesis using assms new unfolding task_inv_def task_ok_def by simp
qed

interpretation scheduling: transition_system
  "task_start v caps adm" "\<lambda>tk e tk'. semaphore_documented sl v \<and> task_step sl tk e tk'" "task_inv v caps adm" for sl v caps adm
proof unfold_locales
  show "task_start v caps adm tk \<Longrightarrow> task_inv v caps adm tk" for tk
    by (auto simp: task_start_def task_inv_def task_ok_def scheduler_task_new_def pool_core_new_def scheduler_state_new_def
        waiters_inv_def permits_ok_def waiter_count_def known_def waiting_def)
  show "task_inv v caps adm t" if inv: "task_inv v caps adm s" and st: "semaphore_documented sl v \<and> task_step sl s e t" for s e t
  proof (cases e)
    case (PermitOutcome r late)
    then show ?thesis using st permit_inv(1) [OF _ inv] race_error_inv [OF inv, of late]
      by (cases r) (auto simp: task_step_def handle_permit_outcome_def)
  next
    case (CallerGone w)
    then show ?thesis using st inv by (auto simp: task_step_def gone_late_def task_inv_def task_ok_def known_def)
  next
    case (LeaseReturned i)
    then show ?thesis using st lease_returned_inv [OF _ inv, of sl i] by (auto simp: task_step_def split: if_splits)
  next
    case ShutdownPool
    then show ?thesis using st inv
      by (auto simp: task_step_def task_inv_def task_ok_def known_def permits_ok_def shutdown_core_def)
  next
    case MailboxEnded
    then show ?thesis using st ended_inv [OF inv] by (auto simp: task_step_def split: if_splits)
  next
    case (Submit c)
    then show ?thesis using st submit_inv [OF inv, of sl c t] by (simp add: task_step_def del: task_move.simps)
  next
    case (HandleCommand late)
    then show ?thesis using st command_inv [of sl v, OF _ inv, of late t] by (simp add: task_step_def del: task_move.simps)
  next
    case (DrainShutdown late)
    then show ?thesis using st drain_inv [OF inv, of late] by (auto simp: task_step_def split: if_splits)
  qed
qed


fun task_moves :: "'m semaphore_lib \<Rightarrow> 'w task_event list \<Rightarrow> ('m, 'w) scheduler_task \<Rightarrow> ('m, 'w) scheduler_task option" where
  "task_moves sl [] tk = Some tk"
| "task_moves sl (e # es) tk = (case task_move sl e tk of None \<Rightarrow> None | Some tk' \<Rightarrow> task_moves sl es tk')"

lemma task_moves_reachable:
  assumes "semaphore_documented sl v" and "reachable init (\<lambda>tk e tk'. semaphore_documented sl v \<and> task_step sl tk e tk') tk"
    and "task_moves sl es tk = Some tk'"
  shows "reachable init (\<lambda>tk e tk'. semaphore_documented sl v \<and> task_step sl tk e tk') tk'"
  using assms(2,3)
proof (induction es arbitrary: tk)
  case (Cons e es)
  then obtain t where t: "task_move sl e tk = Some t" "task_moves sl es t = Some tk'"
    by (auto split: option.splits)
  have "reachable init (\<lambda>tk e tk'. semaphore_documented sl v \<and> task_step sl tk e tk') t"
    using Cons.prems(1) by (rule reachable.move [where e = e]) (use assms(1) t(1) in \<open>simp add: task_step_def\<close>)
  then show ?case using Cons.IH t by blast
qed simp

definition reference_semaphore :: "nat semaphore_lib" where
  "reference_semaphore = \<lparr>sem_try_acquire = (\<lambda>m. (m - 1, 0 < m)), sem_release = Suc\<rparr>"

lemma reference_semaphore_documented: "semaphore_documented reference_semaphore (\<lambda>m. m)"
  by (simp add: semaphore_documented_def reference_semaphore_def)

text \<open>One slot with one permit: the first of two callers has it, the second waits.\<close>

definition sample_admission :: waiter_admission where
  "sample_admission = \<lparr>fairness_policy = Fifo, max_waiters = 2\<rparr>"

definition sample_task :: "(nat, nat) scheduler_task" where
  "sample_task = scheduler_task_new (pool_core_new [1]) sample_admission"

definition sample_events :: "nat task_event list" where
  "sample_events = [Submit (Acquire 1 10), Submit (Acquire 2 20), HandleCommand {}, HandleCommand {}]"

lemmas sample_task_defs = sample_events_def sample_task_def sample_admission_def scheduler_task_new_def pool_core_new_def
  scheduler_state_new_def handle_command_def handle_acquire_def enqueue_waiter_def register_handle_def
  prune_cancelled_waiters_def waiter_count_def grant_sweep_def has_live_waiters_def try_acquire_permit_def
  ordered_slot_indices_def rotation_indices_def rotation_start_def reference_semaphore_def take_next_waiter_def
  take_next_fifo_waiter_def deliver_def send_reply_def has_queued_waiter_def gone_late_def

lemma sample_run:
  "\<exists>tk tk'. task_moves reference_semaphore (take 3 sample_events) sample_task = Some tk \<and> tk_mailbox tk = [Acquire 2 20] \<and>
     tk_gone tk = {} \<and> \<not> core_shutdown (tk_core tk) \<and>
     task_move reference_semaphore (HandleCommand {}) tk = Some tk' \<and> 20 \<in># waiting (tk_state tk')"
  by (simp add: sample_task_defs waiting_def hm_insert_def hm_remove_def Let_def usize_max_def)

lemma sample_shutdown:
  "\<exists>tk. task_moves reference_semaphore (sample_events @ [ShutdownPool]) sample_task = Some tk \<and>
     20 \<in># waiting (tk_state tk) \<and> core_shutdown (tk_core tk)"
  by (simp add: sample_task_defs waiting_def hm_insert_def hm_remove_def Let_def usize_max_def shutdown_core_def)

lemma sample_start: "reachable (task_start (\<lambda>m. m) [1] sample_admission)
    (\<lambda>tk e tk'. semaphore_documented reference_semaphore (\<lambda>m. m) \<and> task_step reference_semaphore tk e tk') sample_task"
  by (rule reachable.start) (auto simp: task_start_def sample_task_def usize_max_def)

lemmas sample_reachable = task_moves_reachable [OF reference_semaphore_documented sample_start]

text \<open>
  C7: The scheduler loses no request and no permit. Whatever commands arrive, permits are won, leases are returned and
  callers go away: every request is answered at most once; a request whose caller still waits, and
  whose session has not left, is in the mailbox, queued, or answered; the queues hold at most
  the configured number of waiters; and the free permits of a slot and the leases granted on it add up to its capacity.
\<close>

theorem scheduler_accounts:
  assumes "reachable (task_start v caps adm) (\<lambda>tk e tk'. semaphore_documented sl v \<and> task_step sl tk e tk') tk"
  shows "distinct (map fst (tk_replies tk)) \<and>
    (\<forall>w \<in> set (tk_submitted tk). w \<notin> tk_gone tk \<and> w \<notin> tk_forgotten tk \<longrightarrow>
       w \<in> set (concat (map command_waiter (tk_mailbox tk))) \<or> w \<in># waiting (tk_state tk) \<or> w \<in> fst ` set (tk_replies tk)) \<and>
    (\<forall>w \<in># waiting (tk_state tk). w \<notin> fst ` set (tk_replies tk)) \<and>
    waiter_count (tk_state tk) \<le> max_waiters adm \<and>
    (\<forall>i < length caps. v (core_slots (tk_core tk) ! i) + count_list (tk_leases tk) i = caps ! i)"
proof -
  have inv: "task_inv v caps adm tk" using assms by (rule scheduling.inv_reachable)
  obtain lost where lost: "mset (tk_submitted tk) = known tk + lost" "set_mset lost \<subseteq> tk_gone tk \<union> tk_forgotten tk"
    and dist: "distinct (tk_submitted tk)" using inv by (auto simp: task_inv_def)
  let ?r = "mset (map fst (tk_replies tk))" and ?w = "waiting (tk_state tk)"
  have once: "count (mset (tk_submitted tk)) w \<le> 1" for w
    using dist by (simp add: distinct_count_atmost_1)
  have parts: "count (mset (tk_submitted tk)) w = count ?w w + count ?r w +
      count (mset (concat (map command_waiter (tk_mailbox tk)))) w + count lost w" for w
    unfolding lost(1) known_def by simp
  have "count ?r w \<le> 1" for w using once [of w] parts [of w] by simp
  then have "distinct (map fst (tk_replies tk))"
    by (metis One_nat_def count_mset_0_iff distinct_count_atmost_1 le_0_eq le_SucE)
  moreover have "w \<in> set (concat (map command_waiter (tk_mailbox tk))) \<or> w \<in># ?w \<or> w \<in> fst ` set (tk_replies tk)"
    if "w \<in> set (tk_submitted tk)" "w \<notin> tk_gone tk" "w \<notin> tk_forgotten tk" for w
  proof -
    have "w \<in># known tk + lost" using that(1) lost(1) by (metis set_mset_mset)
    then show ?thesis using lost(2) that(2,3) by (auto simp: known_def)
  qed
  moreover have "w \<notin> fst ` set (tk_replies tk)" if "w \<in># ?w" for w
  proof -
    have "count ?r w = 0" using once [of w] parts [of w] that by (simp add: count_greater_zero_iff [symmetric] del: count_greater_zero_iff)
    then show ?thesis by (simp add: count_eq_zero_iff)
  qed
  ultimately show ?thesis using inv by (auto simp: task_inv_def task_ok_def permits_ok_def)
qed

theorem scheduler_accounts_witness:
  "\<exists>tk. task_moves reference_semaphore (take 3 sample_events) sample_task = Some tk \<and> distinct (map fst (tk_replies tk)) \<and>
     waiter_count (tk_state tk) \<le> 2 \<and> core_slots (tk_core tk) ! 0 + count_list (tk_leases tk) 0 = 1"
proof -
  obtain tk where tk: "task_moves reference_semaphore (take 3 sample_events) sample_task = Some tk" using sample_run by blast
  note acc = scheduler_accounts [OF sample_reachable [OF tk]]
  have "core_slots (tk_core tk) ! 0 + count_list (tk_leases tk) 0 = 1" using acc by simp
  moreover have "waiter_count (tk_state tk) \<le> 2" using acc by (simp add: sample_admission_def)
  ultimately show ?thesis using tk acc by blast
qed

text \<open>A caller is queued only by a sweep that found no permit.\<close>

lemma acquire_waits:
  assumes "semaphore_documented sl v" and "task_ok v caps None tk" and "w \<notin># waiting (tk_state tk)" and "w \<notin> tk_gone tk"
    and "w \<in># waiting (tk_state (handle_acquire sl late h w tk))"
  shows "core_shutdown (tk_core tk) \<or> exhausted v (tk_core (handle_acquire sl late h w tk))"
proof -
  let ?closed = "\<lambda>w. w \<in> tk_gone tk"
  obtain st r where enq: "enqueue_waiter ?closed h w (tk_admission tk) (tk_state tk) = (st, r)" by fastforce
  note e = enqueue_waiter_cases [OF _ enq]
  have run: "tk_lifecycle tk = Running" using assms(3,5) by (cases "tk_lifecycle tk = Running") (simp_all add: handle_acquire_def)
  have r: "r = Enqueued" using e assms(2,3,5) enq run by (auto simp: handle_acquire_def task_ok_def)
  have ok: "task_ok v caps None (tk\<lparr>tk_state := st\<rparr>)" using e assms(2) by (auto simp: task_ok_def)
  have same: "tk_state (handle_acquire sl late h w tk) = tk_state (grant_sweep sl late (tk\<lparr>tk_state := st\<rparr>))"
    "tk_core (handle_acquire sl late h w tk) = tk_core (grant_sweep sl late (tk\<lparr>tk_state := st\<rparr>))"
    using run enq r by (simp_all add: handle_acquire_def Let_def)
  then have "has_live_waiters ?closed (tk_state (grant_sweep sl late (tk\<lparr>tk_state := st\<rparr>)))"
    using assms(4,5) by (auto simp: live_iff)
  then show ?thesis using grant_sweep_ok(5) [OF assms(1) ok, of late] same by simp
qed

text \<open>
  C17: Callers wait only for want of capacity. When an acquisition has been handled, its caller is queued only if
  no slot has a permit left, or the pool is shut down; when a permit was won and the sweep after it is
  done, any caller is queued only then.
\<close>

theorem waits_only_when_exhausted:
  assumes "reachable (task_start v caps adm) (\<lambda>tk e tk'. semaphore_documented sl v \<and> task_step sl tk e tk') tk"
    and "semaphore_documented sl v" and "task_move sl e tk = Some tk'"
    and "e = HandleCommand late \<and> (\<exists>h cs. tk_mailbox tk = Acquire h w # cs) \<or> e = PermitOutcome (Inr i) late"
    and "w \<in># waiting (tk_state tk')" and "w \<notin> tk_gone tk"
  shows "core_shutdown (tk_core tk) \<or> (\<forall>m \<in> set (core_slots (tk_core tk')). v m = 0)"
proof -
  have inv: "task_inv v caps adm tk" using assms(1) by (rule scheduling.inv_reachable)
  from assms(4) consider (acq) h cs where "e = HandleCommand late" "tk_mailbox tk = Acquire h w # cs" | (won) "e = PermitOutcome (Inr i) late"
    by blast
  then have "core_shutdown (tk_core tk) \<or> exhausted v (tk_core tk')"
  proof cases
    case acq
    let ?tk = "tk\<lparr>tk_mailbox := cs\<rparr>"
    have tk': "tk' = gone_late late (handle_acquire sl late h w ?tk)"
      using assms(3) acq by (simp add: handle_command_def)
    obtain lost where "mset (tk_submitted tk) = known tk + lost" "distinct (tk_submitted tk)" using inv by (auto simp: task_inv_def)
    then have "count (known tk) w \<le> 1" by (metis count_mset_0_iff count_union distinct_count_atmost_1 le_add1 le_trans linorder_linear zero_le)
    then have "w \<notin># waiting (tk_state ?tk)" using acq(2) by (simp add: known_def not_in_iff)
    moreover have "task_ok v caps None ?tk" using inv by (auto simp: task_inv_def task_ok_def)
    ultimately show ?thesis
      using acquire_waits [OF assms(2), of caps ?tk w late h] assms(5,6) by (simp add: tk' gone_late_def)
  next
    case won
    then show ?thesis using permit_inv(2) [OF assms(2) inv] assms(3,5,6) by (auto simp: live_iff)
  qed
  then show ?thesis by (simp add: exhausted_def)
qed

theorem waits_only_when_exhausted_witness:
  "\<exists>tk tk'. task_moves reference_semaphore (take 3 sample_events) sample_task = Some tk \<and>
     task_move reference_semaphore (HandleCommand {}) tk = Some tk' \<and> 20 \<in># waiting (tk_state tk') \<and>
     (\<forall>m \<in> set (core_slots (tk_core tk')). m = 0)"
proof -
  obtain tk tk' where run: "task_moves reference_semaphore (take 3 sample_events) sample_task = Some tk"
    and tk: "tk_mailbox tk = [Acquire 2 20]" "tk_gone tk = {}" "\<not> core_shutdown (tk_core tk)"
    and step: "task_move reference_semaphore (HandleCommand {}) tk = Some tk'" "20 \<in># waiting (tk_state tk')"
    using sample_run by blast
  have "core_shutdown (tk_core tk) \<or> (\<forall>m \<in> set (core_slots (tk_core tk')). m = 0)"
    by (rule waits_only_when_exhausted [OF sample_reachable [OF run] reference_semaphore_documented step(1), of "{}" 20])
      (use tk step(2) in simp_all)
  then show ?thesis using run step tk(3) by blast
qed

text \<open>
  C27: Shutdown leaves nobody waiting. When the scheduler has drained, its queues and its mailbox are empty, the pool no longer
  counts as running, and every request ever made has been answered, unless its caller or its session has gone;
  the answers that the drain itself adds are all \<open>PoolClosed\<close>.
\<close>

theorem shutdown_answers_everyone:
  assumes "reachable (task_start v caps adm) (\<lambda>tk e tk'. semaphore_documented sl v \<and> task_step sl tk e tk') tk"
    and "semaphore_documented sl v" and "task_move sl (DrainShutdown late) tk = Some tk'"
  shows "waiting (tk_state tk') = {#} \<and> tk_mailbox tk' = [] \<and> tk_lifecycle tk' \<noteq> Running \<and>
    (\<forall>w \<in> set (tk_submitted tk'). w \<in> tk_gone tk' \<or> w \<in> tk_forgotten tk' \<or> w \<in> fst ` set (tk_replies tk')) \<and>
    (\<exists>ws. tk_replies tk' = tk_replies tk @ map (\<lambda>w. (w, Inl PoolClosed)) ws)"
proof -
  have inv: "task_inv v caps adm tk" using assms(1) by (rule scheduling.inv_reachable)
  then have ok: "task_ok v caps None tk" by (simp add: task_inv_def)
  have tk': "tk' = gone_late late (drain_for_shutdown late tk)" using assms(3) by (simp split: if_splits)
  note d = drain_ok [OF ok, of late]
  have empty: "waiting (tk_state tk') = {#}" "tk_mailbox tk' = []" using d by (simp_all add: tk' gone_late_def)
  have "task_inv v caps adm tk'" unfolding tk' by (rule drain_inv [OF inv])
  then obtain lost where lost: "mset (tk_submitted tk') = known tk' + lost" "set_mset lost \<subseteq> tk_gone tk' \<union> tk_forgotten tk'"
    by (auto simp: task_inv_def)
  have "w \<in> tk_gone tk' \<or> w \<in> tk_forgotten tk' \<or> w \<in> fst ` set (tk_replies tk')" if "w \<in> set (tk_submitted tk')" for w
  proof -
    have "w \<in># known tk' + lost" using that lost(1) by (metis set_mset_mset)
    then show ?thesis using lost(2) empty by (auto simp: known_def)
  qed
  then show ?thesis
    using d empty by (auto simp: tk' gone_late_def mark_lifecycle_closed_def)
qed

theorem shutdown_answers_everyone_witness:
  "\<exists>tk tk'. task_moves reference_semaphore (sample_events @ [ShutdownPool]) sample_task = Some tk \<and>
     task_move reference_semaphore (DrainShutdown {}) tk = Some tk' \<and> waiting (tk_state tk') = {#} \<and> tk_lifecycle tk' \<noteq> Running"
proof -
  obtain tk where run: "task_moves reference_semaphore (sample_events @ [ShutdownPool]) sample_task = Some tk"
    and shut: "core_shutdown (tk_core tk)" using sample_shutdown by blast
  obtain tk' where step: "task_move reference_semaphore (DrainShutdown {}) tk = Some tk'" using shut by simp
  note answered = shutdown_answers_everyone [OF sample_reachable [OF run] reference_semaphore_documented step]
  show ?thesis by (intro exI conjI) (use run step answered in blast)+
qed

end
