(* ===== verification/App_Envelope.thy ===== *)
theory App_Envelope
  imports Message_Assembly Fragment_Adapter Codec
begin

text \<open>
  Envelopes and the memory budgets of a connection: \<open>src/app/envelope.rs\<close>, \<open>src/app/memory_budgets.rs\<close>,
  \<open>src/app/builder_defaults.rs\<close> and \<open>src/app/frame_handling/backpressure.rs\<close>, with the part of
  \<open>src/app/frame_handling/assembly.rs\<close> that sets up message assembly. Non-zero integers are
  naturals; the configurations they come from are required to be positive where it matters.
\<close>

section \<open>Envelopes\<close>

record envelope =
  env_id :: u32
  env_correlation_id :: "u64 option"
  env_payload :: bytes

record packet_parts =
  pp_id :: u32
  pp_correlation_id :: "u64 option"
  pp_payload :: bytes

definition envelope_new :: "u32 \<Rightarrow> u64 option \<Rightarrow> bytes \<Rightarrow> envelope" where
  "envelope_new i c payload = \<lparr>env_id = i, env_correlation_id = c, env_payload = payload\<rparr>"

definition packet_parts_new :: "u32 \<Rightarrow> u64 option \<Rightarrow> bytes \<Rightarrow> packet_parts" where
  "packet_parts_new i c payload = \<lparr>pp_id = i, pp_correlation_id = c, pp_payload = payload\<rparr>"

definition parts_from_envelope :: "envelope \<Rightarrow> packet_parts" where
  "parts_from_envelope e = packet_parts_new (env_id e) (env_correlation_id e) (env_payload e)"

definition envelope_from_parts :: "packet_parts \<Rightarrow> envelope" where
  "envelope_from_parts p = envelope_new (pp_id p) (pp_correlation_id p) (pp_payload p)"

text \<open>The flag tells whether two identifiers disagree.\<close>

fun select_correlation :: "u64 option \<Rightarrow> u64 option \<Rightarrow> u64 option \<times> bool" where
  "select_correlation None source = (source, False)"
| "select_correlation (Some cid) (Some src) = (if cid \<noteq> src then (Some src, True) else (Some cid, False))"
| "select_correlation (Some cid) None = (Some cid, False)"

definition inherit_correlation :: "u64 option \<Rightarrow> packet_parts \<Rightarrow> packet_parts" where
  "inherit_correlation source p = p\<lparr>pp_correlation_id := fst (select_correlation (pp_correlation_id p) source)\<rparr>"

text \<open>The blanket implementation of \<open>Fragmentable\<close> for packets, at \<open>Envelope\<close>.\<close>

definition envelope_fragmentable :: "envelope fragmentable" where
  "envelope_fragmentable =
     \<lparr>into_fragment_parts = (\<lambda>e. let parts = parts_from_envelope e
        in fragment_parts_new (pp_id parts) (pp_correlation_id parts) (pp_payload parts)),
      from_fragment_parts = (\<lambda>parts.
        envelope_from_parts (packet_parts_new (fp_id parts) (fp_correlation_id parts) (fp_payload parts)))\<rparr>"

definition envelope_from_assembled :: "assembled_message \<Rightarrow> envelope" where
  "envelope_from_assembled m =
     envelope_new (er_envelope_id (am_routing m)) (er_correlation_id (am_routing m)) (am_metadata m @ am_body m)"

section \<open>Budgets\<close>

record memory_budgets =
  bytes_per_message :: usize
  bytes_per_connection :: usize
  bytes_in_flight :: usize

definition memory_budgets_new :: "usize \<Rightarrow> usize \<Rightarrow> usize \<Rightarrow> memory_budgets" where
  "memory_budgets_new per_message per_connection in_flight =
     \<lparr>bytes_per_message = per_message, bytes_per_connection = per_connection, bytes_in_flight = in_flight\<rparr>"

definition DEFAULT_FRAGMENT_TIMEOUT :: duration where "DEFAULT_FRAGMENT_TIMEOUT = 30000"
definition DEFAULT_MESSAGE_SIZE_MULTIPLIER :: usize where "DEFAULT_MESSAGE_SIZE_MULTIPLIER = 16"
definition DEFAULT_MESSAGE_BUDGET_MULTIPLIER :: usize where
  "DEFAULT_MESSAGE_BUDGET_MULTIPLIER = DEFAULT_MESSAGE_SIZE_MULTIPLIER"
definition DEFAULT_CONNECTION_BUDGET_MULTIPLIER :: usize where "DEFAULT_CONNECTION_BUDGET_MULTIPLIER = 64"
definition DEFAULT_IN_FLIGHT_BUDGET_MULTIPLIER :: usize where "DEFAULT_IN_FLIGHT_BUDGET_MULTIPLIER = 64"
definition DEFAULT_MESSAGE_ASSEMBLY_TIMEOUT :: duration where "DEFAULT_MESSAGE_ASSEMBLY_TIMEOUT = 30000"

text \<open>The outer option is the panic of \<open>for_frame_budget\<close>.\<close>

definition default_fragmentation :: "header_codec \<Rightarrow> usize \<Rightarrow> fragmentation_config option option" where
  "default_fragmentation hc frame_budget =
     (let clamped = clamp_frame_length frame_budget;
          max_message = (case non_zero_usize (saturating_mul_usize clamped DEFAULT_MESSAGE_SIZE_MULTIPLIER) of
                           Some n \<Rightarrow> Some n | None \<Rightarrow> non_zero_usize clamped)
      in case max_message of
           None \<Rightarrow> Some None
         | Some limit \<Rightarrow> for_frame_budget hc clamped limit DEFAULT_FRAGMENT_TIMEOUT)"

definition derive_budget :: "usize \<Rightarrow> usize \<Rightarrow> usize" where
  "derive_budget frame_budget multiplier =
     (case non_zero_usize (saturating_mul_usize frame_budget multiplier) of Some n \<Rightarrow> n | None \<Rightarrow> 1)"

definition default_memory_budgets :: "usize \<Rightarrow> memory_budgets" where
  "default_memory_budgets frame_budget =
     (let clamped = clamp_frame_length frame_budget
      in memory_budgets_new (derive_budget clamped DEFAULT_MESSAGE_BUDGET_MULTIPLIER)
           (derive_budget clamped DEFAULT_CONNECTION_BUDGET_MULTIPLIER)
           (derive_budget clamped DEFAULT_IN_FLIGHT_BUDGET_MULTIPLIER))"

definition resolve_effective_budgets :: "memory_budgets option \<Rightarrow> usize \<Rightarrow> memory_budgets" where
  "resolve_effective_budgets explicit frame_budget =
     (case explicit of Some b \<Rightarrow> b | None \<Rightarrow> default_memory_budgets frame_budget)"

definition new_message_assembly_state ::
    "header_codec \<Rightarrow> fragmentation_config option \<Rightarrow> usize \<Rightarrow> memory_budgets option \<Rightarrow> assembly_state option" where
  "new_message_assembly_state hc fragmentation frame_budget budgets =
     map_option (\<lambda>config.
       let frag_max = (case config of
             None \<Rightarrow> (case non_zero_usize (clamp_frame_length frame_budget) of Some n \<Rightarrow> n | None \<Rightarrow> 1)
           | Some cfg \<Rightarrow> cfg_max_message_size cfg);
           timeout = (case config of None \<Rightarrow> DEFAULT_MESSAGE_ASSEMBLY_TIMEOUT | Some cfg \<Rightarrow> cfg_reassembly_timeout cfg)
       in case budgets of
            None \<Rightarrow> assembly_new frag_max timeout
          | Some b \<Rightarrow> assembly_with_budgets (min frag_max (bytes_per_message b)) timeout
                        (Some (bytes_per_connection b)) (Some (bytes_in_flight b)))
       (case fragmentation of Some cfg \<Rightarrow> Some (Some cfg) | None \<Rightarrow> default_fragmentation hc frame_budget)"

section \<open>Memory pressure\<close>

definition SOFT_LIMIT_NUMERATOR :: nat where "SOFT_LIMIT_NUMERATOR = 4"
definition SOFT_LIMIT_DENOMINATOR :: nat where "SOFT_LIMIT_DENOMINATOR = 5"
definition SOFT_LIMIT_PAUSE_DURATION :: duration where "SOFT_LIMIT_PAUSE_DURATION = 5"

datatype memory_pressure_action = PressureContinue | PressurePause duration | PressureAbort

definition saturating_mul_u128 :: "nat \<Rightarrow> nat \<Rightarrow> nat" where
  "saturating_mul_u128 a b = min (a * b) (2 ^ 128 - 1)"

definition is_at_or_above_soft_limit :: "usize \<Rightarrow> usize \<Rightarrow> bool" where
  "is_at_or_above_soft_limit buffered limit \<longleftrightarrow>
     saturating_mul_u128 limit SOFT_LIMIT_NUMERATOR \<le> saturating_mul_u128 buffered SOFT_LIMIT_DENOMINATOR"

definition active_aggregate_limit_bytes :: "memory_budgets \<Rightarrow> usize" where
  "active_aggregate_limit_bytes b = min (bytes_per_connection b) (bytes_in_flight b)"

definition buffered_for_pressure :: "assembly_state option \<Rightarrow> usize \<Rightarrow> usize" where
  "buffered_for_pressure st frag_bytes =
     saturating_add_usize (case st of None \<Rightarrow> 0 | Some s \<Rightarrow> total_buffered_bytes s) frag_bytes"

definition has_hard_cap_been_breached :: "assembly_state option \<Rightarrow> memory_budgets option \<Rightarrow> usize \<Rightarrow> bool" where
  "has_hard_cap_been_breached st budgets frag_bytes =
     (case budgets of
        None \<Rightarrow> False
      | Some b \<Rightarrow> active_aggregate_limit_bytes b < buffered_for_pressure st frag_bytes)"

definition should_pause_inbound_reads :: "assembly_state option \<Rightarrow> memory_budgets option \<Rightarrow> usize \<Rightarrow> bool" where
  "should_pause_inbound_reads st budgets frag_bytes =
     (case budgets of
        None \<Rightarrow> False
      | Some b \<Rightarrow> is_at_or_above_soft_limit (buffered_for_pressure st frag_bytes) (active_aggregate_limit_bytes b))"

definition evaluate_memory_pressure ::
    "assembly_state option \<Rightarrow> memory_budgets option \<Rightarrow> usize \<Rightarrow> memory_pressure_action" where
  "evaluate_memory_pressure st budgets frag_bytes =
     (if has_hard_cap_been_breached st budgets frag_bytes then PressureAbort
      else if should_pause_inbound_reads st budgets frag_bytes then PressurePause SOFT_LIMIT_PAUSE_DURATION
      else PressureContinue)"

lemma no_pressure:
  assumes "5 * n < 4 * min (bytes_per_connection b) (bytes_in_flight b)"
  shows "evaluate_memory_pressure None (Some b) n = PressureContinue"
proof -
  let ?l = "min (bytes_per_connection b) (bytes_in_flight b)" and ?n = "buffered_for_pressure None n"
  have n: "?n \<le> n" "?n \<le> usize_max" by (auto simp: buffered_for_pressure_def saturating_add_usize_def)
  then have "5 * ?n < 4 * ?l" "5 * ?n < 2 ^ 128 - 1" using assms by (simp_all add: usize_max_def)
  then have "\<not> is_at_or_above_soft_limit ?n ?l"
    by (simp add: is_at_or_above_soft_limit_def saturating_mul_u128_def SOFT_LIMIT_NUMERATOR_def SOFT_LIMIT_DENOMINATOR_def mult.commute)
  moreover have "\<not> ?l < ?n" using n assms by linarith
  ultimately show ?thesis
    by (simp add: evaluate_memory_pressure_def has_hard_cap_been_breached_def should_pause_inbound_reads_def active_aggregate_limit_bytes_def)
qed

end
