(* ===== verification/Frame_Pipeline.thy ===== *)
theory Frame_Pipeline
  imports App_Envelope Hooks
begin

text \<open>
  The way out of a response: \<open>src/app/codec_driver.rs\<close> and \<open>src/app/outbound_encoding.rs\<close>. A pipeline
  fragments envelopes into a buffer; flushing serialises each, wraps it into a frame, runs the
  \<open>before_send\<close> hook and writes it. The serializer, the codec's \<open>wrap_payload\<close> (which may count
  frames) and the framed stream are the argument \<open>tr\<close>; their states are the fields of \<open>out_state\<close>,
  with the send outcomes that the metrics record. Logs are left out.
\<close>

datatype 'x send_error = SendSerialize 'x

text \<open>The \<open>io::Error\<close> values of a connection, by what they wrap.\<close>

datatype 'x connection_error =
  TransportError io_error
| InvalidDataMessage string
| InvalidDataReassembly reassembly_error
| OtherFragmentation fragmentation_error
| OtherSend "'x send_error"
| OtherIo io_error

datatype app_response_send_outcome = SendSuccess | SerializationFailure | CodecRejected | TransportFailure

record 'h frame_pipeline =
  pl_fragmentation :: "fragment_adapter option"
  pl_out :: "envelope list"
  pl_context :: 'h

record ('f, 'k, 'w, 'x) transport_api =
  ta_serialize :: "envelope \<Rightarrow> 'x + bytes"
  ta_wrap_payload :: "bytes \<Rightarrow> 'k \<Rightarrow> 'f \<times> 'k"
  ta_send :: "'f \<Rightarrow> 'w \<Rightarrow> 'w \<times> (io_error + unit)"

record ('k, 'w) out_state =
  os_codec :: 'k
  os_wire :: 'w
  os_outcomes :: "app_response_send_outcome list"

definition pipeline_with_hooks :: "fragmentation_config option \<Rightarrow> 'h \<Rightarrow> 'h frame_pipeline" where
  "pipeline_with_hooks fragmentation ctx =
     \<lparr>pl_fragmentation = map_option fragment_adapter_new fragmentation, pl_out = [], pl_context = ctx\<rparr>"

definition pipeline_before_send ::
    "('f, 'e, 'ph, 'h) protocol_hooks \<Rightarrow> 'f \<Rightarrow> 'h frame_pipeline \<Rightarrow> 'h frame_pipeline \<times> 'f" where
  "pipeline_before_send hooks frame pl =
     (let (frame', ctx) = hook_before_send hooks frame (pl_context pl) in (pl\<lparr>pl_context := ctx\<rparr>, frame'))"

text \<open>\<open>None\<close> is the panic of an exhausted identifier counter.\<close>

definition fragment_envelope ::
    "bytes_api \<Rightarrow> header_codec \<Rightarrow> envelope \<Rightarrow> 'h frame_pipeline \<Rightarrow>
     ('h frame_pipeline \<times> (fragmentation_error + envelope list)) option" where
  "fragment_envelope api hc e pl =
     (case pl_fragmentation pl of
        Some a \<Rightarrow> map_option (\<lambda>(a', r). (pl\<lparr>pl_fragmentation := Some a'\<rparr>, r))
                    (adapter_fragment api hc envelope_fragmentable a e)
      | None \<Rightarrow> Some (pl, Inr [e]))"

definition pipeline_push_frame :: "envelope \<Rightarrow> 'h frame_pipeline \<Rightarrow> 'h frame_pipeline" where
  "pipeline_push_frame e pl = pl\<lparr>pl_out := pl_out pl @ [e]\<rparr>"

definition pipeline_process ::
    "bytes_api \<Rightarrow> header_codec \<Rightarrow> envelope \<Rightarrow> 'h frame_pipeline \<Rightarrow>
     ('h frame_pipeline \<times> ('x connection_error + unit)) option" where
  "pipeline_process api hc e pl =
     map_option (\<lambda>(pl', r).
       case r of
         Inl err \<Rightarrow> (pl', Inl (OtherFragmentation err))
       | Inr frames \<Rightarrow> (fold pipeline_push_frame frames pl', Inr ()))
       (fragment_envelope api hc e pl)"

definition fragmentation_buffered_bytes :: "'h frame_pipeline \<Rightarrow> usize" where
  "fragmentation_buffered_bytes pl = (case pl_fragmentation pl of None \<Rightarrow> 0 | Some a \<Rightarrow> adapter_buffered_bytes a)"

definition pipeline_purge_expired :: "instant \<Rightarrow> 'h frame_pipeline \<Rightarrow> 'h frame_pipeline" where
  "pipeline_purge_expired now pl =
     pl\<lparr>pl_fragmentation := map_option (\<lambda>a. fst (adapter_purge_expired a now)) (pl_fragmentation pl)\<rparr>"

definition drain_output :: "'h frame_pipeline \<Rightarrow> 'h frame_pipeline \<times> envelope list" where
  "drain_output pl = (pl\<lparr>pl_out := []\<rparr>, pl_out pl)"

section \<open>Writing\<close>

definition encode_message_frame ::
    "('f, 'k, 'w, 'x) transport_api \<Rightarrow> envelope \<Rightarrow> 'k \<Rightarrow> ('x send_error + 'f) \<times> 'k" where
  "encode_message_frame tr e k =
     (case ta_serialize tr e of
        Inl err \<Rightarrow> (Inl (SendSerialize err), k)
      | Inr bytes \<Rightarrow> (let (frame, k') = ta_wrap_payload tr bytes k in (Inr frame, k')))"

definition classify_send_error :: "io_error \<Rightarrow> app_response_send_outcome" where
  "classify_send_error err =
     (case io_payload err of
        IoCodec codec_error \<Rightarrow> (case codec_error of Framing _ \<Rightarrow> CodecRejected | _ \<Rightarrow> TransportFailure)
      | _ \<Rightarrow> TransportFailure)"

definition record_outcome :: "app_response_send_outcome \<Rightarrow> ('k, 'w) out_state \<Rightarrow> ('k, 'w) out_state" where
  "record_outcome outcome out = out\<lparr>os_outcomes := os_outcomes out @ [outcome]\<rparr>"

definition send_envelope ::
    "('f, 'k, 'w, 'x) transport_api \<Rightarrow> ('f, 'e, 'ph, 'h) protocol_hooks \<Rightarrow> envelope \<Rightarrow>
     'h frame_pipeline \<times> ('k, 'w) out_state \<Rightarrow> ('h frame_pipeline \<times> ('k, 'w) out_state) \<times> ('x connection_error + unit)" where
  "send_envelope tr hooks e = (\<lambda>(pl, out).
     case encode_message_frame tr e (os_codec out) of
       (Inl err, k) \<Rightarrow> ((pl, record_outcome SerializationFailure (out\<lparr>os_codec := k\<rparr>)), Inl (OtherSend err))
     | (Inr frame, k) \<Rightarrow>
         (let (pl', frame') = pipeline_before_send hooks frame pl;
              (w, r) = ta_send tr frame' (os_wire out);
              out' = out\<lparr>os_codec := k, os_wire := w\<rparr>
          in case r of
               Inr _ \<Rightarrow> ((pl', record_outcome SendSuccess out'), Inr ())
             | Inl err \<Rightarrow> ((pl', record_outcome (classify_send_error err) out'), Inl (OtherIo err))))"

fun send_envelopes ::
    "('f, 'k, 'w, 'x) transport_api \<Rightarrow> ('f, 'e, 'ph, 'h) protocol_hooks \<Rightarrow> envelope list \<Rightarrow>
     'h frame_pipeline \<times> ('k, 'w) out_state \<Rightarrow> ('h frame_pipeline \<times> ('k, 'w) out_state) \<times> ('x connection_error + unit)" where
  "send_envelopes tr hooks [] st = (st, Inr ())"
| "send_envelopes tr hooks (e # es) st =
     (case send_envelope tr hooks e st of
        (st', Inl err) \<Rightarrow> (st', Inl err)
      | (st', Inr _) \<Rightarrow> send_envelopes tr hooks es st')"

definition flush_pipeline_output ::
    "('f, 'k, 'w, 'x) transport_api \<Rightarrow> ('f, 'e, 'ph, 'h) protocol_hooks \<Rightarrow> 'h frame_pipeline \<times> ('k, 'w) out_state \<Rightarrow>
     ('h frame_pipeline \<times> ('k, 'w) out_state) \<times> ('x connection_error + unit)" where
  "flush_pipeline_output tr hooks = (\<lambda>(pl, out).
     let (pl', envelopes) = drain_output pl in send_envelopes tr hooks envelopes (pl', out))"

end
