(* ===== verification/Service_Chain.thy ===== *)
theory Service_Chain
  imports App_Envelope
begin

text \<open>
  Services and middleware: \<open>src/middleware.rs\<close> and \<open>build_route_chains\<close> of
  \<open>src/app/inbound_handler/mod.rs\<close>. A service acts on a state of the application; a handler only borrows
  its packet, so it cannot change it. The packet type of an application is the argument \<open>pk\<close>.
\<close>

record service_request =
  sreq_frame :: bytes
  sreq_correlation_id :: "u64 option"

record service_response =
  sresp_frame :: bytes
  sresp_correlation_id :: "u64 option"

definition service_request_new :: "bytes \<Rightarrow> u64 option \<Rightarrow> service_request" where
  "service_request_new frame c = \<lparr>sreq_frame = frame, sreq_correlation_id = c\<rparr>"

definition service_response_new :: "bytes \<Rightarrow> u64 option \<Rightarrow> service_response" where
  "service_response_new frame c = \<lparr>sresp_frame = frame, sresp_correlation_id = c\<rparr>"

type_synonym ('s, 'v) service = "service_request \<Rightarrow> 's \<Rightarrow> 's \<times> ('v + service_response)"

text \<open>A middleware function gets the service it wraps; calling it through \<open>Next\<close> is calling the service.\<close>

type_synonym ('s, 'v) middleware_fn = "service_request \<Rightarrow> ('s, 'v) service \<Rightarrow> 's \<Rightarrow> 's \<times> ('v + service_response)"

definition fn_service_call :: "('s, 'v) service \<Rightarrow> ('s, 'v) middleware_fn \<Rightarrow> ('s, 'v) service" where
  "fn_service_call svc f req s = f req svc s"

definition from_fn_transform :: "('s, 'v) middleware_fn \<Rightarrow> ('s, 'v) service \<Rightarrow> ('s, 'v) service" where
  "from_fn_transform f svc = fn_service_call svc f"

record 'p packet_api =
  pk_into_parts :: "'p \<Rightarrow> packet_parts"
  pk_from_parts :: "packet_parts \<Rightarrow> 'p"

type_synonym ('p, 's) handler = "'p \<Rightarrow> 's \<Rightarrow> 's"

definition route_service_call :: "'p packet_api \<Rightarrow> u32 \<Rightarrow> ('p, 's) handler \<Rightarrow> ('s, 'v) service" where
  "route_service_call pk i handler req s =
     (let env = pk_from_parts pk (packet_parts_new i (sreq_correlation_id req) (sreq_frame req));
          s' = handler env s;
          parts = pk_into_parts pk env
      in (s', Inr (service_response_new (pp_payload parts) (pp_correlation_id parts))))"

record ('s, 'v) handler_service =
  hs_id :: u32
  hs_svc :: "('s, 'v) service"

definition handler_service_new :: "'p packet_api \<Rightarrow> u32 \<Rightarrow> ('p, 's) handler \<Rightarrow> ('s, 'v) handler_service" where
  "handler_service_new pk i handler = \<lparr>hs_id = i, hs_svc = route_service_call pk i handler\<rparr>"

definition handler_service_call :: "('s, 'v) handler_service \<Rightarrow> ('s, 'v) service" where
  "handler_service_call hs req s = hs_svc hs req s"

type_synonym ('s, 'v) middleware = "('s, 'v) handler_service \<Rightarrow> ('s, 'v) handler_service"

definition build_route_chains ::
    "'p packet_api \<Rightarrow> (u32, ('p, 's) handler) hm \<Rightarrow> ('s, 'v) middleware list \<Rightarrow> (u32, ('s, 'v) handler_service) hm" where
  "build_route_chains pk handlers middleware =
     fold (\<lambda>(i, handler) routes.
       hm_insert i (fold (\<lambda>mw service. mw service) (rev middleware) (handler_service_new pk i handler)) routes)
     handlers []"

text \<open>The packets of the default application.\<close>

definition envelope_packet :: "envelope packet_api" where
  "envelope_packet = \<lparr>pk_into_parts = parts_from_envelope, pk_from_parts = envelope_from_parts\<rparr>"

text \<open>A route's service is its handler wrapped so that the middleware that was registered first is the outermost.\<close>

lemma route_chain:
  assumes "hm_invar handlers"
  shows "hm_lookup (build_route_chains pk handlers middleware) i =
    map_option (\<lambda>handler. foldr (\<lambda>mw service. mw service) middleware (handler_service_new pk i handler)) (hm_lookup handlers i)"
proof -
  let ?chain = "\<lambda>i h. foldr (\<lambda>mw service. mw service) middleware (handler_service_new pk i h)"
  have "hm_lookup (fold (\<lambda>(i, h) routes. hm_insert i (?chain i h) routes) hs routes) i =
      (case map_of (rev hs) i of None \<Rightarrow> hm_lookup routes i | Some h \<Rightarrow> Some (?chain i h))" for hs routes
    by (induction hs arbitrary: routes) (auto simp: hm.lookup_insert map_add_Some_iff split: option.splits)
  moreover have "map_of (rev handlers) = map_of handlers"
    using assms by (subst map_of_inject_set) (simp_all add: hm_invar_def rev_map [symmetric])
  ultimately show ?thesis by (simp add: build_route_chains_def foldr_conv_fold split: option.split)
qed

end
