(* ===== verification/Inbound_Handler.thy ===== *)
theory Inbound_Handler
  imports Frame_Pipeline Service_Chain
begin

text \<open>
  The connection loop of an application: \<open>src/app/inbound_handler/\<close> with the stages of
  \<open>src/app/frame_handling/\<close>. A frame read from the stream is decoded into an envelope, reassembled from
  fragments, assembled from protocol frames, and dispatched to the service of its route, whose
  response goes out through the pipeline.

  What an application supplies is the argument \<open>ic\<close>: serializer, frame accessors, message assembler,
  routes, hooks and transport. What the stream yields is a list of events, one per turn of the loop, each
  with the clock readings of its turn. The services act on a state of their own (\<open>cn_app\<close>).
\<close>

section \<open>Failures\<close>

definition MAX_DESER_FAILURES :: u32 where "MAX_DESER_FAILURES = 10"

definition record_failure :: "u32 \<Rightarrow> u32 \<Rightarrow> u32 \<times> ('x connection_error + unit)" where
  "record_failure limit failures =
     (let failures' = (if failures = - 1 then failures else failures + 1)
      in (failures', if limit \<le> failures' then Inl (InvalidDataMessage ''too many deserialization failures'')
                     else Inr ()))"

text \<open>A failure of a stage: counted, and the frame is dropped unless the limit is reached.\<close>

definition fail_none :: "u32 \<Rightarrow> u32 \<times> ('x connection_error + 'a option)" where
  "fail_none failures =
     (case record_failure MAX_DESER_FAILURES failures of
        (failures', Inl e) \<Rightarrow> (failures', Inl e)
      | (failures', Inr _) \<Rightarrow> (failures', Inr None))"

lemma fail_none_step:
  assumes "unat n < 10"
  shows "unat (n + 1) = unat n + 1"
    "fail_none n = (n + 1, if unat n = 9 then Inl (InvalidDataMessage ''too many deserialization failures'') else Inr None)"
proof -
  have ne: "n \<noteq> - 1" using assms by (auto simp: unsigned_minus_1_eq_mask mask_eq_exp_minus_1)
  show s: "unat (n + 1) = unat n + 1" using assms by (simp add: unat_word_ariths)
  then have "10 \<le> n + 1 \<longleftrightarrow> unat n = 9" using assms by (auto simp: word_le_nat_alt)
  then show "fail_none n = (n + 1, if unat n = 9 then Inl (InvalidDataMessage ''too many deserialization failures'') else Inr None)"
    using ne by (simp add: fail_none_def record_failure_def MAX_DESER_FAILURES_def Let_def)
qed

section \<open>Decoding\<close>

record deserialize_context =
  dc_frame_metadata :: "bytes option"
  dc_message_id :: "u32 option"
  dc_correlation_id :: "u64 option"
  dc_metadata_bytes_consumed :: "usize option"

record 'x serializer_api =
  sz_parse :: "bytes \<Rightarrow> 'x + envelope \<times> usize"
  sz_should_deserialize_after_parse :: bool
  sz_deserialize_with_context :: "bytes \<Rightarrow> deserialize_context \<Rightarrow> 'x + envelope \<times> usize"
  sz_deserialize :: "bytes \<Rightarrow> 'x + envelope \<times> usize"
  sz_is_limit_exceeded :: "'x \<Rightarrow> bool"

datatype 'x envelope_error = SerializerFailed 'x | TrailingBytes

text \<open>\<open>payload.get(..n)\<close> is \<open>None\<close> beyond the end.\<close>

definition slice_to :: "bytes \<Rightarrow> usize \<Rightarrow> bytes option" where
  "slice_to payload n = (if n \<le> length payload then Some (take n payload) else None)"

definition parse_envelope :: "'x serializer_api \<Rightarrow> bytes \<Rightarrow> 'x envelope_error + envelope \<times> usize" where
  "parse_envelope sz payload =
     (let result =
        (case sz_parse sz payload of
           Inr (parsed, consumed) \<Rightarrow>
             if sz_should_deserialize_after_parse sz
             then sz_deserialize_with_context sz payload
                    \<lparr>dc_frame_metadata = slice_to payload consumed, dc_message_id = Some (env_id parsed),
                     dc_correlation_id = env_correlation_id parsed, dc_metadata_bytes_consumed = Some consumed\<rparr>
             else Inr (parsed, consumed)
         | Inl e \<Rightarrow> if sz_is_limit_exceeded sz e then Inl e else sz_deserialize sz payload)
      in case result of
           Inl e \<Rightarrow> Inl (SerializerFailed e)
         | Inr (e, consumed) \<Rightarrow> if consumed \<noteq> length payload then Inl TrailingBytes else Inr (e, consumed))"

definition decode_envelope ::
    "'x envelope_error + envelope \<times> usize \<Rightarrow> u64 option \<Rightarrow> u32 \<Rightarrow> u32 \<times> ('y connection_error + envelope option)" where
  "decode_envelope parse_result frame_correlation failures =
     (case parse_result of
        Inr (e, _) \<Rightarrow>
          (failures, Inr (Some (if env_correlation_id e = None then e\<lparr>env_correlation_id := frame_correlation\<rparr> else e)))
      | Inl _ \<Rightarrow> fail_none failures)"

section \<open>Reassembly\<close>

definition handle_reassembly_result ::
    "fragment_adapter_error + envelope option \<Rightarrow> u32 \<Rightarrow> u32 \<times> ('x connection_error + envelope option)" where
  "handle_reassembly_result result failures =
     (case result of
        Inr e \<Rightarrow> (failures, Inr e)
      | Inl (AdapterDecode _) \<Rightarrow> fail_none failures
      | Inl (AdapterReassembly err) \<Rightarrow>
          (case err of
             TooManyConcurrentPartials _ _ \<Rightarrow> (failures, Inl (InvalidDataReassembly err))
           | AggregateBufferCapExceeded _ _ \<Rightarrow> (failures, Inl (InvalidDataReassembly err))
           | _ \<Rightarrow> fail_none failures))"

definition reassemble_if_needed ::
    "bytes_api \<Rightarrow> header_codec \<Rightarrow> instant \<Rightarrow> envelope \<Rightarrow> 'h frame_pipeline \<Rightarrow> u32 \<Rightarrow>
     'h frame_pipeline \<times> u32 \<times> ('x connection_error + envelope option)" where
  "reassemble_if_needed api hc now e pl failures =
     (case pl_fragmentation pl of
        None \<Rightarrow> (pl, failures, Inr (Some e))
      | Some a \<Rightarrow>
          (let (a', result) = adapter_reassemble api hc envelope_fragmentable a e now
           in (pl\<lparr>pl_fragmentation := Some a'\<rparr>, handle_reassembly_result result failures)))"

section \<open>Assembly\<close>

definition process_first_frame ::
    "first_frame_header \<Rightarrow> bytes \<Rightarrow> envelope_routing \<Rightarrow> instant \<Rightarrow> assembly_state \<Rightarrow> u32 \<Rightarrow>
     assembly_state \<times> u32 \<times> ('x connection_error + assembled_message option)" where
  "process_first_frame h frame_bytes routing now st failures =
     (case checked_add_usize (ffh_metadata_len h) (ffh_body_len h) of
        None \<Rightarrow> (st, fail_none failures)
      | Some expected_len \<Rightarrow>
          if length frame_bytes \<noteq> expected_len then (st, fail_none failures)
          else if length frame_bytes < ffh_metadata_len h then (st, fail_none failures)
          else case first_frame_input_new h routing (take (ffh_metadata_len h) frame_bytes) (drop (ffh_metadata_len h) frame_bytes) of
            Inl _ \<Rightarrow> (st, fail_none failures)
          | Inr input \<Rightarrow>
              (case accept_first_frame_at st input now of
                 (st', Inr result) \<Rightarrow> (st', failures, Inr result)
               | (st', Inl _) \<Rightarrow> (st', fail_none failures)))"

definition process_continuation_frame ::
    "continuation_frame_header \<Rightarrow> bytes \<Rightarrow> instant \<Rightarrow> assembly_state \<Rightarrow> u32 \<Rightarrow>
     assembly_state \<times> u32 \<times> ('x connection_error + assembled_message option)" where
  "process_continuation_frame h frame_bytes now st failures =
     (if length frame_bytes \<noteq> cfh_body_len h then (st, fail_none failures)
      else case accept_continuation_frame_at st h frame_bytes now of
        (st', Inr result) \<Rightarrow> (st', failures, Inr result)
      | (st', Inl _) \<Rightarrow> (st', fail_none failures))"

type_synonym 'p assembler = "bytes \<Rightarrow> 'p + parsed_frame_header"

definition assembled_envelope :: "'x connection_error + assembled_message option \<Rightarrow> 'x connection_error + envelope option" where
  "assembled_envelope r = (case r of Inl e \<Rightarrow> Inl e | Inr m \<Rightarrow> Inr (map_option envelope_from_assembled m))"

definition assemble_if_needed ::
    "'p assembler option \<Rightarrow> instant \<Rightarrow> envelope \<Rightarrow> assembly_state option \<Rightarrow> u32 \<Rightarrow>
     assembly_state option \<times> u32 \<times> ('x connection_error + envelope option)" where
  "assemble_if_needed assembler now e assembly failures =
     (case (assembler, assembly) of
        (Some parse_frame_header, Some st) \<Rightarrow>
          (case parse_frame_header (env_payload e) of
             Inl _ \<Rightarrow> (assembly, fail_none failures)
           | Inr parsed \<Rightarrow>
               if length (env_payload e) < pfh_header_len parsed then (assembly, fail_none failures)
               else
                 let frame_bytes = drop (pfh_header_len parsed) (env_payload e);
                     routing = \<lparr>er_envelope_id = env_id e, er_correlation_id = env_correlation_id e\<rparr>;
                     (st', failures', r) =
                       (case pfh_header parsed of
                          First h \<Rightarrow> process_first_frame h frame_bytes routing now st failures
                        | Continuation h \<Rightarrow> process_continuation_frame h frame_bytes now st failures)
                 in (Some st', failures', assembled_envelope r))
      | _ \<Rightarrow> (assembly, failures, Inr (Some e)))"

definition purge_expired_assemblies :: "instant \<Rightarrow> assembly_state option \<Rightarrow> assembly_state option" where
  "purge_expired_assemblies now assembly = map_option (\<lambda>st. fst (assembly_purge_expired_at st now)) assembly"

section \<open>The connection\<close>

record ('f, 'k, 'w, 'x, 'p, 'e, 'ph, 'h, 's, 'v) inbound_context =
  ic_bytes :: bytes_api
  ic_header_codec :: header_codec
  ic_serializer :: "'x serializer_api"
  ic_frame_payload :: "'f \<Rightarrow> bytes"
  ic_frame_correlation :: "'f \<Rightarrow> u64 option"
  ic_max_frame_length :: usize
  ic_assembler :: "'p assembler option"
  ic_routes :: "(u32, ('s, 'v) handler_service) hm"
  ic_hooks :: "('f, 'e, 'ph, 'h) protocol_hooks"
  ic_transport :: "('f, 'k, 'w, 'x) transport_api"
  ic_fragmentation :: "fragmentation_config option"
  ic_memory_budgets :: "memory_budgets option"

record ('k, 'w, 'h, 's) connection =
  cn_failures :: u32
  cn_assembly :: "assembly_state option"
  cn_pipeline :: "'h frame_pipeline"
  cn_out :: "('k, 'w) out_state"
  cn_app :: 's

text \<open>Two readings of the clock: for the fragments and for the assemblies.\<close>

type_synonym clock = "instant \<times> instant"

definition purge_expired :: "clock \<Rightarrow> ('k, 'w, 'h, 's) connection \<Rightarrow> ('k, 'w, 'h, 's) connection" where
  "purge_expired now cn =
     cn\<lparr>cn_pipeline := pipeline_purge_expired (fst now) (cn_pipeline cn),
        cn_assembly := purge_expired_assemblies (snd now) (cn_assembly cn)\<rparr>"

definition build_dispatchable_envelope ::
    "('f, 'k, 'w, 'x, 'p, 'e, 'ph, 'h, 's, 'v) inbound_context \<Rightarrow> clock \<Rightarrow> 'f \<Rightarrow> ('k, 'w, 'h, 's) connection \<Rightarrow>
     ('k, 'w, 'h, 's) connection \<times> ('x connection_error + envelope option)" where
  "build_dispatchable_envelope ic now frame cn =
     (case decode_envelope (parse_envelope (ic_serializer ic) (ic_frame_payload ic frame))
             (ic_frame_correlation ic frame) (cn_failures cn) of
        (n1, Inl err) \<Rightarrow> (cn\<lparr>cn_failures := n1\<rparr>, Inl err)
      | (n1, Inr None) \<Rightarrow> (cn\<lparr>cn_failures := n1\<rparr>, Inr None)
      | (n1, Inr (Some e1)) \<Rightarrow>
          (case reassemble_if_needed (ic_bytes ic) (ic_header_codec ic) (fst now) e1 (cn_pipeline cn) n1 of
             (pl, n2, Inl err) \<Rightarrow> (cn\<lparr>cn_failures := n2, cn_pipeline := pl\<rparr>, Inl err)
           | (pl, n2, Inr None) \<Rightarrow> (cn\<lparr>cn_failures := n2, cn_pipeline := pl\<rparr>, Inr None)
           | (pl, n2, Inr (Some e2)) \<Rightarrow>
               (case assemble_if_needed (ic_assembler ic) (snd now) e2 (cn_assembly cn) n2 of
                  (asm, n3, Inl err) \<Rightarrow> (cn\<lparr>cn_failures := n3, cn_pipeline := pl, cn_assembly := asm\<rparr>, Inl err)
                | (asm, n3, Inr None) \<Rightarrow> (cn\<lparr>cn_failures := n3, cn_pipeline := pl, cn_assembly := asm\<rparr>, Inr None)
                | (asm, n3, Inr (Some e3)) \<Rightarrow>
                    (cn\<lparr>cn_failures := 0, cn_pipeline := pl, cn_assembly := asm\<rparr>, Inr (Some e3)))))"

text \<open>\<open>None\<close> is the panic of an exhausted identifier counter.\<close>

definition forward_response ::
    "('f, 'k, 'w, 'x, 'p, 'e, 'ph, 'h, 's, 'v) inbound_context \<Rightarrow> envelope \<Rightarrow> ('s, 'v) handler_service \<Rightarrow>
     ('k, 'w, 'h, 's) connection \<Rightarrow> (('k, 'w, 'h, 's) connection \<times> ('x connection_error + unit)) option" where
  "forward_response ic e service cn =
     (case handler_service_call service (service_request_new (env_payload e) (env_correlation_id e)) (cn_app cn) of
        (s, Inl _) \<Rightarrow> Some (cn\<lparr>cn_app := s\<rparr>, Inr ())
      | (s, Inr resp) \<Rightarrow>
          (let parts = inherit_correlation (env_correlation_id e)
                 (packet_parts_new (env_id e) (sresp_correlation_id resp) (sresp_frame resp))
           in case pipeline_process (ic_bytes ic) (ic_header_codec ic) (envelope_from_parts parts) (cn_pipeline cn) of
                None \<Rightarrow> None
              | Some (pl, Inl err) \<Rightarrow> Some (cn\<lparr>cn_app := s, cn_pipeline := pl\<rparr>, Inl err)
              | Some (pl, Inr _) \<Rightarrow>
                  (let ((pl', out), r) = flush_pipeline_output (ic_transport ic) (ic_hooks ic) (pl, cn_out cn)
                   in Some (cn\<lparr>cn_app := s, cn_pipeline := pl', cn_out := out\<rparr>, r))))"

definition handle_frame ::
    "('f, 'k, 'w, 'x, 'p, 'e, 'ph, 'h, 's, 'v) inbound_context \<Rightarrow> clock \<Rightarrow> 'f \<Rightarrow> ('k, 'w, 'h, 's) connection \<Rightarrow>
     (('k, 'w, 'h, 's) connection \<times> ('x connection_error + unit)) option" where
  "handle_frame ic now frame cn =
     (case build_dispatchable_envelope ic now frame cn of
        (cn', Inl err) \<Rightarrow> Some (cn', Inl err)
      | (cn', Inr None) \<Rightarrow> Some (cn', Inr ())
      | (cn', Inr (Some e)) \<Rightarrow>
          (case hm_lookup (ic_routes ic) (env_id e) of
             None \<Rightarrow> Some (cn', Inr ())
           | Some service \<Rightarrow> forward_response ic e service cn'))"

definition apply_memory_pressure ::
    "memory_pressure_action \<Rightarrow> clock \<Rightarrow> ('k, 'w, 'h, 's) connection \<Rightarrow>
     ('k, 'w, 'h, 's) connection \<times> ('x connection_error + unit)" where
  "apply_memory_pressure action now cn =
     (case action of
        PressureAbort \<Rightarrow> (cn, Inl (InvalidDataMessage ''per-connection memory budget hard cap exceeded''))
      | PressurePause _ \<Rightarrow> (purge_expired now cn, Inr ())
      | PressureContinue \<Rightarrow> (cn, Inr ()))"

datatype 'f read_event = FrameRead 'f | ReadError io_error | StreamClosed | ReadTimedOut

text \<open>
  The loop. Each turn has the clock readings of its pause, those of its read, and what the read yields. The result is the
  state with \<open>None\<close> while the loop waits for the next event, or with what the function returns.
\<close>

fun process_loop ::
    "('f, 'k, 'w, 'x, 'p, 'e, 'ph, 'h, 's, 'v) inbound_context \<Rightarrow> memory_budgets \<Rightarrow> (clock \<times> clock \<times> 'f read_event) list \<Rightarrow>
     ('k, 'w, 'h, 's) connection \<Rightarrow> (('k, 'w, 'h, 's) connection \<times> ('x connection_error + unit) option) option" where
  "process_loop ic budgets [] cn = Some (cn, None)"
| "process_loop ic budgets ((pause, now, ev) # evs) cn =
     (let pressure = evaluate_memory_pressure (cn_assembly cn) (Some budgets) (fragmentation_buffered_bytes (cn_pipeline cn))
      in case apply_memory_pressure pressure pause cn of
           (cn1, Inl err) \<Rightarrow> Some (cn1, Some (Inl err))
         | (cn1, Inr _) \<Rightarrow>
             (case ev of
                FrameRead frame \<Rightarrow>
                  (case handle_frame ic now frame cn1 of
                     None \<Rightarrow> None
                   | Some (cn2, Inl err) \<Rightarrow> Some (cn2, Some (Inl err))
                   | Some (cn2, Inr _) \<Rightarrow> process_loop ic budgets evs cn2)
              | ReadError err \<Rightarrow> Some (cn1, Some (Inl (TransportError err)))
              | StreamClosed \<Rightarrow> Some (cn1, Some (Inr ()))
              | ReadTimedOut \<Rightarrow> process_loop ic budgets evs (purge_expired now cn1)))"

definition stream_start ::
    "('f, 'k, 'w, 'x, 'p, 'e, 'ph, 'h, 's, 'v) inbound_context \<Rightarrow> 'h \<Rightarrow> ('k, 'w) out_state \<Rightarrow> 's \<Rightarrow>
     ('k, 'w, 'h, 's) connection option" where
  "stream_start ic ctx out s =
     (let budgets = resolve_effective_budgets (ic_memory_budgets ic) (ic_max_frame_length ic);
          start = (\<lambda>assembly. \<lparr>cn_failures = 0, cn_assembly = assembly,
             cn_pipeline = pipeline_with_hooks (ic_fragmentation ic) ctx, cn_out = out, cn_app = s\<rparr>)
      in case ic_assembler ic of
           None \<Rightarrow> Some (start None)
         | Some _ \<Rightarrow> map_option (\<lambda>st. start (Some st))
             (new_message_assembly_state (ic_header_codec ic) (ic_fragmentation ic) (ic_max_frame_length ic) (Some budgets)))"

definition process_stream ::
    "('f, 'k, 'w, 'x, 'p, 'e, 'ph, 'h, 's, 'v) inbound_context \<Rightarrow> (clock \<times> clock \<times> 'f read_event) list \<Rightarrow>
     'h \<Rightarrow> ('k, 'w) out_state \<Rightarrow> 's \<Rightarrow> (('k, 'w, 'h, 's) connection \<times> ('x connection_error + unit) option) option" where
  "process_stream ic evs ctx out s =
     Option.bind (stream_start ic ctx out s)
       (process_loop ic (resolve_effective_budgets (ic_memory_budgets ic) (ic_max_frame_length ic)) evs)"

text \<open>
  The whole connection. The setup and teardown callbacks of the application act on a state of their own; teardown gets what
  setup made, however the stream ended.
\<close>

definition process_connection ::
    "('f, 'k, 'w, 'x, 'p, 'e, 'ph, 'h, 's, 'v) inbound_context \<Rightarrow> ('r \<Rightarrow> 'c \<times> 'r) option \<Rightarrow> ('c \<Rightarrow> 'r \<Rightarrow> 'r) option \<Rightarrow>
     (clock \<times> clock \<times> 'f read_event) list \<Rightarrow> 'h \<Rightarrow> ('k, 'w) out_state \<Rightarrow> 's \<Rightarrow> 'r \<Rightarrow>
     (('k, 'w, 'h, 's) connection \<times> 'r \<times> ('x connection_error + unit) option) option" where
  "process_connection ic on_connect on_disconnect evs ctx out s r =
     (let (state, r1) = (case on_connect of Some setup \<Rightarrow> (let (c, r') = setup r in (Some c, r')) | None \<Rightarrow> (None, r))
      in case process_stream ic evs ctx out s of
           None \<Rightarrow> None
         | Some (cn, None) \<Rightarrow> Some (cn, r1, None)
         | Some (cn, Some result) \<Rightarrow>
             Some (cn, (case (on_disconnect, state) of (Some teardown, Some c) \<Rightarrow> teardown c r1 | _ \<Rightarrow> r1), Some result))"

text \<open>Teardown runs once for each setup, when the connection returns and not before, also when it returns an error.\<close>

lemma teardown_once:
  assumes "process_connection ic (Some (\<lambda>(opened, closed). (opened, opened + 1, closed))) (Some (\<lambda>c (opened, closed). (opened, closed + 1)))
    evs ctx out s (0 :: nat, 0 :: nat) = Some (cn, (opened, closed), result)"
  shows "opened = 1 \<and> (if result = None then closed = 0 else closed = 1)"
  using assms by (auto simp: process_connection_def split: option.splits)

end
