(* ===== verification/Echo_Application.thy ===== *)
theory Echo_Application
  imports Inbound_Handler
begin

text \<open>
  A small application on which the properties of the connection loop are evaluated: the frames are the bytes of
  their envelope, all for route 1, and the service counts its calls and echoes.
\<close>

section \<open>Definitions\<close>

definition no_hooks :: "(bytes, unit, unit, unit) protocol_hooks" where
  "no_hooks = \<lparr>ph_on_connection_setup = None, ph_before_send = None, ph_on_command_end = None, ph_handle_error = None,
     ph_stream_end = None, ph_on_eof = None\<rparr>"

definition echo_serializer :: "unit serializer_api" where
  "echo_serializer = \<lparr>sz_parse = (\<lambda>bs. if bs = [] then Inl () else Inr (envelope_new 1 (Some 7) bs, length bs)),
     sz_should_deserialize_after_parse = False, sz_deserialize_with_context = (\<lambda>bs c. Inl ()),
     sz_deserialize = (\<lambda>bs. Inl ()), sz_is_limit_exceeded = (\<lambda>e. False)\<rparr>"

definition echo_transport :: "(bytes, unit, bytes list, unit) transport_api" where
  "echo_transport = \<lparr>ta_serialize = (\<lambda>e. Inr (env_payload e)), ta_wrap_payload = (\<lambda>bs k. (bs, k)),
     ta_send = (\<lambda>f w. (w @ [f], Inr ()))\<rparr>"

definition sample_config :: fragmentation_config where
  "sample_config = \<lparr>cfg_fragment_payload_cap = 6, cfg_max_message_size = 20, cfg_max_concurrent_partials = Some 2,
     cfg_max_buffered_bytes = Some 10, cfg_reassembly_timeout = 100\<rparr>"

definition echo_app ::
    "unit assembler option \<Rightarrow> usize \<Rightarrow> (bytes, unit, bytes list, unit, unit, unit, unit, unit, nat, unit) inbound_context" where
  "echo_app assembler budget =
     \<lparr>ic_bytes = reference_bytes, ic_header_codec = reference_bincode, ic_serializer = echo_serializer,
      ic_frame_payload = (\<lambda>f. f), ic_frame_correlation = (\<lambda>f. None), ic_max_frame_length = 1024,
      ic_assembler = assembler, ic_routes = build_route_chains envelope_packet [(1, \<lambda>env. Suc)] [],
      ic_hooks = no_hooks, ic_transport = echo_transport, ic_fragmentation = Some sample_config,
      ic_memory_budgets = Some (memory_budgets_new budget budget budget)\<rparr>"

definition no_output :: "(unit, bytes list) out_state" where
  "no_output = \<lparr>os_codec = (), os_wire = [], os_outcomes = []\<rparr>"

definition open_message :: "unit assembler" where
  "open_message bs = Inr (parsed_frame_header_new (First \<lparr>ffh_message_key = 1, ffh_metadata_len = 0,
     ffh_body_len = length bs, ffh_total_body_len = None, ffh_is_last = False\<rparr>) 0)"

definition echo_connection :: "assembly_state option \<Rightarrow> (unit, bytes list, unit, nat) connection" where
  "echo_connection asm = \<lparr>cn_failures = 0, cn_assembly = asm, cn_pipeline = pipeline_with_hooks (Some sample_config) (), cn_out = no_output, cn_app = 0\<rparr>"

abbreviation frames_read :: "'f list \<Rightarrow> (clock \<times> clock \<times> 'f read_event) list" where
  "frames_read fs \<equiv> map (\<lambda>f. ((0, 0), (0, 0), FrameRead f)) fs"

text \<open>What assembly holds after the first five bytes of a message.\<close>

definition half_message :: assembly_state where
  "half_message = (assembly_with_budgets 10 100 (Some 10) (Some 10))\<lparr>as_assemblies :=
     [(1, partial_from_first_frame \<lparr>ffi_header = \<lparr>ffh_message_key = 1, ffh_metadata_len = 0, ffh_body_len = length [1, 2, 3, 4, 5 :: u8], ffh_total_body_len = None, ffh_is_last = False\<rparr>,
        ffi_routing = \<lparr>er_envelope_id = 1, er_correlation_id = Some 7\<rparr>, ffi_metadata = [], ffi_body = [1, 2, 3, 4, 5]\<rparr> 0)]\<rparr>"

section \<open>Turns\<close>

lemma echo_app_simps [simp]:
  "ic_bytes (echo_app asm n) = reference_bytes" "ic_header_codec (echo_app asm n) = reference_bincode"
  "ic_frame_payload (echo_app asm n) = (\<lambda>f. f)" "ic_frame_correlation (echo_app asm n) = (\<lambda>f. None)" "ic_max_frame_length (echo_app asm n) = 1024"
  "ic_serializer (echo_app asm n) = echo_serializer"
  "ic_assembler (echo_app asm n) = asm" "ic_hooks (echo_app asm n) = no_hooks" "ic_transport (echo_app asm n) = echo_transport"
  "ic_fragmentation (echo_app asm n) = Some sample_config" "ic_memory_budgets (echo_app asm n) = Some (memory_budgets_new n n n)"
  "ic_routes (echo_app asm n) = [(1, \<lparr>hs_id = 1, hs_svc = route_service_call envelope_packet 1 (\<lambda>env. Suc)\<rparr>)]"
  by (simp_all add: echo_app_def build_route_chains_def hm_insert_def handler_service_new_def)

lemma envelope_new_simps [simp]:
  "env_id (envelope_new i c p) = i" "env_correlation_id (envelope_new i c p) = c" "env_payload (envelope_new i c p) = p"
  by (simp_all add: envelope_new_def)

lemma echo_parse:
  "parse_envelope echo_serializer bs = (if bs = [] then Inl (SerializerFailed ()) else Inr (envelope_new 1 (Some 7) bs, length bs))"
  by (simp add: parse_envelope_def echo_serializer_def)

lemma echo_budgets: "resolve_effective_budgets (ic_memory_budgets (echo_app asm n)) k = memory_budgets_new n n n"
  by (simp add: resolve_effective_budgets_def)

lemma echo_start:
  "stream_start (echo_app None n) () no_output 0 = Some (echo_connection None)"
  "stream_start (echo_app (Some m) n) () no_output 0 = Some (echo_connection (Some (assembly_with_budgets (min 20 n) 100 (Some n) (Some n))))"
  by (simp_all add: stream_start_def echo_budgets resolve_effective_budgets_def new_message_assembly_state_def echo_connection_def sample_config_def memory_budgets_new_def)

lemma held_bytes: "total_buffered_bytes half_message = 5"
  by (simp add: half_message_def total_buffered_bytes_def entries_weight_def partial_from_first_frame_def partial_buffered_bytes_def saturating_add_usize_def usize_max_def)

lemma held_turn:
  assumes "cn_assembly cn = None \<or> cn_assembly cn = Some (assembly_with_budgets 10 100 (Some 10) (Some 10)) \<or> cn_assembly cn = Some half_message"
    and "pl_fragmentation (cn_pipeline cn) = Some a" and "adapter_buffered_bytes a = 0"
  shows "process_loop ic (memory_budgets_new 10 10 10) ((pause, now, FrameRead f) # evs) cn =
    (case handle_frame ic now f cn of
       None \<Rightarrow> None
     | Some (cn', Inl err) \<Rightarrow> Some (cn', Some (Inl err))
     | Some (cn', Inr _) \<Rightarrow> process_loop ic (memory_budgets_new 10 10 10) evs cn')"
proof -
  have "total_buffered_bytes (assembly_with_budgets 10 100 (Some 10) (Some 10)) = 0"
    by (simp add: total_buffered_bytes_def assembly_with_budgets_def)
  then have "evaluate_memory_pressure (cn_assembly cn) (Some (memory_budgets_new 10 10 10)) 0 = PressureContinue"
    using assms(1) held_bytes
    by (auto simp: evaluate_memory_pressure_def has_hard_cap_been_breached_def should_pause_inbound_reads_def active_aggregate_limit_bytes_def
        buffered_for_pressure_def saturating_add_usize_def usize_max_def memory_budgets_new_def is_at_or_above_soft_limit_def saturating_mul_u128_def
        SOFT_LIMIT_NUMERATOR_def SOFT_LIMIT_DENOMINATOR_def)
  then show ?thesis using assms by (simp add: fragmentation_buffered_bytes_def apply_memory_pressure_def)
qed

lemma echo_adapter:
  "pl_fragmentation (cn_pipeline (echo_connection asm)) = Some (fragment_adapter_new sample_config)"
  "adapter_buffered_bytes (fragment_adapter_new sample_config) = 0"
  by (simp_all add: echo_connection_def pipeline_with_hooks_def fragment_adapter_new_def sample_config_def fragmenter_new_def with_starting_id_def
      adapter_buffered_bytes_def buffered_bytes_def reassembler_new_def reassembly_budget_new_def)

lemma echo_limits:
  "max_fragment_size (fa_fragmenter (fragment_adapter_new sample_config)) = 6"
  "next_message_id_counter (fa_fragmenter (fragment_adapter_new sample_config)) = 0"
  "fa_reassembler (fragment_adapter_new sample_config) = reassembler_new 20 100 (Some 2) (Some 10)"
  by (simp_all add: fragment_adapter_new_def sample_config_def fragmenter_new_def with_starting_id_def)

lemma echo_rejects:
  assumes "unat (cn_failures cn) < 9"
  shows "build_dispatchable_envelope (echo_app asm n) now [] cn = (cn\<lparr>cn_failures := cn_failures cn + 1\<rparr>, Inr None)"
  using assms by (simp add: build_dispatchable_envelope_def echo_parse decode_envelope_def fail_none_step(2))

lemma echo_reassembles:
  assumes "length bs < 6" and "bs \<noteq> []" and "pl_fragmentation pl = Some a"
  shows "reassemble_if_needed reference_bytes reference_bincode t (envelope_new 1 (Some 7) bs) pl m =
    (pl, m, Inr (Some (envelope_new 1 (Some 7) bs)))"
proof -
  have "decode_fragment_payload reference_bytes reference_bincode bs = Inr None" using assms(1) by (simp add: decode_fragment_payload_None)
  then show ?thesis using assms
    by (simp add: reassemble_if_needed_def adapter_reassemble_def handle_reassembly_result_def envelope_new_def fragment_parts_new_def
        envelope_fragmentable_def parts_from_envelope_def packet_parts_new_def envelope_from_parts_def)
qed

lemma echo_dispatches:
  assumes "length bs < 6" and "bs \<noteq> []" and "pl_fragmentation (cn_pipeline cn) = Some a"
  shows "build_dispatchable_envelope (echo_app None n) now bs cn = (cn\<lparr>cn_failures := 0\<rparr>, Inr (Some (envelope_new 1 (Some 7) bs)))"
  by (simp add: build_dispatchable_envelope_def echo_parse decode_envelope_def assemble_if_needed_def echo_reassembles [OF assms] assms(2))

abbreviation echo_service :: "(nat, unit) handler_service" where
  "echo_service \<equiv> \<lparr>hs_id = 1, hs_svc = route_service_call envelope_packet 1 (\<lambda>env. Suc)\<rparr>"

lemma echo_calls: "handler_service_call echo_service (service_request_new bs (Some 7)) s = (Suc s, Inr (service_response_new bs (Some 7)))"
  by (simp add: handler_service_call_def route_service_call_def envelope_packet_def service_request_new_def
      parts_from_envelope_def packet_parts_new_def envelope_from_parts_def envelope_new_def Let_def)

lemma echo_answers:
  assumes "bs \<noteq> []" and "length bs \<le> 6" and "pl_fragmentation (cn_pipeline cn) = Some a" and "max_fragment_size (fa_fragmenter a) = 6"
    and "next_message_id_counter (fa_fragmenter a) \<noteq> - 1" and "pl_out (cn_pipeline cn) = []"
  shows "\<exists>cn' a'. forward_response (echo_app asm n) (envelope_new 1 (Some 7) bs) echo_service cn = Some (cn', Inr ()) \<and>
    cn_app cn' = Suc (cn_app cn) \<and> os_wire (cn_out cn') = os_wire (cn_out cn) @ [bs] \<and>
    cn_failures cn' = cn_failures cn \<and> cn_assembly cn' = cn_assembly cn \<and>
    pl_fragmentation (cn_pipeline cn') = Some a' \<and> fa_reassembler a' = fa_reassembler a"
proof -
  let ?e = "envelope_new 1 (Some 7) bs" and ?f = "(fa_fragmenter a)\<lparr>next_message_id_counter := next_message_id_counter (fa_fragmenter a) + 1\<rparr>"
  have "fragment_count 6 bs = 1" using assms(2) fragment_count_small [of 6 bs] by simp
  then have frag: "adapter_fragment reference_bytes reference_bincode envelope_fragmentable a ?e = Some (a\<lparr>fa_fragmenter := ?f\<rparr>, Inr [?e])"
    using assms by (simp add: adapter_fragment_def fragment_packet_def fragment_bytes_def next_message_id_def
        fragment_with_id_eq is_fragmented_def Let_def
        envelope_fragmentable_def fragment_parts_new_def parts_from_envelope_def packet_parts_new_def envelope_from_parts_def envelope_new_def)
  have parts: "envelope_from_parts (inherit_correlation (Some 7) (packet_parts_new 1 (Some 7) bs)) = ?e"
    by (simp add: inherit_correlation_def packet_parts_new_def envelope_from_parts_def envelope_new_def)
  show ?thesis
    by (rule exI [of _ "fst (the (forward_response (echo_app asm n) ?e echo_service cn))"], rule exI [of _ "a\<lparr>fa_fragmenter := ?f\<rparr>"])
      (simp add: forward_response_def echo_calls service_response_new_def parts pipeline_process_def fragment_envelope_def assms(3,6) frag
        pipeline_push_frame_def flush_pipeline_output_def drain_output_def send_envelope_def encode_message_frame_def echo_transport_def
        pipeline_before_send_def hook_before_send_def no_hooks_def record_outcome_def)
qed

lemma first_frame_kept:
  assumes "cn_assembly cn = Some (assembly_with_budgets 10 100 (Some 10) (Some 10))" and "pl_fragmentation (cn_pipeline cn) = Some a" and "cn_failures cn = 0"
  shows "handle_frame (echo_app (Some open_message) n) (t, 0) [1, 2, 3, 4, 5] cn = Some (cn\<lparr>cn_assembly := Some half_message\<rparr>, Inr ())"
proof -
  let ?st = "assembly_with_budgets 10 100 (Some 10) (Some 10)"
  have "assemble_if_needed (Some open_message) 0 (envelope_new 1 (Some 7) [1, 2, 3, 4, 5]) (Some ?st) 0 = (Some half_message, 0, (Inr None :: unit connection_error + envelope option))"
    by (simp add: assemble_if_needed_def open_message_def parsed_frame_header_new_def process_first_frame_def checked_add_usize_def usize_max_def first_frame_input_new_def
       accept_first_frame_at_def assembly_purge_expired_at_def assembly_with_budgets_def hm_retain_def half_message_def validate_first_frame_def saturating_add_usize_def
       budgets_enabled_def check_aggregate_budgets_def total_buffered_bytes_def entries_weight_def hm_insert_def assembled_envelope_def Let_def)
  then show ?thesis
    using assms(3) by (cases cn) (use assms in \<open>simp add: handle_frame_def build_dispatchable_envelope_def echo_parse decode_envelope_def echo_reassembles\<close>)
qed

lemma first_fragment_held:
  assumes "pl_fragmentation (cn_pipeline cn) = Some (fragment_adapter_new sample_config)" and "cn_failures cn = 0"
    and "decode_fragment_payload reference_bytes reference_bincode frame = Inr (Some (\<lparr>fh_message_id = 1, fh_fragment_index = 0, fh_is_last_fragment = False\<rparr>, [1, 2, 3, 4, 5, 6]))"
    and "frame \<noteq> []"
  shows "\<exists>a. handle_frame (echo_app asm n) (0, t) frame cn = Some (cn\<lparr>cn_failures := 0, cn_pipeline := (cn_pipeline cn)\<lparr>pl_fragmentation := Some a\<rparr>\<rparr>, Inr ()) \<and> adapter_buffered_bytes a = 6"
proof -
  let ?h = "\<lparr>fh_message_id = 1, fh_fragment_index = 0, fh_is_last_fragment = False\<rparr>"
  let ?p = "push_at (reassembler_new 20 100 (Some 2) (Some 10)) ?h [1, 2, 3, 4, 5, 6] 0"
  have "snd ?p = Inr None \<and> buffered_bytes (fst ?p) = 6"
    by (simp add: push_at_def purge_expired_at_def hm_retain_def push_first_fragment_def
        start_with_first_def advance_accepted_def fragment_series_new_def fragment_index_zero_def
        checked_increment_def checked_inc_u32_def assert_within_message_limit_def
        assert_within_partial_limit_def add_bytes_def checked_add_usize_def usize_max_def
        reassembler_new_def reassembly_budget_new_def buffered_bytes_def saturating_add_usize_def Let_def)
  then obtain r where push: "?p = (r, Inr None)" "buffered_bytes r = 6" by (metis prod.collapse)
  have "adapter_reassemble reference_bytes reference_bincode envelope_fragmentable (fragment_adapter_new sample_config) (envelope_new 1 (Some 7) frame) 0 =
     ((fragment_adapter_new sample_config)\<lparr>fa_reassembler := r\<rparr>, Inr None)"
    using assms(3) push by (simp add: adapter_reassemble_def fragment_adapter_new_def sample_config_def
        envelope_fragmentable_def fragment_parts_new_def parts_from_envelope_def packet_parts_new_def Let_def)
  then show ?thesis using assms push
    by (auto simp: handle_frame_def build_dispatchable_envelope_def echo_parse decode_envelope_def reassemble_if_needed_def
        handle_reassembly_result_def adapter_buffered_bytes_def intro!: exI [of _ "(fragment_adapter_new sample_config)\<lparr>fa_reassembler := r\<rparr>"])
qed

lemma echo_rejected_run:
  "\<exists>cn. process_loop (echo_app None 10) (memory_budgets_new 10 10 10) (frames_read [[], [1], []]) (echo_connection None) = Some (cn, None) \<and>
    cn_app cn = 1"
proof -
  let ?ic = "echo_app None 10" and ?start = "echo_connection None" and ?b = "memory_budgets_new 10 10 10"
  let ?cn = "(echo_connection None)\<lparr>cn_failures := 1\<rparr>"
  let ?served = "(echo_connection None)\<lparr>cn_failures := 0\<rparr>"
  let ?a = "fragment_adapter_new sample_config"
  note a = echo_adapter(1) [of None] echo_limits(1,2) echo_adapter(2)
  have c0: "cn_failures ?start = 0" "cn_assembly ?start = None" "pl_out (cn_pipeline ?start) = []" "cn_app ?start = 0"
    by (simp_all add: echo_connection_def pipeline_with_hooks_def)
  have one: "handle_frame ?ic now [] cn = Some (cn\<lparr>cn_failures := cn_failures cn + 1\<rparr>, Inr ())" if "unat (cn_failures cn) < 9" for now cn
    by (simp add: handle_frame_def echo_rejects [OF that])
  have two: "handle_frame ?ic now [1] ?cn = forward_response ?ic (envelope_new 1 (Some 7) [1]) echo_service ?served" for now
    using echo_dispatches [of "[1]" ?cn] a by (simp add: handle_frame_def)
  obtain cn' a' where three: "forward_response ?ic (envelope_new 1 (Some 7) [1]) echo_service ?served = Some (cn', Inr ())"
    "cn_app cn' = 1" "cn_failures cn' = 0" "cn_assembly cn' = None"
    "pl_fragmentation (cn_pipeline cn') = Some a'" "fa_reassembler a' = fa_reassembler ?a"
    using echo_answers [of "[1]" ?served ?a None 10] a c0 by auto
  then have a': "adapter_buffered_bytes a' = 0" using a(4) by (simp add: adapter_buffered_bytes_def)
  have "process_loop ?ic ?b (frames_read [[], [1], []]) ?start =
     Some (cn'\<lparr>cn_failures := 1\<rparr>, None)"
    using a(1,4) c0 three(3-5) a' by (simp add: held_turn one two three(1) del: process_loop.simps(2))
  then show ?thesis using three(2) by simp
qed

lemma both_buffers_run:
  "\<exists>frame cn a. process_stream (echo_app (Some open_message) 10) (frames_read [[1, 2, 3, 4, 5], frame]) () no_output 0 = Some (cn, None) \<and>
     cn_assembly cn = Some half_message \<and> pl_fragmentation (cn_pipeline cn) = Some a \<and> adapter_buffered_bytes a = 6"
proof -
  let ?h = "\<lparr>fh_message_id = 1, fh_fragment_index = 0, fh_is_last_fragment = False\<rparr>"
  let ?ic = "echo_app (Some open_message) 10" and ?start = "echo_connection (Some (assembly_with_budgets 10 100 (Some 10) (Some 10)))"
  let ?mid = "?start\<lparr>cn_assembly := Some half_message\<rparr>"
  obtain frame where frame: "decode_fragment_payload reference_bytes reference_bincode frame = Inr (Some (?h, [1, 2, 3, 4, 5, 6]))"
    and len: "length frame = 6 + header_len ?h + length [1 :: u8, 2, 3, 4, 5, 6]"
    using fragment_payload_codec [OF reference_bytes_documented reference_bincode_documented] by metis
  have ne: "frame \<noteq> []" using len by auto
  have start: "cn_failures ?start = 0" "cn_assembly ?start = Some (assembly_with_budgets 10 100 (Some 10) (Some 10))"
    by (simp_all add: echo_connection_def)
  have mid: "pl_fragmentation (cn_pipeline ?mid) = Some (fragment_adapter_new sample_config)" "cn_failures ?mid = 0"
    by (simp_all add: echo_adapter(1) start(1))
  note one = first_frame_kept [OF start(2) echo_adapter(1) start(1), of 10 0]
  obtain a where two: "handle_frame ?ic (0, 0) frame ?mid = Some (?mid\<lparr>cn_failures := 0, cn_pipeline := (cn_pipeline ?mid)\<lparr>pl_fragmentation := Some a\<rparr>\<rparr>, Inr ())"
    "adapter_buffered_bytes a = 6"
    using first_fragment_held [OF mid frame ne, of "Some open_message" 10 0] by blast
  have "process_stream ?ic (frames_read [[1, 2, 3, 4, 5], frame]) () no_output 0 =
      Some (?mid\<lparr>cn_failures := 0, cn_pipeline := (cn_pipeline ?mid)\<lparr>pl_fragmentation := Some a\<rparr>\<rparr>, None)"
    using one two(1) start echo_adapter
    by (simp add: process_stream_def echo_start resolve_effective_budgets_def held_turn del: process_loop.simps(2))
  moreover have "cn_assembly (?mid\<lparr>cn_failures := 0, cn_pipeline := (cn_pipeline ?mid)\<lparr>pl_fragmentation := Some a\<rparr>\<rparr>) = Some half_message"
    "pl_fragmentation (cn_pipeline (?mid\<lparr>cn_failures := 0, cn_pipeline := (cn_pipeline ?mid)\<lparr>pl_fragmentation := Some a\<rparr>\<rparr>)) = Some a" by simp_all
  ultimately show ?thesis using two(2) by blast
qed

abbreviation two_byte_peer :: fragment_adapter where
  "two_byte_peer \<equiv> \<lparr>fa_fragmenter = fragmenter_new 2, fa_reassembler = reassembler_new 20 100 (Some 2) (Some 10)\<rparr>"

lemma peer_sends:
  "\<exists>p f g. adapter_fragment reference_bytes reference_bincode envelope_fragmentable two_byte_peer (envelope_new 1 (Some 7) [1, 2, 3]) =
     Some (p, Inr [envelope_new 1 (Some 7) f, envelope_new 1 (Some 7) g]) \<and> f \<noteq> [] \<and> g \<noteq> [] \<and> length f + length g \<le> 45"
proof -
  let ?h = "\<lambda>i l. \<lparr>fh_message_id = 0, fh_fragment_index = i, fh_is_last_fragment = l\<rparr>"
  obtain f where f: "encode_fragment_payload reference_bytes reference_bincode (?h 0 False) [1, 2] = Inr f"
    and fl: "length f = 6 + header_len (?h 0 False) + length [1 :: u8, 2]"
    using fragment_payload_codec [OF reference_bytes_documented reference_bincode_documented] by metis
  obtain g where g: "encode_fragment_payload reference_bytes reference_bincode (?h 1 True) [3] = Inr g"
    and gl: "length g = 6 + header_len (?h 1 True) + length [3 :: u8]"
    using fragment_payload_codec [OF reference_bytes_documented reference_bincode_documented] by metis
  have frs: "fragments_of 2 0 [1, 2, 3] = [\<lparr>ff_header = ?h 0 False, ff_payload = [1, 2]\<rparr>, \<lparr>ff_header = ?h 1 True, ff_payload = [3]\<rparr>]"
    by (simp add: fragments_of_def fragment_at_def fragment_count_def upt_conv_Cons)
  have "\<exists>p. adapter_fragment reference_bytes reference_bincode envelope_fragmentable two_byte_peer (envelope_new 1 (Some 7) [1, 2, 3]) =
     Some (p, Inr [envelope_new 1 (Some 7) f, envelope_new 1 (Some 7) g])"
    using f g by (simp add: adapter_fragment_def fragment_packet_def fragment_bytes_def next_message_id_def fragmenter_new_def with_starting_id_def
        fragment_with_id_eq is_fragmented_def fragment_count_def frs envelope_fragmentable_def fragment_parts_new_def parts_from_envelope_def
        packet_parts_new_def envelope_from_parts_def Let_def)
  moreover have "length f + length g \<le> 45" using fl gl header_len_bounds(2) [of "?h 0 False"] header_len_bounds(2) [of "?h 1 True"] by simp
  moreover have "f \<noteq> []" "g \<noteq> []" using fl gl by auto
  ultimately show ?thesis by blast
qed

end
