(* ===== verification/Inbound_Properties.thy ===== *)
theory Inbound_Properties
  imports Echo_Application
begin

text \<open>
  Properties of the connection loop: its buffers stay within their limits and its failures are counted exactly.
\<close>

section \<open>Stages\<close>

definition adapter_ok :: "fragmentation_config option \<Rightarrow> fragment_adapter option \<Rightarrow> bool" where
  "adapter_ok config a \<longleftrightarrow>
     (case (config, a) of
        (None, None) \<Rightarrow> True
      | (Some cfg, Some a) \<Rightarrow> reassembler_inv_for (cfg_max_message_size cfg) (cfg_reassembly_timeout cfg)
          (cfg_max_concurrent_partials cfg) (cfg_max_buffered_bytes cfg) (fa_reassembler a)
      | _ \<Rightarrow> False)"

definition assembly_within :: "memory_budgets \<Rightarrow> assembly_state option \<Rightarrow> bool" where
  "assembly_within b asm \<longleftrightarrow>
     (case asm of None \<Rightarrow> True
      | Some st \<Rightarrow> asm_inv st \<and> as_max_message_size st \<le> bytes_per_message b \<and>
          as_budgets st = \<lparr>ab_connection = Some (bytes_per_connection b), ab_in_flight = Some (bytes_in_flight b)\<rparr>)"

definition conn_ok :: "fragmentation_config option \<Rightarrow> memory_budgets \<Rightarrow> ('k, 'w, 'h, 's) connection \<Rightarrow> bool" where
  "conn_ok config b cn \<longleftrightarrow> adapter_ok config (pl_fragmentation (cn_pipeline cn)) \<and> pl_out (cn_pipeline cn) = [] \<and>
     assembly_within b (cn_assembly cn)"

lemma adapter_reassemble_ok:
  assumes "reassembler_inv_for m t c l (fa_reassembler a)" and "adapter_reassemble api hc tr a e now = (a', r)"
  shows "reassembler_inv_for m t c l (fa_reassembler a')"
  using assms reassembler_inv_for_push [OF assms(1)]
  by (auto simp: adapter_reassemble_def Let_def split: sum.splits option.splits prod.splits)

lemma reassemble_ok:
  assumes "adapter_ok config (pl_fragmentation pl)" and "reassemble_if_needed api hc now e pl n = (pl', n', r)"
  shows "adapter_ok config (pl_fragmentation pl')" "pl_out pl' = pl_out pl" "pl_context pl' = pl_context pl"
  using assms adapter_reassemble_ok
  by (auto simp: reassemble_if_needed_def adapter_ok_def Let_def split: option.splits prod.splits)

text \<open>What a stage does to the failure count: nothing, or one failure.\<close>

definition counted :: "u32 \<Rightarrow> u32 \<times> ('x connection_error + 'a option) \<Rightarrow> bool" where
  "counted n out \<longleftrightarrow> fst out = n \<or> out = fail_none n"

lemma reassemble_counted:
  "counted n (snd (reassemble_if_needed api hc now e pl n))"
  by (auto simp: reassemble_if_needed_def handle_reassembly_result_def counted_def Let_def
      split: option.splits prod.splits sum.splits fragment_adapter_error.splits reassembly_error.splits)

lemma first_frame_stage:
  assumes "process_first_frame h bs routing now st n = (st', n', r)"
  shows "st' = st \<or> (\<exists>input res. accept_first_frame_at st input now = (st', res))" "counted n (n', r)"
  using assms
  by (auto simp: process_first_frame_def counted_def split: option.splits if_splits sum.splits prod.splits)

lemma continuation_stage:
  assumes "process_continuation_frame h bs now st n = (st', n', r)"
  shows "st' = st \<or> (\<exists>res. accept_continuation_frame_at st h bs now = (st', res))" "counted n (n', r)"
  using assms by (auto simp: process_continuation_frame_def counted_def split: if_splits sum.splits prod.splits)

lemma assembly_within_handle:
  assumes "assembly_within b (Some st)" and "assembly_handle st e = (st', res)"
  shows "assembly_within b (Some st')"
  using assms assembly_handle_frame [of st e st' res] by (auto simp: assembly_within_def same_config_def)

lemma fail_none_assembled: "fail_none n = (n', r) \<Longrightarrow> fail_none n = (n', assembled_envelope r)"
  by (auto simp: fail_none_def assembled_envelope_def split: prod.splits sum.splits)

lemma assemble_framed:
  fixes r :: "'x connection_error + envelope option"
  assumes "parse_header (env_payload e) = Inr parsed" and "pfh_header_len parsed \<le> length (env_payload e)"
    and "assemble_if_needed (Some parse_header) now e (Some st) n = (asm', n', r)"
  obtains st' r' bs routing where "asm' = Some st'" "r = assembled_envelope r'"
    "(st', n', r') = (case pfh_header parsed of First h \<Rightarrow> process_first_frame h bs routing now st n
       | Continuation h \<Rightarrow> process_continuation_frame h bs now st n)"
proof -
  let ?bs = "drop (pfh_header_len parsed) (env_payload e)"
  let ?routing = "\<lparr>er_envelope_id = env_id e, er_correlation_id = env_correlation_id e\<rparr>"
  obtain st' m and r' :: "'x connection_error + assembled_message option" where out: "(case pfh_header parsed of First h \<Rightarrow> process_first_frame h ?bs ?routing now st n
       | Continuation h \<Rightarrow> process_continuation_frame h ?bs now st n) = (st', m, r')" by (metis prod_cases3)
  have "asm' = Some st'" "n' = m" "r = assembled_envelope r'"
    using assms out by (simp_all add: assemble_if_needed_def Let_def)
  then show thesis using that out by metis
qed

lemma assemble_stage:
  assumes "assemble_if_needed assembler now e asm n = (asm', n', r)"
  shows "counted n (n', r) \<and> (asm' = asm \<or> (\<exists>st st' ev res. asm = Some st \<and> asm' = Some st' \<and> assembly_handle st ev = (st', res)))"
proof -
  consider (plain) "assembler = None \<or> asm = None" | (bad) ph st where "assembler = Some ph" "asm = Some st"
      "\<nexists>parsed. ph (env_payload e) = Inr parsed \<and> pfh_header_len parsed \<le> length (env_payload e)"
    | (framed) ph st parsed where "assembler = Some ph" "asm = Some st" "ph (env_payload e) = Inr parsed"
      "pfh_header_len parsed \<le> length (env_payload e)"
    by (metis option.exhaust)
  then show ?thesis
  proof cases
    case plain
    then show ?thesis using assms by (cases assembler) (auto simp: assemble_if_needed_def counted_def)
  next
    case bad
    then have "(asm', n', r) = (asm, fail_none n)"
      using assms by (auto simp: assemble_if_needed_def split: sum.splits if_splits)
    then show ?thesis by (simp add: counted_def)
  next
    case framed
    from assms [unfolded framed(1,2)] obtain st' r' bs routing where out: "asm' = Some st'" "r = assembled_envelope r'"
      "(st', n', r') = (case pfh_header parsed of First h \<Rightarrow> process_first_frame h bs routing now st n
         | Continuation h \<Rightarrow> process_continuation_frame h bs now st n)"
      by (rule assemble_framed [where parse_header = ph and e = e and parsed = parsed, OF framed(3,4)])
    have "counted n (n', r') \<and> (st' = st \<or> (\<exists>ev res. assembly_handle st ev = (st', res)))"
    proof (cases "pfh_header parsed")
      case (First h)
      with out(3) have "process_first_frame h bs routing now st n = (st', n', r')" by simp
      from first_frame_stage [OF this] show ?thesis by (metis assembly_handle.simps(1))
    next
      case (Continuation h)
      with out(3) have "process_continuation_frame h bs now st n = (st', n', r')" by simp
      from continuation_stage [OF this] show ?thesis by (metis assembly_handle.simps(2))
    qed
    then show ?thesis using out(1,2) framed(2) fail_none_assembled [of n n' r'] by (auto simp: counted_def)
  qed
qed

lemma assemble_ok:
  assumes "assembly_within b asm" and "assemble_if_needed assembler now e asm n = (asm', n', r)"
  shows "assembly_within b asm'"
  using assms(1) assemble_stage [OF assms(2)] assembly_within_handle by blast

section \<open>One frame\<close>

text \<open>What becomes of a frame, seen with a fresh failure count.\<close>

datatype frame_outcome = Dispatched envelope | Absorbed | Rejected | Aborted

definition frame_outcome ::
    "('f, 'k, 'w, 'x, 'p, 'e, 'ph, 'h, 's, 'v) inbound_context \<Rightarrow> clock \<Rightarrow> 'f \<Rightarrow> ('k, 'w, 'h, 's) connection \<Rightarrow> frame_outcome" where
  "frame_outcome ic now frame cn =
     (case build_dispatchable_envelope ic now frame (cn\<lparr>cn_failures := 0\<rparr>) of
        (cn', Inl _) \<Rightarrow> Aborted
      | (cn', Inr (Some e)) \<Rightarrow> Dispatched e
      | (cn', Inr None) \<Rightarrow> if cn_failures cn' = 0 then Absorbed else Rejected)"

lemma build_ok:
  fixes ic :: "('f, 'k, 'w, 'x, 'p, 'e, 'ph, 'h, 's, 'v) inbound_context"
  assumes "conn_ok config b cn" and "build_dispatchable_envelope ic now frame cn = (cn', r)"
  shows "conn_ok config b cn' \<and> cn_out cn' = cn_out cn \<and> cn_app cn' = cn_app cn"
proof -
  obtain n1 and r1 :: "'x connection_error + envelope option" where dec: "decode_envelope
      (parse_envelope (ic_serializer ic) (ic_frame_payload ic frame)) (ic_frame_correlation ic frame) (cn_failures cn) = (n1, r1)" by fastforce
  consider (stop) "cn' = cn\<lparr>cn_failures := n1\<rparr>" | (go) e1 where "r1 = Inr (Some e1)"
    using assms(2) by (cases r1; cases "projr r1") (simp_all add: build_dispatchable_envelope_def dec)
  then show ?thesis
  proof cases
    case stop
    then show ?thesis using assms(1) by (simp add: conn_ok_def)
  next
    case (go e1)
    obtain pl n2 and r2 :: "'x connection_error + envelope option" where
      re: "reassemble_if_needed (ic_bytes ic) (ic_header_codec ic) (fst now) e1 (cn_pipeline cn) n1 = (pl, n2, r2)" by (metis prod_cases3)
    have pl: "adapter_ok config (pl_fragmentation pl)" "pl_out pl = []"
      using assms(1) reassemble_ok(1,2) [OF _ re, of config] by (simp_all add: conn_ok_def)
    have asm0: "assembly_within b (cn_assembly cn)" using assms(1) by (simp add: conn_ok_def)
    consider (stop2) "cn' = cn\<lparr>cn_failures := n2, cn_pipeline := pl\<rparr>" | (go2) e2 where "r2 = Inr (Some e2)"
      using assms(2) by (cases r2; cases "projr r2") (simp_all add: build_dispatchable_envelope_def dec go re)
    then show ?thesis
    proof cases
      case stop2
      then show ?thesis using asm0 pl by (simp add: conn_ok_def)
    next
      case (go2 e2)
      obtain asm n3 and r3 :: "'x connection_error + envelope option" where
        as: "assemble_if_needed (ic_assembler ic) (snd now) e2 (cn_assembly cn) n2 = (asm, n3, r3)" by (metis prod_cases3)
      have "\<exists>m. cn' = cn\<lparr>cn_failures := m, cn_pipeline := pl, cn_assembly := asm\<rparr>"
        using assms(2) by (cases r3; cases "projr r3") (auto simp: build_dispatchable_envelope_def dec go re go2 as)
      then show ?thesis using assemble_ok [OF asm0 as] pl by (auto simp: conn_ok_def)
    qed
  qed
qed

text \<open>A stage either fails, whatever the failure count, or does not look at the count.\<close>

definition uniform :: "(u32 \<Rightarrow> 'a \<times> u32 \<times> ('x connection_error + 'b option)) \<Rightarrow> bool" where
  "uniform f \<longleftrightarrow> (\<exists>st. f = (\<lambda>n. (st, fail_none n))) \<or>
     (\<exists>st r. f = (\<lambda>n. (st, n, r)) \<and> (\<forall>m. r \<noteq> Inl (InvalidDataMessage m)))"

lemma uniform_fail [simp]: "uniform (\<lambda>n. (st, fail_none n))"
  by (auto simp: uniform_def)

lemma uniform_keep [simp]: "(\<And>m. r \<noteq> Inl (InvalidDataMessage m)) \<Longrightarrow> uniform (\<lambda>n. (st, n, r))"
  unfolding uniform_def by blast

lemma uniform_assembled:
  fixes f :: "u32 \<Rightarrow> 'a \<times> u32 \<times> ('x connection_error + assembled_message option)"
  assumes "uniform f"
  shows "uniform (\<lambda>n. let (st, n', r) = f n in (g st, n', assembled_envelope r))"
proof -
  consider st where "f = (\<lambda>n. (st, fail_none n))" | st r where "f = (\<lambda>n. (st, n, r))" "\<forall>m. r \<noteq> Inl (InvalidDataMessage m)"
    using assms unfolding uniform_def by blast
  then show ?thesis
  proof cases
    case 1
    have "(let (st, n', r) = f n in (g st, n', assembled_envelope r)) = (g st, fail_none n)" for n
    proof -
      obtain a and b :: "'x connection_error + assembled_message option" where fn: "fail_none n = (a, b)" by fastforce
      then show ?thesis by (simp add: 1 fn fail_none_assembled [OF fn])
    qed
    then show ?thesis by simp
  next
    case 2
    then have "assembled_envelope r \<noteq> Inl (InvalidDataMessage m)" for m by (auto simp: assembled_envelope_def split: sum.splits)
    then show ?thesis by (simp add: 2)
  qed
qed

lemma reassemble_uniform: "uniform (\<lambda>n. reassemble_if_needed api hc now e pl n)"
proof (cases "pl_fragmentation pl")
  case None
  then show ?thesis by (simp add: reassemble_if_needed_def)
next
  case (Some a)
  obtain a' r where r: "adapter_reassemble api hc envelope_fragmentable a e now = (a', r)" by fastforce
  consider v where "r = Inr v" | d where "r = Inl (AdapterDecode d)" | x where "r = Inl (AdapterReassembly x)"
    by (metis fragment_adapter_error.exhaust sumE)
  then show ?thesis
  proof cases
    case 3
    then show ?thesis by (cases x) (simp_all add: Some r reassemble_if_needed_def handle_reassembly_result_def)
  qed (simp_all add: Some r reassemble_if_needed_def handle_reassembly_result_def)
qed

lemma first_frame_uniform: "uniform (\<lambda>n. process_first_frame h bs routing now st n)"
proof (cases "checked_add_usize (ffh_metadata_len h) (ffh_body_len h)")
  case (Some l)
  let ?input = "first_frame_input_new h routing (take (ffh_metadata_len h) bs) (drop (ffh_metadata_len h) bs)"
  show ?thesis
  proof (cases "length bs \<noteq> l \<or> length bs < ffh_metadata_len h")
    case False
    show ?thesis
    proof (cases ?input)
      case (Inr input)
      obtain st' r where "accept_first_frame_at st input now = (st', r)" by fastforce
      then show ?thesis using Some False Inr by (cases r) (simp_all add: process_first_frame_def)
    qed (use Some False in \<open>simp add: process_first_frame_def\<close>)
  next
    case True
    then show ?thesis using Some by (cases "length bs = l") (simp_all add: process_first_frame_def)
  qed
qed (simp add: process_first_frame_def)

lemma continuation_uniform: "uniform (\<lambda>n. process_continuation_frame h bs now st n)"
proof (cases "length bs = cfh_body_len h")
  case True
  obtain st' r where "accept_continuation_frame_at st h bs now = (st', r)" by fastforce
  then show ?thesis using True by (cases r) (simp_all add: process_continuation_frame_def)
qed (simp add: process_continuation_frame_def)

lemma assemble_uniform: "uniform (\<lambda>n. assemble_if_needed assembler now e asm n)"
proof -
  consider (plain) "assembler = None \<or> asm = None" | (bad) ph st err where "assembler = Some ph" "asm = Some st" "ph (env_payload e) = Inl err"
    | (framed) ph st parsed where "assembler = Some ph" "asm = Some st" "ph (env_payload e) = Inr parsed"
    by (metis option.exhaust sumE)
  then show ?thesis
  proof cases
    case plain
    then show ?thesis by (cases assembler) (auto simp: assemble_if_needed_def)
  next
    case framed
    have "uniform (\<lambda>n. case pfh_header parsed of First h \<Rightarrow> process_first_frame h bs routing now st n
       | Continuation h \<Rightarrow> process_continuation_frame h bs now st n)" for bs routing
      by (cases "pfh_header parsed") (simp_all add: first_frame_uniform continuation_uniform)
    from uniform_assembled [OF this, where g = Some] show ?thesis
      using framed by (cases "length (env_payload e) < pfh_header_len parsed") (simp_all add: assemble_if_needed_def Let_def)
  qed (simp add: assemble_if_needed_def)
qed


lemma fail_none_cases:
  fixes out :: "u32 \<times> ('x connection_error + 'a option)"
  assumes "out = fail_none n"
  obtains n' err where "fail_none n = (n', Inl err :: 'x connection_error + 'a option)" "out = (n', Inl err)"
  | n' where "fail_none n = (n', Inr None :: 'x connection_error + 'a option)" "out = (n', Inr None)"
proof -
  obtain a and b :: "'x connection_error + unit" where "record_failure MAX_DESER_FAILURES n = (a, b)" by fastforce
  then have "out = (a, case b of Inl e \<Rightarrow> Inl e | Inr _ \<Rightarrow> Inr None)" using assms by (cases b) (simp_all add: fail_none_def)
  then show thesis using that assms by (cases b) auto
qed

text \<open>The four outcomes of a frame, for every failure count.\<close>

lemma build_cases:
  fixes ic :: "('f, 'k, 'w, 'x, 'p, 'e, 'ph, 'h, 's, 'v) inbound_context" and cn :: "('k, 'w, 'h, 's) connection"
  obtains
    (dispatched) cn0 e where "\<And>n. build_dispatchable_envelope ic now frame (cn\<lparr>cn_failures := n\<rparr>) = (cn0\<lparr>cn_failures := 0\<rparr>, Inr (Some e))"
  | (absorbed) cn0 where "\<And>n. build_dispatchable_envelope ic now frame (cn\<lparr>cn_failures := n\<rparr>) = (cn0\<lparr>cn_failures := n\<rparr>, Inr None)"
  | (rejected) cn0 where "\<And>n. build_dispatchable_envelope ic now frame (cn\<lparr>cn_failures := n\<rparr>) =
      (cn0\<lparr>cn_failures := fst (fail_none n :: u32 \<times> ('x connection_error + envelope option))\<rparr>, snd (fail_none n))"
  | (aborted) cn0 err where "\<And>n. build_dispatchable_envelope ic now frame (cn\<lparr>cn_failures := n\<rparr>) = (cn0\<lparr>cn_failures := n\<rparr>, Inl err)"
      "\<And>m. err \<noteq> InvalidDataMessage m"
proof (cases "parse_envelope (ic_serializer ic) (ic_frame_payload ic frame)")
  case (Inl e)
  have "build_dispatchable_envelope ic now frame (cn\<lparr>cn_failures := n\<rparr>) =
      (cn\<lparr>cn_failures := fst (fail_none n :: u32 \<times> ('x connection_error + envelope option))\<rparr>, snd (fail_none n))" for n
    by (rule fail_none_cases [of "fail_none n :: u32 \<times> ('x connection_error + envelope option)" n]) (simp_all add: build_dispatchable_envelope_def decode_envelope_def Inl)
  then show thesis by (rule rejected)
next
  case (Inr parsed)
  define e1 where "e1 = (if env_correlation_id (fst parsed) = None then (fst parsed)\<lparr>env_correlation_id := ic_frame_correlation ic frame\<rparr> else fst parsed)"
  have dec: "decode_envelope (parse_envelope (ic_serializer ic) (ic_frame_payload ic frame)) (ic_frame_correlation ic frame) n =
      (n, Inr (Some e1))" for n
    by (simp add: decode_envelope_def Inr e1_def split_beta)
  let ?re = "\<lambda>n. reassemble_if_needed (ic_bytes ic) (ic_header_codec ic) (fst now) e1 (cn_pipeline cn) n :: _ \<times> u32 \<times> ('x connection_error + envelope option)"
  have "uniform ?re" by (rule reassemble_uniform)
  then consider pl where "?re = (\<lambda>n. (pl, fail_none n))" | pl where "?re = (\<lambda>n. (pl, n, Inr None))"
    | pl err where "?re = (\<lambda>n. (pl, n, Inl err))" "\<And>m. err \<noteq> InvalidDataMessage m" | pl e2 where "?re = (\<lambda>n. (pl, n, Inr (Some e2)))"
    unfolding uniform_def by (metis option.exhaust sumE)
  then show thesis
  proof cases
    case (1 pl)
    have "build_dispatchable_envelope ic now frame (cn\<lparr>cn_failures := n\<rparr>) =
        (cn\<lparr>cn_failures := fst (fail_none n :: u32 \<times> ('x connection_error + envelope option)), cn_pipeline := pl\<rparr>, snd (fail_none n))" for n
      by (rule fail_none_cases [of "fail_none n :: u32 \<times> ('x connection_error + envelope option)" n]) (simp_all add: build_dispatchable_envelope_def dec fun_cong [OF 1])
    then show thesis by (intro rejected [of "cn\<lparr>cn_pipeline := pl\<rparr>"]) simp
  next
    case (2 pl)
    then show thesis by (intro absorbed [of "cn\<lparr>cn_pipeline := pl\<rparr>"]) (simp add: build_dispatchable_envelope_def dec fun_cong [OF 2])
  next
    case (3 pl err)
    then show thesis by (intro aborted [of "cn\<lparr>cn_pipeline := pl\<rparr>" err]) (simp_all add: build_dispatchable_envelope_def dec fun_cong [OF 3(1)])
  next
    case re: (4 pl e2)
    let ?as = "\<lambda>n. assemble_if_needed (ic_assembler ic) (snd now) e2 (cn_assembly cn) n :: _ \<times> u32 \<times> ('x connection_error + envelope option)"
    have "uniform ?as" by (rule assemble_uniform)
    then consider asm where "?as = (\<lambda>n. (asm, fail_none n))" | asm where "?as = (\<lambda>n. (asm, n, Inr None))"
      | asm err where "?as = (\<lambda>n. (asm, n, Inl err))" "\<And>m. err \<noteq> InvalidDataMessage m" | asm e3 where "?as = (\<lambda>n. (asm, n, Inr (Some e3)))"
      unfolding uniform_def by (metis option.exhaust sumE)
    then show thesis
    proof cases
      case (1 asm)
      have "build_dispatchable_envelope ic now frame (cn\<lparr>cn_failures := n\<rparr>) =
          (cn\<lparr>cn_failures := fst (fail_none n :: u32 \<times> ('x connection_error + envelope option)), cn_pipeline := pl, cn_assembly := asm\<rparr>, snd (fail_none n))" for n
        by (rule fail_none_cases [of "fail_none n :: u32 \<times> ('x connection_error + envelope option)" n]) (simp_all add: build_dispatchable_envelope_def dec fun_cong [OF re] fun_cong [OF 1])
      then show thesis by (intro rejected [of "cn\<lparr>cn_pipeline := pl, cn_assembly := asm\<rparr>"]) simp
    next
      case (2 asm)
      then show thesis
        by (intro absorbed [of "cn\<lparr>cn_pipeline := pl, cn_assembly := asm\<rparr>"])
          (simp add: build_dispatchable_envelope_def dec fun_cong [OF re] fun_cong [OF 2])
    next
      case (3 asm err)
      then show thesis
        by (intro aborted [of "cn\<lparr>cn_pipeline := pl, cn_assembly := asm\<rparr>" err])
          (simp_all add: build_dispatchable_envelope_def dec fun_cong [OF re] fun_cong [OF 3(1)])
    next
      case (4 asm e3)
      then show thesis
        by (intro dispatched [of "cn\<lparr>cn_pipeline := pl, cn_assembly := asm\<rparr>" e3])
          (simp add: build_dispatchable_envelope_def dec fun_cong [OF re] fun_cong [OF 4])
    qed
  qed
qed


section \<open>Responses\<close>

lemma send_envelope_pipeline:
  assumes "send_envelope tr hooks e (pl, out) = ((pl', out'), r)"
  shows "pl_fragmentation pl' = pl_fragmentation pl \<and> pl_out pl' = pl_out pl \<and> (\<forall>m. r \<noteq> Inl (InvalidDataMessage m))"
  using assms by (auto simp: send_envelope_def pipeline_before_send_def Let_def split: prod.splits sum.splits)

lemma send_envelopes_pipeline:
  assumes "send_envelopes tr hooks es (pl, out) = ((pl', out'), r)"
  shows "pl_fragmentation pl' = pl_fragmentation pl \<and> pl_out pl' = pl_out pl \<and> (\<forall>m. r \<noteq> Inl (InvalidDataMessage m))"
  using assms
proof (induction es arbitrary: pl out)
  case (Cons e es)
  obtain pl1 out1 r1 where s: "send_envelope tr hooks e (pl, out) = ((pl1, out1), r1)" by (metis prod.exhaust)
  then show ?case using Cons send_envelope_pipeline [OF s] by (cases r1) auto
qed auto

lemma push_frames: "fold pipeline_push_frame es pl = pl\<lparr>pl_out := pl_out pl @ es\<rparr>"
  by (induction es arbitrary: pl) (simp_all add: pipeline_push_frame_def)

lemma process_pipeline:
  assumes "pipeline_process api hc e pl = Some (pl', r)"
  shows "map_option fa_reassembler (pl_fragmentation pl') = map_option fa_reassembler (pl_fragmentation pl)"
    "pl_context pl' = pl_context pl" "r = Inl err \<Longrightarrow> pl_out pl' = pl_out pl \<and> (\<forall>m. err \<noteq> InvalidDataMessage m)"
proof -
  obtain pl1 r1 where f: "fragment_envelope api hc e pl = Some (pl1, r1)" using assms by (auto simp: pipeline_process_def)
  then have "map_option fa_reassembler (pl_fragmentation pl1) = map_option fa_reassembler (pl_fragmentation pl) \<and>
      pl_context pl1 = pl_context pl \<and> pl_out pl1 = pl_out pl"
    by (cases "pl_fragmentation pl") (auto simp: fragment_envelope_def adapter_fragment_def)
  then show "map_option fa_reassembler (pl_fragmentation pl') = map_option fa_reassembler (pl_fragmentation pl)"
    "pl_context pl' = pl_context pl" "r = Inl err \<Longrightarrow> pl_out pl' = pl_out pl \<and> (\<forall>m. err \<noteq> InvalidDataMessage m)"
    using assms f by (cases r1; auto simp: pipeline_process_def push_frames)+
qed

lemma adapter_ok_cong: "map_option fa_reassembler a' = map_option fa_reassembler a \<Longrightarrow> adapter_ok config a' = adapter_ok config a"
  by (auto simp: adapter_ok_def map_option_eq_Some split: option.splits)

lemma forward_ok:
  fixes ic :: "('f, 'k, 'w, 'x, 'p, 'e, 'ph, 'h, 's, 'v) inbound_context"
  assumes "conn_ok config b cn" and "forward_response ic e service cn = Some (cn', r)"
  shows "conn_ok config b cn' \<and> cn_failures cn' = cn_failures cn \<and> (\<forall>m. r \<noteq> Inl (InvalidDataMessage m))"
proof -
  obtain s res where call: "handler_service_call service (service_request_new (env_payload e) (env_correlation_id e)) (cn_app cn) = (s, res)"
    by fastforce
  show ?thesis
  proof (cases res)
    case (Inl v)
    then show ?thesis using assms by (auto simp: forward_response_def call conn_ok_def)
  next
    case (Inr resp)
    let ?e = "envelope_from_parts (inherit_correlation (env_correlation_id e) (packet_parts_new (env_id e) (sresp_correlation_id resp) (sresp_frame resp)))"
    obtain pl and r1 :: "'x connection_error + unit" where p: "pipeline_process (ic_bytes ic) (ic_header_codec ic) ?e (cn_pipeline cn) = Some (pl, r1)"
      using assms(2) Inr by (auto simp: forward_response_def call Let_def split: option.splits)
    note pp = process_pipeline [OF p]
    have ok: "adapter_ok config (pl_fragmentation pl)" using assms(1) adapter_ok_cong [OF pp(1)] by (simp add: conn_ok_def)
    show ?thesis
    proof (cases r1)
      case (Inl err)
      then show ?thesis using assms pp(3) [OF Inl] ok p by (auto simp: forward_response_def call Inr Let_def conn_ok_def)
    next
      case r1: (Inr u)
      obtain pl' out' r2 where f: "send_envelopes (ic_transport ic) (ic_hooks ic) (pl_out pl) (pl\<lparr>pl_out := []\<rparr>, cn_out cn) = ((pl', out'), r2)"
        by (metis prod.exhaust)
      then show ?thesis using assms p r1 ok send_envelopes_pipeline [OF f]
        by (auto simp: forward_response_def call Inr Let_def conn_ok_def flush_pipeline_output_def drain_output_def)
    qed
  qed
qed


section \<open>The loop\<close>

lemma adapter_purge_ok:
  assumes "adapter_ok config (Some a)"
  shows "adapter_ok config (Some (fst (adapter_purge_expired a now)))"
proof -
  obtain r ev where p: "purge_expired_at (fa_reassembler a) now = (r, ev)" by fastforce
  show ?thesis
    using assms reassembler_inv_for_purge [OF _ p] by (cases config) (simp_all add: adapter_ok_def adapter_purge_expired_def p)
qed

lemma purge_ok:
  assumes "conn_ok config b cn"
  shows "conn_ok config b (purge_expired now cn)" "cn_failures (purge_expired now cn) = cn_failures cn"
proof -
  have "adapter_ok config (map_option (\<lambda>a. fst (adapter_purge_expired a (fst now))) (pl_fragmentation (cn_pipeline cn)))"
    using assms adapter_purge_ok by (cases "pl_fragmentation (cn_pipeline cn)") (simp_all add: conn_ok_def)
  moreover have "assembly_within b (purge_expired_assemblies (snd now) (cn_assembly cn))"
  proof (cases "cn_assembly cn")
    case (Some st)
    then have "assembly_within b (Some st)" using assms by (simp add: conn_ok_def)
    from assembly_within_handle [OF this, of "PurgeAssemblies (snd now)"] show ?thesis
      by (simp add: Some purge_expired_assemblies_def)
  qed (simp add: purge_expired_assemblies_def assembly_within_def)
  ultimately show "conn_ok config b (purge_expired now cn)" "cn_failures (purge_expired now cn) = cn_failures cn"
    using assms by (simp_all add: conn_ok_def purge_expired_def pipeline_purge_expired_def)
qed

lemma pressure_ok:
  assumes "conn_ok config b cn" and "apply_memory_pressure action now cn = (cn1, r)"
  shows "conn_ok config b cn1" "cn_failures cn1 = cn_failures cn"
    "r = Inl err \<Longrightarrow> err = InvalidDataMessage ''per-connection memory budget hard cap exceeded''"
  using assms purge_ok [OF assms(1), of now] by (cases action; simp add: apply_memory_pressure_def)+

definition too_many_failures :: "'x connection_error" where
  "too_many_failures = InvalidDataMessage ''too many deserialization failures''"

lemma handle_frame_ok:
  fixes ic :: "('f, 'k, 'w, 'x, 'p, 'e, 'ph, 'h, 's, 'v) inbound_context"
  assumes "conn_ok config b cn" and "unat (cn_failures cn) < 10" and "handle_frame ic now frame cn = Some (cn', r)"
  shows "conn_ok config b cn' \<and>
    unat (cn_failures cn') = (case frame_outcome ic now frame cn of Dispatched _ \<Rightarrow> 0 | Rejected \<Rightarrow> unat (cn_failures cn) + 1
      | _ \<Rightarrow> unat (cn_failures cn)) \<and>
    (r = Inl too_many_failures \<longleftrightarrow> unat (cn_failures cn') = 10) \<and> (r = Inr () \<longrightarrow> unat (cn_failures cn') < 10)"
proof -
  obtain cn1 and r1 :: "'x connection_error + envelope option" where
    bd: "build_dispatchable_envelope ic now frame (cn\<lparr>cn_failures := cn_failures cn\<rparr>) = (cn1, r1)" by fastforce
  have bd': "build_dispatchable_envelope ic now frame cn = (cn1, r1)" using bd by simp
  note ok1 = conjunct1 [OF build_ok [OF assms(1) bd']]
  show ?thesis
  proof (cases ic now frame cn rule: build_cases)
    case (dispatched cn0 e)
    have cn1: "cn1 = cn0\<lparr>cn_failures := 0\<rparr>" "r1 = Inr (Some e)" using dispatched [of "cn_failures cn"] bd by simp_all
    have out: "frame_outcome ic now frame cn = Dispatched e" by (simp add: frame_outcome_def dispatched)
    have "conn_ok config b cn' \<and> cn_failures cn' = 0 \<and> r \<noteq> Inl too_many_failures"
    proof (cases "hm_lookup (ic_routes ic) (env_id e)")
      case None
      then have "cn' = cn1" "r = Inr ()" using assms(3) by (simp_all add: handle_frame_def bd' cn1(2))
      then show ?thesis using ok1 cn1(1) by simp
    next
      case (Some service)
      have "forward_response ic e service cn1 = Some (cn', r)" using assms(3) Some by (simp add: handle_frame_def bd' cn1(2))
      from forward_ok [OF ok1 this] show ?thesis using cn1(1) by (simp add: too_many_failures_def)
    qed
    then show ?thesis using out by simp
  next
    case (absorbed cn0)
    have cn1: "cn1 = cn0\<lparr>cn_failures := cn_failures cn\<rparr>" "r1 = Inr None" using absorbed [of "cn_failures cn"] bd by simp_all
    have out: "frame_outcome ic now frame cn = Absorbed" by (simp add: frame_outcome_def absorbed)
    have "cn' = cn1" "r = Inr ()" using assms(3) by (simp_all add: handle_frame_def bd' cn1(2))
    then show ?thesis using assms(2) ok1 out cn1(1) by simp
  next
    case (rejected cn0)
    have out: "frame_outcome ic now frame cn = Rejected" by (simp add: frame_outcome_def rejected fail_none_step)
    have eq: "(cn1, r1) = (cn0\<lparr>cn_failures := cn_failures cn + 1\<rparr>,
        if unat (cn_failures cn) = 9 then Inl too_many_failures else Inr None)"
      unfolding bd [symmetric] rejected fail_none_step(2) [OF assms(2)] too_many_failures_def by simp
    have n: "unat (cn_failures cn1) = unat (cn_failures cn) + 1" using eq fail_none_step(1) [OF assms(2)] by simp
    have "cn' = cn1" "r = (if unat (cn_failures cn) = 9 then Inl too_many_failures else Inr ())"
      using assms(3) eq by (simp_all add: handle_frame_def bd' split: if_splits)
    then show ?thesis using assms(2) ok1 out n by simp
  next
    case (aborted cn0 err)
    have cn1: "cn1 = cn0\<lparr>cn_failures := cn_failures cn\<rparr>" "r1 = Inl err" using aborted(1) [of "cn_failures cn"] bd by simp_all
    have out: "frame_outcome ic now frame cn = Aborted" by (simp add: frame_outcome_def aborted(1))
    have "cn' = cn1" "r = Inl err" using assms(3) by (simp_all add: handle_frame_def bd' cn1(2))
    then show ?thesis using assms(2) ok1 out cn1(1) aborted(2) by (simp add: too_many_failures_def)
  qed
qed


text \<open>The outcomes of the frames of a run, and the failures they leave.\<close>

fun run_outcomes ::
    "('f, 'k, 'w, 'x, 'p, 'e, 'ph, 'h, 's, 'v) inbound_context \<Rightarrow> memory_budgets \<Rightarrow> (clock \<times> clock \<times> 'f read_event) list \<Rightarrow>
     ('k, 'w, 'h, 's) connection \<Rightarrow> frame_outcome list" where
  "run_outcomes ic b [] cn = []"
| "run_outcomes ic b ((pause, now, ev) # evs) cn =
     (let (cn1, r) = apply_memory_pressure (evaluate_memory_pressure (cn_assembly cn) (Some b)
            (fragmentation_buffered_bytes (cn_pipeline cn))) pause cn
      in if r \<noteq> (Inr () :: 'x connection_error + unit) then []
         else case ev of
           FrameRead frame \<Rightarrow> frame_outcome ic now frame cn1 #
             (case handle_frame ic now frame cn1 of Some (cn2, Inr _) \<Rightarrow> run_outcomes ic b evs cn2 | _ \<Rightarrow> [])
         | ReadTimedOut \<Rightarrow> run_outcomes ic b evs (purge_expired now cn1)
         | _ \<Rightarrow> [])"

fun failures_after :: "nat \<Rightarrow> frame_outcome list \<Rightarrow> nat" where
  "failures_after n [] = n"
| "failures_after n (Dispatched _ # os) = failures_after 0 os"
| "failures_after n (Rejected # os) = failures_after (n + 1) os"
| "failures_after n (Absorbed # os) = failures_after n os"
| "failures_after n (Aborted # os) = failures_after n os"

lemma failures_after_Cons: "failures_after n (oc # os) =
    failures_after (case oc of Dispatched _ \<Rightarrow> 0 | Rejected \<Rightarrow> n + 1 | _ \<Rightarrow> n) os"
  by (cases oc) simp_all

lemma process_loop_ok:
  fixes ic :: "('f, 'k, 'w, 'x, 'p, 'e, 'ph, 'h, 's, 'v) inbound_context"
  assumes "conn_ok config b cn" and "unat (cn_failures cn) < 10" and "process_loop ic b evs cn = Some (cn', r)"
  shows "conn_ok config b cn' \<and> unat (cn_failures cn') = failures_after (unat (cn_failures cn)) (run_outcomes ic b evs cn) \<and>
    (r = Some (Inl too_many_failures) \<longleftrightarrow> unat (cn_failures cn') = 10) \<and> (r = None \<longrightarrow> unat (cn_failures cn') < 10)"
  using assms
proof (induction evs arbitrary: cn)
  case (Cons ev0 evs)
  obtain pause now ev where ev0: "ev0 = (pause, now, ev)" by (metis prod_cases3)
  obtain cn1 and p :: "'x connection_error + unit" where press: "apply_memory_pressure (evaluate_memory_pressure (cn_assembly cn) (Some b)
      (fragmentation_buffered_bytes (cn_pipeline cn))) pause cn = (cn1, p)" by fastforce
  note ok = pressure_ok [OF Cons.prems(1) press]
  have low: "unat (cn_failures cn1) < 10" using Cons.prems(2) ok(2) by simp
  show ?case
  proof (cases p)
    case (Inl err)
    then have "cn' = cn1" "r = Some (Inl err)" using Cons.prems(3) press by (simp_all add: ev0)
    then show ?thesis using ok low Inl press by (simp add: ev0 too_many_failures_def)
  next
    case p: (Inr u)
    have outs: "run_outcomes ic b (ev0 # evs) cn = (case ev of
           FrameRead frame \<Rightarrow> frame_outcome ic now frame cn1 #
             (case handle_frame ic now frame cn1 of Some (cn2, Inr _) \<Rightarrow> run_outcomes ic b evs cn2 | _ \<Rightarrow> [])
         | ReadTimedOut \<Rightarrow> run_outcomes ic b evs (purge_expired now cn1)
         | _ \<Rightarrow> [])"
      using p press by (simp add: ev0)
    show ?thesis
    proof (cases ev)
      case (FrameRead frame)
      obtain cn2 and r2 :: "'x connection_error + unit" where hf: "handle_frame ic now frame cn1 = Some (cn2, r2)"
        using Cons.prems(3) press p FrameRead by (cases "handle_frame ic now frame cn1") (auto simp: ev0)
      note h = handle_frame_ok [OF ok(1) low hf, unfolded ok(2)]
      show ?thesis
      proof (cases r2)
        case (Inl err)
        then have "cn' = cn2" "r = Some (Inl err)" using Cons.prems(3) press p FrameRead hf by (simp_all add: ev0)
        then show ?thesis using h Inl hf FrameRead outs ok(2) by (simp add: failures_after_Cons)
      next
        case (Inr v)
        have "process_loop ic b evs cn2 = Some (cn', r)" using Cons.prems(3) press p FrameRead hf Inr by (simp add: ev0)
        moreover have "conn_ok config b cn2" "unat (cn_failures cn2) < 10" using h Inr by simp_all
        ultimately have ih: "conn_ok config b cn' \<and> unat (cn_failures cn') = failures_after (unat (cn_failures cn2)) (run_outcomes ic b evs cn2) \<and>
            (r = Some (Inl too_many_failures) \<longleftrightarrow> unat (cn_failures cn') = 10) \<and> (r = None \<longrightarrow> unat (cn_failures cn') < 10)"
          using Cons.IH by blast
        have eq: "failures_after (unat (cn_failures cn2)) (run_outcomes ic b evs cn2) =
            failures_after (unat (cn_failures cn)) (run_outcomes ic b (ev0 # evs) cn)"
          using h outs FrameRead hf Inr by (simp add: failures_after_Cons)
        from ih show ?thesis unfolding eq .
      qed
    next
      case ReadTimedOut
      have "process_loop ic b evs (purge_expired now cn1) = Some (cn', r)" using Cons.prems(3) press p ReadTimedOut by (simp add: ev0)
      moreover have "run_outcomes ic b (ev0 # evs) cn = run_outcomes ic b evs (purge_expired now cn1)" using outs ReadTimedOut by simp
      moreover have "cn_failures (purge_expired now cn1) = cn_failures cn" using purge_ok(2) [OF ok(1)] ok(2) by simp
      ultimately show ?thesis
        using Cons.IH [OF purge_ok(1) [OF ok(1), of now]] Cons.prems(2) by metis
    qed (use Cons.prems(3) press p ok low outs in \<open>auto simp: ev0 too_many_failures_def\<close>)
  qed
qed simp


lemma stream_start_ok:
  assumes "b = resolve_effective_budgets (ic_memory_budgets ic) (ic_max_frame_length ic)" and "bytes_per_message b < usize_max"
    and "stream_start ic ctx out s = Some cn"
  shows "conn_ok (ic_fragmentation ic) b cn" "cn_failures cn = 0"
proof -
  have "reassembler_inv_for m t c l (reassembler_new m t c l)" for m t c l
    by (rule reassembly.inv_init) (simp add: reassembler_start_def)
  then have frag: "adapter_ok (ic_fragmentation ic) (map_option fragment_adapter_new (ic_fragmentation ic))"
    by (cases "ic_fragmentation ic") (simp_all add: adapter_ok_def fragment_adapter_new_def)
  have asm: "assembly_within b (Some st)"
    if st: "new_message_assembly_state (ic_header_codec ic) (ic_fragmentation ic) (ic_max_frame_length ic) (Some b) = Some st" for st
  proof -
    obtain m t where new: "st = assembly_with_budgets (min m (bytes_per_message b)) t (Some (bytes_per_connection b)) (Some (bytes_in_flight b))"
      using st by (auto simp: new_message_assembly_state_def Let_def)
    have "assembly_start (min m (bytes_per_message b)) t (Some (bytes_per_connection b)) (Some (bytes_in_flight b)) st"
      using new assms(2) by (simp add: assembly_start_def)
    from assembly.inv_init [OF this] show ?thesis
      by (simp add: assembly_within_def asm_inv_for_def new assembly_with_budgets_def)
  qed
  from assms(3) show "conn_ok (ic_fragmentation ic) b cn" "cn_failures cn = 0"
    using frag asm
    by (auto simp: stream_start_def assms(1) [symmetric] Let_def conn_ok_def pipeline_with_hooks_def assembly_within_def split: option.splits)
qed

section \<open>Properties\<close>

text \<open>
  C12: The memory of a connection is bounded. After any sequence of reads that leaves the connection open, the bytes
  of incomplete assemblies are within the connection budget and the in-flight budget, each assembly within the
  message budget, the bytes and the number of fragmented messages within their caps, and no response is
  left in the buffer. When together they exceed the smaller budget, the next turn reads nothing and closes the connection.
\<close>

theorem inbound_memory_bounded:
  assumes "b = resolve_effective_budgets (ic_memory_budgets ic) (ic_max_frame_length ic)" and "bytes_per_message b < usize_max"
    and "process_stream ic evs ctx out s = Some (cn, None)"
  shows "(\<forall>st. cn_assembly cn = Some st \<longrightarrow>
      within_limit (Some (bytes_per_connection b)) (\<Sum>(k, p) \<leftarrow> as_assemblies st. partial_buffered_bytes p) \<and>
      within_limit (Some (bytes_in_flight b)) (\<Sum>(k, p) \<leftarrow> as_assemblies st. partial_buffered_bytes p) \<and>
      (\<forall>k p. hm_lookup (as_assemblies st) k = Some p \<longrightarrow> length (pa_body p) \<le> bytes_per_message b)) \<and>
    (\<forall>cfg. ic_fragmentation ic = Some cfg \<longrightarrow> (\<exists>a. pl_fragmentation (cn_pipeline cn) = Some a \<and>
      within_limit (cfg_max_buffered_bytes cfg) (adapter_buffered_bytes a) \<and>
      within_limit (cfg_max_concurrent_partials cfg) (buffered_len (fa_reassembler a)))) \<and>
    pl_out (cn_pipeline cn) = [] \<and>
    (min (bytes_per_connection b) (bytes_in_flight b) < buffered_for_pressure (cn_assembly cn) (fragmentation_buffered_bytes (cn_pipeline cn)) \<longrightarrow>
      process_loop ic b (turn # evs') cn =
        Some (cn, Some (Inl (InvalidDataMessage ''per-connection memory budget hard cap exceeded''))))"
proof -
  obtain cn0 where start: "stream_start ic ctx out s = Some cn0" and loop: "process_loop ic b evs cn0 = Some (cn, None)"
    using assms(1,3) by (auto simp: process_stream_def bind_eq_Some_conv)
  note st = stream_start_ok [OF assms(1,2) start]
  have ok: "conn_ok (ic_fragmentation ic) b cn"
    using process_loop_ok [OF st(1) _ loop] st(2) by simp
  have "within_limit (Some (bytes_per_connection b)) (\<Sum>(k, p) \<leftarrow> as_assemblies st. partial_buffered_bytes p) \<and>
      within_limit (Some (bytes_in_flight b)) (\<Sum>(k, p) \<leftarrow> as_assemblies st. partial_buffered_bytes p) \<and>
      (\<forall>k p. hm_lookup (as_assemblies st) k = Some p \<longrightarrow> length (pa_body p) \<le> bytes_per_message b)" if "cn_assembly cn = Some st" for st
    using ok that unfolding conn_ok_def assembly_within_def
    by (fastforce simp: asm_inv_def assemblies_within_def assembly_ok_def entries_weight_def)
  moreover have "\<exists>a. pl_fragmentation (cn_pipeline cn) = Some a \<and> within_limit (cfg_max_buffered_bytes cfg) (adapter_buffered_bytes a) \<and>
      within_limit (cfg_max_concurrent_partials cfg) (buffered_len (fa_reassembler a))" if cfg: "ic_fragmentation ic = Some cfg" for cfg
  proof -
    obtain a where "pl_fragmentation (cn_pipeline cn) = Some a" "reassembler_inv_for (cfg_max_message_size cfg) (cfg_reassembly_timeout cfg)
        (cfg_max_concurrent_partials cfg) (cfg_max_buffered_bytes cfg) (fa_reassembler a)"
      using ok cfg by (cases "pl_fragmentation (cn_pipeline cn)") (simp_all add: conn_ok_def adapter_ok_def)
    then show ?thesis
      by (auto simp: reassembler_inv_for_def reassembler_inv_def budget_inv_def same_limits_def reassembly_budget_new_def
          within_limit_def adapter_buffered_bytes_def buffered_bytes_def buffered_len_def split: option.splits)
  qed
  moreover have "process_loop ic b (turn # evs') cn =
        Some (cn, Some (Inl (InvalidDataMessage ''per-connection memory budget hard cap exceeded'')))"
    if "min (bytes_per_connection b) (bytes_in_flight b) < buffered_for_pressure (cn_assembly cn) (fragmentation_buffered_bytes (cn_pipeline cn))"
    using that by (cases turn) (simp add: evaluate_memory_pressure_def has_hard_cap_been_breached_def
        active_aggregate_limit_bytes_def apply_memory_pressure_def)
  moreover have "pl_out (cn_pipeline cn) = []" using ok by (simp add: conn_ok_def)
  ultimately show ?thesis by blast
qed

theorem inbound_memory_bounded_witness:
  "\<exists>frame cn a. process_stream (echo_app (Some open_message) 10) (frames_read [[1, 2, 3, 4, 5], frame]) () no_output 0 = Some (cn, None) \<and>
     pl_fragmentation (cn_pipeline cn) = Some a \<and> within_limit (Some 10) (adapter_buffered_bytes a) \<and>
     within_limit (Some 10) (\<Sum>(k, p) \<leftarrow> as_assemblies half_message. partial_buffered_bytes p) \<and>
     process_loop (echo_app (Some open_message) 10) (memory_budgets_new 10 10 10) (frames_read [[1]]) cn =
       Some (cn, Some (Inl (InvalidDataMessage ''per-connection memory budget hard cap exceeded'')))"
proof -
  let ?b = "memory_budgets_new 10 10 10" and ?ic = "echo_app (Some open_message) 10"
  obtain frame cn a where run: "process_stream ?ic (frames_read [[1, 2, 3, 4, 5], frame]) () no_output 0 = Some (cn, None)"
    and cn: "cn_assembly cn = Some half_message" "pl_fragmentation (cn_pipeline cn) = Some a" "adapter_buffered_bytes a = 6" using both_buffers_run by blast
  have b: "?b = resolve_effective_budgets (ic_memory_budgets ?ic) (ic_max_frame_length ?ic)" "bytes_per_message ?b < usize_max"
    by (simp_all add: resolve_effective_budgets_def memory_budgets_new_def usize_max_def)
  have over: "min (bytes_per_connection ?b) (bytes_in_flight ?b) < buffered_for_pressure (cn_assembly cn) (fragmentation_buffered_bytes (cn_pipeline cn))"
    by (simp add: cn held_bytes memory_budgets_new_def buffered_for_pressure_def fragmentation_buffered_bytes_def saturating_add_usize_def usize_max_def)
  have lims: "bytes_per_connection ?b = 10" "cfg_max_buffered_bytes sample_config = Some 10" by (simp_all add: memory_budgets_new_def sample_config_def)
  note bounded = inbound_memory_bounded [OF b run, of "((0, 0), (0, 0), FrameRead [1])" "[]"]
  have "within_limit (Some 10) (\<Sum>(k, p) \<leftarrow> as_assemblies half_message. partial_buffered_bytes p)"
    using bounded cn(1) lims(1) by metis
  moreover have "within_limit (Some 10) (adapter_buffered_bytes a)"
    using conjunct1 [OF conjunct2 [OF bounded]] cn(2) lims(2) by simp
  moreover have "process_loop ?ic ?b (frames_read [[1]]) cn = Some (cn, Some (Inl (InvalidDataMessage ''per-connection memory budget hard cap exceeded'')))"
    using conjunct2 [OF conjunct2 [OF conjunct2 [OF bounded]]] over by (simp del: process_loop.simps)
  ultimately show ?thesis using run cn(2) by blast
qed



end
