(* ===== verification/Inbound_Requests.thy ===== *)
theory Inbound_Requests
  imports Inbound_Properties
begin

text \<open>
  Requests from end to end: fragments that a peer sends are absorbed by the connection loop until the last
  one, which calls the service of the route once with the whole payload; and what a response looks like on its way out.
\<close>

section \<open>Buffered bytes\<close>

lemma remove_bytes_le:
  assumes "budget_inv b bufs" and "hm_lookup bufs mid = Some p"
  shows "rb_buffered_bytes (fst (remove_partial b bufs mid p)) \<le> rb_buffered_bytes b"
proof -
  obtain b' bufs' where r: "remove_partial b bufs mid p = (b', bufs')" by fastforce
  from remove_partial_inv [OF assms r] show ?thesis by (simp add: r)
qed

lemma append_bytes_le:
  assumes "budget_inv b bufs" and "hm_lookup bufs mid = Some p"
  shows "rb_buffered_bytes (fst (append_and_maybe_complete b bufs mid p payload completes)) \<le> rb_buffered_bytes b + length payload"
proof -
  let ?r = "fst (remove_partial b bufs mid p)"
  have rem: "rb_buffered_bytes ?r \<le> rb_buffered_bytes b + length payload" using remove_bytes_le [OF assms] by simp
  have errs: "fst (let (b', bufs') = remove_partial b bufs mid p in (b', bufs', x)) = ?r" for x :: push_result
    by (simp add: split_beta)
  show ?thesis
  proof (cases "partial_weight p + length payload \<le> rb_max_message_size b \<and> partial_weight p + length payload \<le> usize_max \<and> (\<exists>b1. add_bytes b (length payload) = Inr b1)")
    case True
    then obtain b1 where b1: "add_bytes b (length payload) = Inr b1" and fit: "partial_weight p + length payload \<le> rb_max_message_size b" by blast
    let ?p = "partial_message_push payload p" and ?bufs = "hm_insert mid (partial_message_push payload p) bufs"
    have inv: "budget_inv b1 ?bufs" by (rule grow_inv [OF assms fit b1])
    have "rb_buffered_bytes (fst (remove_partial b1 ?bufs mid ?p)) \<le> rb_buffered_bytes b1"
      by (rule remove_bytes_le [OF inv]) (simp add: hm.lookup_insert)
    moreover have "rb_buffered_bytes b1 = rb_buffered_bytes b + length payload" using b1 by (simp add: add_bytes_Inr)
    ultimately show ?thesis
      using True b1 by (simp add: append_and_maybe_complete_def assert_within_message_limit_def checked_add_usize_def Let_def split_beta)
  next
    case False
    then show ?thesis
      using rem errs by (auto simp: append_and_maybe_complete_def assert_within_message_limit_def checked_add_usize_def
          split: sum.split)
  qed
qed

lemma push_bytes_le:
  assumes "reassembler_inv r" and "push_at r h payload now = (r', res)"
  shows "buffered_bytes r' \<le> buffered_bytes r + length payload"
proof -
  obtain r1 ev where purge: "purge_expired_at r now = (r1, ev)" by fastforce
  have inv: "budget_inv (ra_budget r1) (ra_buffers r1)" using purge_inv [OF assms(1) purge] by (simp add: reassembler_inv_def)
  have le: "buffered_bytes r1 \<le> buffered_bytes r" by (rule purge_bytes_le [OF assms(1) purge])
  let ?b = "ra_budget r1" and ?bufs = "ra_buffers r1" and ?mid = "fh_message_id h"
  have "rb_buffered_bytes (ra_budget r') \<le> rb_buffered_bytes ?b + length payload"
  proof (cases "hm_lookup ?bufs ?mid")
    case None
    then show ?thesis
      using assms(2) purge
      by (auto simp: push_at_def Let_def push_first_fragment_def add_bytes_Inr split: sum.splits prod.splits if_splits)
  next
    case (Some p)
    obtain s' st where acc: "series_accept (pm_series p) h = (s', st)" by fastforce
    let ?p = "p\<lparr>pm_series := s'\<rparr>" and ?bufs' = "hm_insert ?mid (p\<lparr>pm_series := s'\<rparr>) ?bufs"
    have inv': "budget_inv ?b ?bufs'" by (rule replace_inv [OF inv Some]) simp
    have p: "hm_lookup ?bufs' ?mid = Some ?p" by (simp add: hm.lookup_insert)
    have "rb_buffered_bytes (fst (push_existing_fragment ?b ?bufs ?mid p h payload)) \<le> rb_buffered_bytes ?b + length payload"
      using append_bytes_le [OF inv' p, of payload] remove_bytes_le [OF inv' p]
      by (auto simp: push_existing_fragment_def acc Let_def split_beta split: sum.split fragment_status.split)
    moreover have "ra_budget r' = fst (push_existing_fragment ?b ?bufs ?mid p h payload)"
      using assms(2) purge Some by (auto simp: push_at_def Let_def split_beta)
    ultimately show ?thesis by simp
  qed
  then show ?thesis using le by (simp add: buffered_bytes_def)
qed


lemma decode_payload_le:
  assumes "decode_fragment_payload api hc raw = Inr (Some (h, body))"
  shows "length body \<le> length raw"
  using assms
  by (auto simp: decode_fragment_payload_def slice_get_def Let_def split: if_splits option.splits sum.splits prod.splits)

lemma adapter_bytes_le:
  assumes "reassembler_inv (fa_reassembler a)" and "adapter_reassemble api hc envelope_fragmentable a e now = (a', r)"
  shows "adapter_buffered_bytes a' \<le> adapter_buffered_bytes a + length (env_payload e)" "reassembler_inv (fa_reassembler a')"
proof -
  have parts: "fp_payload (into_fragment_parts envelope_fragmentable e) = env_payload e"
    by (simp add: envelope_fragmentable_def fragment_parts_new_def parts_from_envelope_def packet_parts_new_def Let_def)
  have "a' = a \<or> (\<exists>h body r' res. decode_fragment_payload api hc (env_payload e) = Inr (Some (h, body)) \<and>
      push_at (fa_reassembler a) h body now = (r', res) \<and> a' = a\<lparr>fa_reassembler := r'\<rparr>)"
    using assms(2) parts by (auto simp: adapter_reassemble_def Let_def split: sum.splits option.splits prod.splits)
  then show "adapter_buffered_bytes a' \<le> adapter_buffered_bytes a + length (env_payload e)" "reassembler_inv (fa_reassembler a')"
    using assms(1) push_bytes_le [OF assms(1)] push_at_inv [OF assms(1)] decode_payload_le
    by (fastforce simp: adapter_buffered_bytes_def)+
qed

section \<open>Fragments\<close>

text \<open>The frame carries the packet: its payload is that packet alone, with the correlation it has.\<close>

definition carries :: "('f, 'k, 'w, 'x, 'p, 'e, 'ph, 'h, 's, 'v) inbound_context \<Rightarrow> 'f \<Rightarrow> envelope \<Rightarrow> bool" where
  "carries ic frame packet \<longleftrightarrow> (\<exists>n. parse_envelope (ic_serializer ic) (ic_frame_payload ic frame) = Inr (packet, n)) \<and>
     (env_correlation_id packet \<noteq> None \<or> ic_frame_correlation ic frame = None)"

definition with_adapter :: "fragment_adapter \<Rightarrow> ('k, 'w, 'h, 's) connection \<Rightarrow> ('k, 'w, 'h, 's) connection" where
  "with_adapter a cn = cn\<lparr>cn_pipeline := (cn_pipeline cn)\<lparr>pl_fragmentation := Some a\<rparr>\<rparr>"

lemma fragment_turn:
  assumes "pl_fragmentation (cn_pipeline cn) = Some a" and "cn_assembly cn = None" and "ic_assembler ic = None"
    and "5 * adapter_buffered_bytes a < 4 * min (bytes_per_connection b) (bytes_in_flight b)"
    and "carries ic frame packet"
    and "adapter_reassemble (ic_bytes ic) (ic_header_codec ic) envelope_fragmentable a packet t = (a', Inr res)"
  shows "process_loop ic b ((pause, (t, t'), FrameRead frame) # evs) cn =
    (case res of
       None \<Rightarrow> process_loop ic b evs (with_adapter a' cn)
     | Some e \<Rightarrow>
         (case hm_lookup (ic_routes ic) (env_id e) of
            None \<Rightarrow> process_loop ic b evs ((with_adapter a' cn)\<lparr>cn_failures := 0\<rparr>)
          | Some service \<Rightarrow>
              (case forward_response ic e service ((with_adapter a' cn)\<lparr>cn_failures := 0\<rparr>) of
                 None \<Rightarrow> None
               | Some (cn2, Inl err) \<Rightarrow> Some (cn2, Some (Inl err))
               | Some (cn2, Inr _) \<Rightarrow> process_loop ic b evs cn2)))"
proof -
  have calm: "evaluate_memory_pressure None (Some b) (fragmentation_buffered_bytes (cn_pipeline cn)) = PressureContinue"
    using no_pressure [OF assms(4)] assms(1) by (simp add: fragmentation_buffered_bytes_def)
  obtain n where "parse_envelope (ic_serializer ic) (ic_frame_payload ic frame) = Inr (packet, n)" using assms(5) by (auto simp: carries_def)
  moreover have "(if env_correlation_id packet = None then packet\<lparr>env_correlation_id := ic_frame_correlation ic frame\<rparr> else packet) = packet"
    using assms(5) by (auto simp: carries_def)
  ultimately have "build_dispatchable_envelope ic (t, t') frame cn =
      (case res of None \<Rightarrow> (with_adapter a' cn, Inr None) | Some e \<Rightarrow> ((with_adapter a' cn)\<lparr>cn_failures := 0\<rparr>, Inr (Some e)))"
    using assms(1-3,6)
    by (cases res) (simp_all add: build_dispatchable_envelope_def decode_envelope_def reassemble_if_needed_def
        handle_reassembly_result_def assemble_if_needed_def with_adapter_def)
  then show ?thesis
    using calm assms(2)
    by (cases res) (simp_all add: apply_memory_pressure_def handle_frame_def split: option.split)
qed


text \<open>What the loop does with a complete request.\<close>

definition serve ::
    "('f, 'k, 'w, 'x, 'p, 'e, 'ph, 'h, 's, 'v) inbound_context \<Rightarrow> memory_budgets \<Rightarrow> (clock \<times> clock \<times> 'f read_event) list \<Rightarrow>
     envelope \<Rightarrow> ('s, 'v) handler_service \<Rightarrow> ('k, 'w, 'h, 's) connection \<Rightarrow>
     (('k, 'w, 'h, 's) connection \<times> ('x connection_error + unit) option) option" where
  "serve ic b evs e service cn =
     (case forward_response ic e service (cn\<lparr>cn_failures := 0\<rparr>) of
        None \<Rightarrow> None
      | Some (cn2, Inl err) \<Rightarrow> Some (cn2, Some (Inl err))
      | Some (cn2, Inr _) \<Rightarrow> process_loop ic b evs cn2)"

lemma with_adapter_simps [simp]:
  "pl_fragmentation (cn_pipeline (with_adapter a cn)) = Some a" "cn_assembly (with_adapter a cn) = cn_assembly cn"
  "with_adapter a' (with_adapter a cn) = with_adapter a' cn"
  by (simp_all add: with_adapter_def)

lemma fragments_run:
  assumes "list_all2 (\<lambda>(pause, now, ev) packet. \<exists>f. ev = FrameRead f \<and> carries ic f packet) turns packets"
    and "reassemble_run (ic_bytes ic) (ic_header_codec ic) envelope_fragmentable a (zip packets (map (\<lambda>(_, now, _). fst now) turns)) =
      (a', replicate (length packets - 1) (Inr None) @ [Inr (Some e)])"
    and "pl_fragmentation (cn_pipeline cn) = Some a" and "cn_assembly cn = None" and "ic_assembler ic = None"
    and "reassembler_inv (fa_reassembler a)"
    and "5 * (adapter_buffered_bytes a + (\<Sum>p \<leftarrow> packets. length (env_payload p))) < 4 * min (bytes_per_connection b) (bytes_in_flight b)"
    and "hm_lookup (ic_routes ic) (env_id e) = Some service"
  shows "process_loop ic b (turns @ rest) cn = serve ic b rest e service (with_adapter a' cn)"
  using assms(1-4,6,7)
proof (induction turns packets arbitrary: a cn rule: list_all2_induct)
  case (Cons turn turns packet packets)
  obtain pause t t' f where turn: "turn = (pause, (t, t'), FrameRead f)" and f: "carries ic f packet"
    using Cons.hyps(1) by (auto split: prod.splits)
  obtain a1 res where one: "adapter_reassemble (ic_bytes ic) (ic_header_codec ic) envelope_fragmentable a packet t = (a1, res)" by fastforce
  obtain a2 rs where more: "reassemble_run (ic_bytes ic) (ic_header_codec ic) envelope_fragmentable a1
      (zip packets (map (\<lambda>(_, now, _). fst now) turns)) = (a2, rs)" by fastforce
  have out: "a2 = a'" "res # rs = replicate (length packets) (Inr None) @ [Inr (Some e)]"
    using Cons.prems(1) one more by (simp_all add: turn)
  note le = adapter_bytes_le [OF Cons.prems(4) one]
  have soft: "5 * adapter_buffered_bytes a < 4 * min (bytes_per_connection b) (bytes_in_flight b)" using Cons.prems(5) by simp
  have left: "5 * (adapter_buffered_bytes a1 + (\<Sum>p \<leftarrow> packets. length (env_payload p))) < 4 * min (bytes_per_connection b) (bytes_in_flight b)"
    using le(1) by (intro le_less_trans [OF _ Cons.prems(5)]) simp
  note step = fragment_turn [OF Cons.prems(2,3) assms(5) soft f, of t a1 _ pause t' "turns @ rest"]
  show ?case
  proof (cases packets)
    case Nil
    then have last: "turns = []" "res = Inr (Some e)" "a1 = a'" using Cons.hyps(2) out more by simp_all
    from step [of "Some e"] one show ?thesis
      unfolding last turn serve_def append_Nil append_Cons using assms(8) by (simp del: process_loop.simps)
  next
    case (Cons p ps)
    then have res: "res = Inr None" and rs: "rs = replicate (length packets - 1) (Inr None) @ [Inr (Some e)]" using out(2) by simp_all
    have "process_loop ic b (turns @ rest) (with_adapter a1 cn) = serve ic b rest e service (with_adapter a' (with_adapter a1 cn))"
      by (rule Cons.IH) (use more rs out(1) Cons.prems(3) le(2) left in simp_all)
    then show ?thesis using step [of None] one res by (simp add: turn)
  qed
qed simp

lemma envelope_lossless: "fragmentable_lossless envelope_fragmentable"
  by (simp add: fragmentable_lossless_def envelope_fragmentable_def fragment_parts_new_def parts_from_envelope_def
      packet_parts_new_def envelope_from_parts_def envelope_new_def Let_def)

lemma reassemble_run_fragmenter:
  assumes "reassemble_run api hc tr a ps = (a', rs)"
  shows "fa_fragmenter a' = fa_fragmenter a"
  using assms
proof (induction ps arbitrary: a a' rs)
  case (Cons p ps)
  obtain packet now where p: "p = (packet, now)" by fastforce
  obtain a1 res where one: "adapter_reassemble api hc tr a packet now = (a1, res)" by fastforce
  obtain a2 rs' where rest: "reassemble_run api hc tr a1 ps = (a2, rs')" by fastforce
  have "fa_fragmenter a1 = fa_fragmenter a"
    using one by (auto simp: adapter_reassemble_def Let_def split: sum.splits option.splits prod.splits)
  then show ?case using Cons.IH [OF rest] Cons.prems one rest by (simp add: p)
qed simp

section \<open>Properties\<close>

text \<open>
  C5: A fragmented request is served once, as a whole. When a peer splits a request and the frames that carry the
  fragments arrive in order and in time at an open connection with room for them, every frame but the last is
  absorbed without a call, a response or a failure, and the last one calls the service of the request's route
  with the request that was split, identifier, correlation and payload; the fragmenter for responses is untouched.
\<close>

theorem fragmented_request_served:
  assumes docs: "bytes_documented (ic_bytes ic)" "bincode_documented (ic_header_codec ic)"
    and pos: "0 < max_fragment_size (fa_fragmenter peer)"
    and sent: "adapter_fragment (ic_bytes ic) (ic_header_codec ic) envelope_fragmentable peer req = Some (peer', Inr packets)"
    and plain: "decode_fragment_payload (ic_bytes ic) (ic_header_codec ic) (env_payload req) = Inr None \<or>
      max_fragment_size (fa_fragmenter peer) < length (env_payload req)"
    and carried: "list_all2 (\<lambda>(pause, now, ev) packet. \<exists>f. ev = FrameRead f \<and> carries ic f packet) turns packets"
    and open_conn: "pl_fragmentation (cn_pipeline cn) = Some a" "cn_assembly cn = None" "ic_assembler ic = None"
    and ready: "ready_for (fa_reassembler a) (next_message_id_counter (fa_fragmenter peer)) (length (env_payload req))"
    and in_time: "list_all (\<lambda>(_, now, _). fst now - fst (fst (snd (hd turns))) < ra_timeout (fa_reassembler a)) turns"
    and room: "5 * (adapter_buffered_bytes a + (\<Sum>p \<leftarrow> packets. length (env_payload p))) < 4 * min (bytes_per_connection b) (bytes_in_flight b)"
    and route: "hm_lookup (ic_routes ic) (env_id req) = Some service"
  shows "\<exists>a'. fa_fragmenter a' = fa_fragmenter a \<and> process_loop ic b (turns @ rest) cn =
    (case forward_response ic req service ((with_adapter a' cn)\<lparr>cn_failures := 0\<rparr>) of
       None \<Rightarrow> None
     | Some (cn', Inl err) \<Rightarrow> Some (cn', Some (Inl err))
     | Some (cn', Inr _) \<Rightarrow> process_loop ic b rest cn')"
proof -
  let ?tms = "map (\<lambda>(_, now, _). fst now) turns"
  have payload: "env_payload req = fp_payload (into_fragment_parts envelope_fragmentable req)"
    by (simp add: envelope_fragmentable_def fragment_parts_new_def parts_from_envelope_def packet_parts_new_def Let_def)
  have len: "length ?tms = length packets" using list_all2_lengthD [OF carried] by simp
  have time: "list_all (\<lambda>now. now - hd ?tms < ra_timeout (fa_reassembler a)) ?tms"
  proof (cases turns)
    case (Cons turn ts)
    then have "hd ?tms = fst (fst (snd (hd turns)))" by (simp add: split_beta)
    then show ?thesis using in_time by (auto simp: list_all_iff split_beta)
  qed simp
  from adapter_delivers [OF docs envelope_lossless payload pos sent plain ready len time] obtain a' where
    run: "reassemble_run (ic_bytes ic) (ic_header_codec ic) envelope_fragmentable a (zip packets ?tms) =
      (a', replicate (length packets - 1) (Inr None) @ [Inr (Some req)])" by blast
  have "reassembler_inv (fa_reassembler a)" using ready by (simp add: ready_for_def)
  then show ?thesis
    using fragments_run [OF carried run open_conn _ room route] reassemble_run_fragmenter [OF run] unfolding serve_def by blast
qed

theorem fragmented_request_served_witness:
  "\<exists>f g cn. process_loop (echo_app None 1000) (memory_budgets_new 1000 1000 1000) (frames_read [f, g]) (echo_connection None) = Some (cn, None) \<and>
     cn_app cn = 1 \<and> os_wire (cn_out cn) = [[1, 2, 3]]"
proof -
  let ?req = "envelope_new 1 (Some 7) [1, 2, 3]" and ?start = "echo_connection None" and ?ic = "echo_app None 1000"
  let ?b = "memory_budgets_new 1000 1000 1000" and ?a = "fragment_adapter_new sample_config"
  obtain p f g where sent: "adapter_fragment reference_bytes reference_bincode envelope_fragmentable two_byte_peer ?req =
      Some (p, Inr [envelope_new 1 (Some 7) f, envelope_new 1 (Some 7) g])"
    and ne: "f \<noteq> []" "g \<noteq> []" and small: "length f + length g \<le> 45" using peer_sends by blast
  have carried: "list_all2 (\<lambda>(pause, now, ev) packet. \<exists>f. ev = FrameRead f \<and> carries ?ic f packet) (frames_read [f, g])
      [envelope_new 1 (Some 7) f, envelope_new 1 (Some 7) g]"
    using ne by (simp add: carries_def echo_parse)
  have peer: "max_fragment_size (fa_fragmenter two_byte_peer) = 2" "next_message_id_counter (fa_fragmenter two_byte_peer) = 0"
    by (simp_all add: fragmenter_new_def with_starting_id_def)
  have ready: "ready_for (fa_reassembler ?a) (next_message_id_counter (fa_fragmenter two_byte_peer)) (length (env_payload ?req))"
    using reassembler_new_start(1) [of 20 100 "Some 2" "Some 10"] unfolding peer echo_limits ready_for_def has_room_def
    by (simp add: reassembler_new_def reassembly_budget_new_def usize_max_def buffered_len_def buffered_bytes_def)
  have room: "5 * (adapter_buffered_bytes ?a + (\<Sum>p \<leftarrow> [envelope_new 1 (Some 7) f, envelope_new 1 (Some 7) g]. length (env_payload p)))
      < 4 * min (bytes_per_connection ?b) (bytes_in_flight ?b)"
    using small by (simp add: echo_adapter(2) memory_budgets_new_def)
  have time: "list_all (\<lambda>(_, now, _). fst now - fst (fst (snd (hd (frames_read [f, g])))) < ra_timeout (fa_reassembler ?a)) (frames_read [f, g])"
    by (simp add: echo_limits(3) reassembler_new_def)
  have asm: "cn_assembly ?start = None" by (simp add: echo_connection_def)
  obtain a' where a': "fa_fragmenter a' = fa_fragmenter ?a" and run: "process_loop ?ic ?b (frames_read [f, g] @ []) ?start =
      (case forward_response ?ic ?req echo_service ((with_adapter a' ?start)\<lparr>cn_failures := 0\<rparr>) of
         None \<Rightarrow> None | Some (cn, Inl err) \<Rightarrow> Some (cn, Some (Inl err)) | Some (cn, Inr _) \<Rightarrow> process_loop ?ic ?b [] cn)"
    using fragmented_request_served [of ?ic two_byte_peer ?req p _ "frames_read [f, g]" ?start ?a ?b echo_service "[]"]
      reference_bytes_documented reference_bincode_documented sent carried peer echo_adapter(1) asm ready time room by auto
  let ?cn = "(with_adapter a' ?start)\<lparr>cn_failures := 0\<rparr>"
  have "pl_fragmentation (cn_pipeline ?cn) = Some a'" "pl_out (cn_pipeline ?cn) = []" "cn_app ?cn = 0" "os_wire (cn_out ?cn) = []"
    by (simp_all add: with_adapter_def echo_connection_def pipeline_with_hooks_def no_output_def)
  then obtain cn where "forward_response ?ic ?req echo_service ?cn = Some (cn, Inr ())" "cn_app cn = 1" "os_wire (cn_out cn) = [[1, 2, 3]]"
    using echo_answers [of "[1, 2, 3]" ?cn a' None 1000] a' echo_limits by auto
  then show ?thesis using run by auto
qed

lemma encode_batch_parts:
  assumes "encode_batch api hc envelope_fragmentable i c frs = Inr es" and "x \<in> set es"
  shows "env_id x = i \<and> env_correlation_id x = c"
  using assms
proof (induction frs arbitrary: es)
  case (Cons fr frs)
  then obtain out es' where "es = from_fragment_parts envelope_fragmentable (fragment_parts_new i c out) # es'"
    "encode_batch api hc envelope_fragmentable i c frs = Inr es'" by (auto split: sum.splits)
  then show ?case using Cons
    by (auto simp: envelope_fragmentable_def fragment_parts_new_def packet_parts_new_def envelope_from_parts_def envelope_new_def)
qed simp

lemma fragments_keep_routing:
  assumes "adapter_fragment api hc envelope_fragmentable a e = Some (a', Inr es)" and "x \<in> set es"
  shows "env_id x = env_id e \<and> env_correlation_id x = env_correlation_id e"
proof -
  have parts: "fp_id (into_fragment_parts envelope_fragmentable e) = env_id e"
    "fp_correlation_id (into_fragment_parts envelope_fragmentable e) = env_correlation_id e"
    by (simp_all add: envelope_fragmentable_def fragment_parts_new_def parts_from_envelope_def packet_parts_new_def Let_def)
  consider payload where "es = [from_fragment_parts envelope_fragmentable (fragment_parts_new (env_id e) (env_correlation_id e) payload)]"
    | frs where "encode_batch api hc envelope_fragmentable (env_id e) (env_correlation_id e) frs = Inr es"
    using assms(1) parts by (auto simp: adapter_fragment_def fragment_packet_def Let_def split: option.splits sum.splits if_splits)
  then show ?thesis
    using assms(2) encode_batch_parts
    by cases (auto simp: envelope_fragmentable_def fragment_parts_new_def packet_parts_new_def envelope_from_parts_def envelope_new_def)
qed

text \<open>Every envelope that is handed over leaves one outcome, and the first failure ends the batch.\<close>

lemma send_envelope_outcome:
  assumes "send_envelope tr hooks e (pl, out) = ((pl', out'), r)"
  shows "\<exists>oc. os_outcomes out' = os_outcomes out @ [oc] \<and> (oc = SendSuccess \<longleftrightarrow> r = Inr ())"
proof -
  have "classify_send_error err \<noteq> SendSuccess" for err
    by (auto simp: classify_send_error_def split: io_error_payload.splits codec_error.splits)
  then show ?thesis
    using assms by (auto simp: send_envelope_def record_outcome_def Let_def split: prod.splits sum.splits)
qed

lemma send_envelopes_outcomes:
  assumes "send_envelopes tr hooks es (pl, out) = ((pl', out'), r)"
  shows "(r = Inr () \<longrightarrow> os_outcomes out' = os_outcomes out @ replicate (length es) SendSuccess) \<and>
    (r \<noteq> Inr () \<longrightarrow> (\<exists>k oc. k < length es \<and> oc \<noteq> SendSuccess \<and> os_outcomes out' = os_outcomes out @ replicate k SendSuccess @ [oc]))"
  using assms
proof (induction es arbitrary: pl out)
  case (Cons e es)
  obtain pl1 out1 r1 where s: "send_envelope tr hooks e (pl, out) = ((pl1, out1), r1)" by (metis prod.exhaust)
  from send_envelope_outcome [OF s] obtain oc where oc: "os_outcomes out1 = os_outcomes out @ [oc]" "oc = SendSuccess \<longleftrightarrow> r1 = Inr ()" by blast
  show ?case
  proof (cases r1)
    case (Inl err)
    then have "out' = out1" "r = Inl err" using Cons.prems s by simp_all
    then show ?thesis using oc Inl by (auto intro!: exI [of _ "0 :: nat"])
  next
    case (Inr u)
    then have rest: "send_envelopes tr hooks es (pl1, out1) = ((pl', out'), r)" using Cons.prems s by simp
    note ih = Cons.IH [OF rest]
    show ?thesis
    proof (cases "r = Inr ()")
      case True
      then show ?thesis using ih oc Inr by simp
    next
      case False
      then obtain k o2 where "k < length es" "o2 \<noteq> SendSuccess" "os_outcomes out' = os_outcomes out1 @ replicate k SendSuccess @ [o2]"
        using ih by blast
      then show ?thesis using oc Inr False by (auto intro!: exI [of _ "Suc k"])
    qed
  qed
qed simp



end
