(* ===== verification/Spec2Isabelle.thy ===== *)
theory Spec2Isabelle
  imports Codec Example_Codecs Fragment_Adapter Message_Assembly Actor_Termination Actor_Commands Connection_Model Resp_Codec Push_Refinement Dead_Letter_Races
    Session_Registry Pool_Lease Pool_Scheduler Inbound_Requests
begin

text \<open>
  Verification of \<open>wireframe\<close>, a library for framed binary protocols over asynchronous streams.

  \<^bold>\<open>The program.\<close> A codec cuts a byte stream into frames. The connection handler of an application
  decodes each frame into an envelope, reassembles envelopes from fragments, assembles messages from
  protocol frames, and calls the service of the envelope's route; the response goes through a pipeline that
  fragments, serialises and writes it. A connection actor writes frames that other tasks push and that response streams
  yield. Tasks push through bounded queues with two priorities, found by a session registry. A client pool shares sockets
  between leases that a scheduler hands out.

  \<^bold>\<open>Theories and sources\<close> (paths below \<open>src/\<close> of the crate unless they begin with a directory of the repository).

  \<^item> \<open>Prelude\<close>: integers, slices, association lists as \<open>HashMap\<close>, and the interfaces \<open>hash_map\<close>,
    \<open>weighted_map\<close> and \<open>transition_system\<close>. \<open>Byte_Order\<close> (\<open>byte_order.rs\<close>) states what is used of the
    crate \<open>bytes\<close>; \<open>Decimal_Text\<close> has UTF-8 and decimal numerals of the standard library.
  \<^item> Framing. \<open>Codec_Error\<close> (\<open>codec/error.rs\<close>, \<open>codec/recovery\<close>): errors and recovery policies.
    \<open>Frame_Prefix\<close> (\<open>frame/conversion.rs\<close>, \<open>frame/format.rs\<close>): length prefixes.
    \<open>Frame_Codec\<close>: the contract of a codec, locales \<open>stream_codec\<close> and \<open>frame_codec\<close>, with the
    lemma that decoding does not depend on how the stream is cut into reads. \<open>Codec\<close> (\<open>codec/mod.rs\<close>),
    \<open>Example_Codecs\<close> (\<open>codec/examples.rs\<close>), \<open>Resp_Frame\<close> and \<open>Resp_Codec\<close>
    (\<open>examples/resp_codec_impl\<close>) provide and use it.
  \<^item> Fragmentation (\<open>fragment/\<close>). \<open>Fragment_Core\<close>: identifiers, indices, headers and the ordering
    tracker. \<open>Fragmenter\<close>: splitting, against a reference definition. \<open>Fragment_Payload\<close>: the wire form
    and configuration. \<open>Reassembler\<close>: buffers, budget and timeouts. \<open>Fragment_Adapter\<close>: both on packets.
  \<^item> Assembly (\<open>message_assembler/\<close>). \<open>Message_Series\<close>: headers and the ordering tracker.
    \<open>Message_Assembly\<close>: budgets, partial assemblies and the state.
  \<^item> The connection actor. \<open>Channel\<close>: what is used of \<open>tokio::sync::mpsc\<close>. \<open>Fairness\<close>
    (\<open>fairness.rs\<close>), \<open>Hooks\<close> (\<open>hooks.rs\<close>), \<open>Wireframe_Error\<close> (\<open>error.rs\<close>),
    \<open>Connection_Actor\<close> (\<open>connection/\<close>): the actor as a state, one function per method and a step relation in
    which other tasks send, close and cancel between its turns. \<open>Actor_Sources\<close>, \<open>Actor_Delivery\<close>,
    \<open>Actor_Termination\<close> and \<open>Actor_Commands\<close> hold its properties. \<open>Connection_Model\<close>
    (\<open>crates/wireframe-verification\<close>): the model that the repository checks with a model checker.
  \<^item> Pushing. \<open>Push_Queues\<close> (\<open>push/queues\<close>), \<open>Push_Refinement\<close>: an abstract specification and
    the refinement, and awaited pushes poll by poll. \<open>Dead_Letter_Races\<close>: the atomic steps of several producers
    that lose frames. \<open>Session_Registry\<close> (\<open>session.rs\<close>).
  \<^item> The client pool. \<open>Client_Error\<close> (\<open>client/error.rs\<close>), \<open>Pool_Lease\<close>
    (\<open>client/pool/{lease,slot}.rs\<close>), \<open>Pool_Waiters\<close> and \<open>Pool_Scheduler\<close>
    (\<open>client/pool/{core,policy}.rs\<close>, \<open>client/pool/scheduler\<close>).
  \<^item> The connection handler. \<open>App_Envelope\<close> (\<open>app/envelope.rs\<close>, \<open>app/memory_budgets.rs\<close>,
    \<open>app/builder_defaults.rs\<close>, \<open>app/frame_handling/backpressure.rs\<close>), \<open>Frame_Pipeline\<close>
    (\<open>app/codec_driver.rs\<close>, \<open>app/outbound_encoding.rs\<close>), \<open>Service_Chain\<close> (\<open>middleware.rs\<close>),
    \<open>Inbound_Handler\<close> (\<open>app/inbound_handler\<close>, \<open>app/frame_handling\<close>). \<open>Inbound_Properties\<close> and
    \<open>Inbound_Requests\<close> hold its properties, evaluated on the application of \<open>Echo_Application\<close>.

  \<^bold>\<open>How code becomes definitions.\<close> A struct is a record, an enum a datatype, a method a function with the source's name,
  prefixed where names clash. A method with \<open>&mut self\<close> returns the new state. A \<open>Result\<close> is a sum with the error
  on the left; a panic is \<open>None\<close>. \<open>u8\<close> to \<open>u64\<close> are words; \<open>usize\<close> is a natural number with the
  checked, saturating and wrapping operations written out at \<open>usize_max\<close>. Instants and durations are milliseconds, and every
  reading of the clock is an argument. Asynchronous code is cut at its await points: each piece between two of them is
  one step, and everything that other tasks can do happens between steps. Third-party crates and application code are
  arguments: records of functions, with their documented behaviour as named hypotheses
  (\<open>bytes_documented\<close>, \<open>bincode_documented\<close> and others), each met by a reference implementation that the
  examples use.

  \<^bold>\<open>Termination and bounds.\<close> No definition uses fuel. Loops of the code are structurally recursive or have a
  termination proof (\<open>build_loop\<close>, \<open>parse_line_from\<close>, \<open>parse_frame_at\<close>, \<open>utf8_valid\<close>). The loops
  that wait for events (the actor's \<open>run\<close>, the connection handler, the scheduler task) are step relations or functions of the
  list of events, of any length; that the actor returns is a theorem with an explicit bound.

  \<^bold>\<open>What is shown.\<close>

  \<^item> Codecs: encoded frames come back, for every cut of the stream (Hotline, MySQL, RESP); decoded RESP frames are within all
    limits; the end of a stream is classified.
  \<^item> Fragmentation: fragments concatenate to the payload; what is reassembled is the in-order
    concatenation of fragments received, under any interleaving; the byte counter is exact and the limits hold in every reachable
    state; a packet sent through one adapter arrives unchanged at another; a packet that starts with the marker does not.
  \<^item> Assembly: a delivered message is one first frame with its continuations in order; budgets hold in every
    reachable state; which errors keep an assembly.
  \<^item> Actor: every queued frame is written once and in order, a queued low-priority frame is written within a bounded number of
    turns, sources are counted exactly, the end callback runs once per output, and \<open>run\<close> returns.
  \<^item> Queues and registry: refinement of bounded queues and of a map of live handles; an awaited push enqueues
    once; lost frames are accounted for.
  \<^item> Pool: no lease reads another lease's reply; permits and requests are conserved; waiters are served within
    their turn; shutdown answers everyone.
  \<^item> Connection handler: a fragmented request is served once and as a whole; responses carry the identifier and correlation of
    their request; memory is bounded; failures are counted exactly; a route's first middleware is the outermost; teardown
    runs once.

  The invariants are instances of \<open>transition_system\<close>, the map arguments of \<open>hash_map\<close> and
  \<open>weighted_map\<close>, the stream arguments of \<open>stream_codec\<close> and \<open>frame_codec\<close>, the turns of waiters of
  \<open>waiter_queue\<close>; each of these interfaces is interpreted on the definitions of the components.

  \<^bold>\<open>Not modelled.\<close>

  \<^item> The server (\<open>server/\<close>) and the client runtime (\<open>client/\<close> outside the pool): sockets, task spawning,
    signals, socket options and tracing, whose behaviour is that of \<open>tokio\<close> and the operating system.
  \<^item> Builders and prepared applications (\<open>app/builder\<close>, \<open>app/prepared_app.rs\<close>) and
    \<open>app_data_store.rs\<close>: fields set and handed on, and a map indexed by types.
  \<^item> Requests, responses, extractors, serializers (\<open>request/\<close>, \<open>response.rs\<close>, \<open>extractor/\<close>,
    \<open>serializer.rs\<close>, \<open>message.rs\<close>): traits for application code, over futures, dynamic types and \<open>bincode\<close>.
  \<^item> Preambles and \<open>rewind_stream.rs\<close>: they depend on the internals of \<open>bincode\<close>'s reader and of polled reads.
  \<^item> Of the pool, its construction, churn counters and the \<open>bb8\<close> adapter; the race for a permit over blocked slots is
    an event that yields a permit or an error.
  \<^item> Metrics, logs, error texts, module roots, examples other than RESP, tests and benchmarks.
  \<^item> Memory reordering below the atomic operations: atomic steps are interleaved sequentially.
\<close>

end
